(* ===== verification/Redis_Base.thy ===== *)
theory Redis_Base
  imports Main "HOL-Library.Word" "HOL-Library.Monad_Syntax"
begin

text \<open>
  Shared vocabulary of the development: the machine types of the C sources as words, byte
  buffers with checked accesses, and the generic lemmas the component theories use.

  A C buffer is a \<open>byte list\<close>. Every read and write the code performs through a pointer is an
  access of the \<open>option\<close> monad (\<open>rd\<close>, \<open>wr\<close>, \<open>memread\<close>, \<open>memwrite\<close>, \<open>memmove\<close>): \<open>None\<close> is an
  access outside the buffer, undefined behaviour in C. A theorem that an operation returns
  \<open>Some\<close> therefore includes that the code stays inside the memory it owns.
\<close>

unbundle bit_operations_syntax

named_theorems mem_simps \<open>rewriting of checked buffer accesses\<close>

section \<open>Machine types and characters\<close>

type_synonym byte = "8 word"
type_synonym u16 = "16 word"
type_synonym u32 = "32 word"
type_synonym u64 = "64 word"

abbreviation ch :: "char \<Rightarrow> byte" where
  "ch c \<equiv> of_char c"

abbreviation bytes_of :: "string \<Rightarrow> byte list" where
  "bytes_of s \<equiv> map of_char s"

text \<open>The C constants of \<open>limits.h\<close> on the LP64 targets of the sources.\<close>

abbreviation LLONG_MIN :: u64 where "LLONG_MIN \<equiv> 0x8000000000000000"
abbreviation LLONG_MAX :: u64 where "LLONG_MAX \<equiv> 0x7FFFFFFFFFFFFFFF"
abbreviation ULLONG_MAX :: u64 where "ULLONG_MAX \<equiv> 0xFFFFFFFFFFFFFFFF"

section \<open>Checked buffer accesses\<close>

definition rd :: "'a list \<Rightarrow> nat \<Rightarrow> 'a option" where
  "rd b i = (if i < length b then Some (b ! i) else None)"

definition wr :: "'a list \<Rightarrow> nat \<Rightarrow> 'a \<Rightarrow> 'a list option" where
  "wr b i x = (if i < length b then Some (b[i := x]) else None)"

definition memread :: "'a list \<Rightarrow> nat \<Rightarrow> nat \<Rightarrow> 'a list option" where
  "memread b i n = (if i + n \<le> length b then Some (take n (drop i b)) else None)"

definition memwrite :: "'a list \<Rightarrow> nat \<Rightarrow> 'a list \<Rightarrow> 'a list option" where
  "memwrite b i xs =
     (if i + length xs \<le> length b then Some (take i b @ xs @ drop (i + length xs) b) else None)"

definition memmove :: "'a list \<Rightarrow> nat \<Rightarrow> nat \<Rightarrow> nat \<Rightarrow> 'a list option" where
  "memmove b dst src n = do { xs \<leftarrow> memread b src n; memwrite b dst xs }"

lemma rd_ok [mem_simps]: "i < length b \<Longrightarrow> rd b i = Some (b ! i)"
  by (simp add: rd_def)

lemma wr_ok [mem_simps]: "i < length b \<Longrightarrow> wr b i x = Some (b[i := x])"
  by (simp add: wr_def)

lemma memread_ok [mem_simps]: "i + n \<le> length b \<Longrightarrow> memread b i n = Some (take n (drop i b))"
  by (simp add: memread_def)

lemma memwrite_ok [mem_simps]:
  "i + length xs \<le> length b \<Longrightarrow> memwrite b i xs = Some (take i b @ xs @ drop (i + length xs) b)"
  by (simp add: memwrite_def)

lemma wr_length: "wr b i x = Some b' \<Longrightarrow> length b' = length b"
  by (auto simp: wr_def split: if_splits)

lemma memwrite_length: "memwrite b i xs = Some b' \<Longrightarrow> length b' = length b"
  by (auto simp: memwrite_def split: if_splits)

text \<open>Accesses at a known place of a buffer.\<close>

lemma rd_at: "length p = i \<Longrightarrow> rd (p @ c # r) i = Some c"
  by (auto simp: rd_ok nth_append)

lemma memread_at: "length p = i \<Longrightarrow> length t = n \<Longrightarrow> memread (p @ t @ r) i n = Some t"
  by (auto simp: memread_ok)

lemma memwrite_at:
  "length p = i \<Longrightarrow> length q = length t \<Longrightarrow> memwrite (p @ q @ r) i t = Some (p @ t @ r)"
  by (simp add: memwrite_ok)

lemma wr_at: "length p = i \<Longrightarrow> wr (p @ c # r) i x = Some (p @ x # r)"
  by (auto simp: wr_ok)

section \<open>Signed reading of words\<close>

lemma uint_of_sint:
  fixes v :: "'a::len word"
  shows "uint v = (if sint v < 0 then sint v + 2 ^ LENGTH('a) else sint v)"
proof -
  have le: "(2::int) ^ (LENGTH('a) - 1) \<le> 2 ^ LENGTH('a)"
    by (rule power_increasing) auto
  show ?thesis
  proof (cases "sint v < 0")
    case True
    have "uint v = (sint v + 2 ^ LENGTH('a)) mod 2 ^ LENGTH('a)"
      by (simp add: uint_sint take_bit_eq_mod)
    also have "\<dots> = sint v + 2 ^ LENGTH('a)"
      using True sint_ge [of v] le by (intro mod_pos_pos_trivial) linarith+
    finally show ?thesis using True by simp
  next
    case False
    have "uint v = sint v mod 2 ^ LENGTH('a)"
      by (simp add: uint_sint take_bit_eq_mod)
    also have "\<dots> = sint v"
      using False sint_lt [of v] le by (intro mod_pos_pos_trivial) linarith+
    finally show ?thesis using False by simp
  qed
qed

lemma unat_of_sint_nonneg: "0 \<le> sint v \<Longrightarrow> unat v = nat (sint v)"
  using uint_of_sint [of v] by (simp add: unat_eq_nat_uint)

lemma unat_uminus_of_sint_neg:
  fixes v :: "'a::len word"
  assumes "sint v < 0"
  shows "unat (- v) = nat (- sint v)"
proof -
  have "uint v \<noteq> 0"
    using assms by (auto simp: uint_0_iff)
  then have "uint (- v) = 2 ^ LENGTH('a) - uint v"
    using uint_lt2p [of v] by (simp add: uint_word_ariths zmod_zminus1_eq_if)
  then show ?thesis
    using assms uint_of_sint [of v] by (simp add: unat_eq_nat_uint)
qed

lemma unat_pred: "0 < unat w \<Longrightarrow> unat (w - 1) = unat w - 1"
  by (cases "w = 0") (simp_all add: unat_minus_one)

lemma unat_ucast_up:
  "LENGTH('a::len) \<le> LENGTH('b::len) \<Longrightarrow> unat (ucast (w :: 'a word) :: 'b word) = unat w"
  by (simp add: unsigned_ucast_eq take_bit_nat_eq_self_iff)
    (meson less_le_trans one_le_numeral power_increasing unsigned_less)

lemma unat_of_nat_small: "n < 2 ^ LENGTH('a) \<Longrightarrow> unat (of_nat n :: 'a::len word) = n"
  by (simp add: unsigned_of_nat take_bit_nat_eq_self)

lemma sint_of_int_range:
  assumes "- (2 ^ (LENGTH('a) - 1)) \<le> x" "x < 2 ^ (LENGTH('a) - 1)"
  shows "sint (word_of_int x :: 'a::len word) = x"
proof -
  have "(2::int) ^ LENGTH('a) = 2 * 2 ^ (LENGTH('a) - 1)"
    by (metis len_gt_0 power_Suc Suc_diff_1)
  then show ?thesis
    using assms by (simp add: int_word_sint)
qed

lemma unat_byte: "n < 256 \<Longrightarrow> unat (of_nat n :: byte) = n"
  by (simp add: unsigned_of_nat take_bit_nat_eq_self)

lemma scast_ucast:
  fixes v :: u64
  assumes "- (2 ^ (LENGTH('a) - 1)) \<le> sint v" "sint v < 2 ^ (LENGTH('a) - 1)" "LENGTH('a) \<le> 64"
  shows "scast (ucast v :: 'a::len word) = v"
proof -
  have "(word_of_int (uint v) :: 'a word) = word_of_int (sint v)"
    unfolding word_of_int_eq_iff sint_uint using assms(3) by (simp add: take_bit_signed_take_bit)
  then have "(ucast v :: 'a word) = word_of_int (sint v)" by simp
  then have "sint (ucast v :: 'a word) = sint v" using sint_of_int_range [of "sint v", where ?'a = 'a] assms(1,2) by simp
  then have "sint (scast (ucast v :: 'a word) :: u64) = sint v"
    using assms(3) by (subst sint_up_scast) (simp_all add: is_up)
  then show ?thesis by (rule signed_word_eqI)
qed

section \<open>Memory blocks\<close>

text \<open>
  \<open>zrealloc junk b n\<close>: the block \<open>b\<close> resized to \<open>n\<close> bytes. The allocator is outside the
  sources; \<open>junk i\<close> is the unspecified content it leaves at the new offset \<open>i\<close>.
\<close>

definition zrealloc :: "(nat \<Rightarrow> byte) \<Rightarrow> byte list \<Rightarrow> nat \<Rightarrow> byte list" where
  "zrealloc junk b n = take n b @ map junk [length b..<n]"

lemma length_zrealloc [simp]: "length (zrealloc junk b n) = n"
  by (simp add: zrealloc_def)

lemma take_zrealloc: "k \<le> length b \<Longrightarrow> k \<le> n \<Longrightarrow> take k (zrealloc junk b n) = take k b"
  by (simp add: zrealloc_def min_def)

lemma zrealloc_grow: "length b \<le> n \<Longrightarrow> zrealloc junk b n = b @ map junk [length b..<n]"
  by (simp add: zrealloc_def)

lemma zrealloc_shrink: "n \<le> length b \<Longrightarrow> zrealloc junk b n = take n b"
  by (simp add: zrealloc_def)

section \<open>Little-endian integers\<close>

text \<open>
  \<open>le_bytes n x\<close>: the low \<open>n\<close> bytes of \<open>x\<close>, least significant first, the layout the code keeps
  in its byte arrays on every host (\<open>memrev16ifbe\<close> and its kin swap on big-endian hosts only).
\<close>

fun le_bytes :: "nat \<Rightarrow> nat \<Rightarrow> byte list" where
  "le_bytes 0 x = []"
| "le_bytes (Suc n) x = of_nat x # le_bytes n (x div 256)"

fun le_val :: "byte list \<Rightarrow> nat" where
  "le_val [] = 0"
| "le_val (b # bs) = unat b + 256 * le_val bs"

lemma le_bytes_numeral:
  "le_bytes (numeral k) x = of_nat x # le_bytes (pred_numeral k) (x div 256)"
  by (simp only: numeral_eq_Suc [of k] le_bytes.simps)

lemma length_le_bytes [simp]: "length (le_bytes n x) = n"
  by (induction n x rule: le_bytes.induct) auto

lemma le_val_bound: "le_val bs < 256 ^ length bs"
proof (induction bs)
  case (Cons b bs)
  have "unat b < 256"
    using unsigned_less [of b, where ?'a = nat] by simp
  then show ?case using Cons.IH by simp
qed simp

lemma le_val_le_bytes: "le_val (le_bytes n x) = x mod 256 ^ n"
proof (induction n x rule: le_bytes.induct)
  case (2 n x)
  have "x mod 256 ^ Suc n = 256 * (x div 256 mod 256 ^ n) + x mod 256"
    by (simp only: power_Suc mod_mult2_eq)
  with 2 show ?case
    by (simp add: unat_of_nat del: power_Suc)
qed simp

lemma le_bytes_le_val: "le_bytes (length bs) (le_val bs) = bs"
proof (induction bs)
  case (Cons b bs)
  have "(of_nat 256 :: byte) = 0"
    by simp
  then have "(of_nat (unat b + 256 * le_val bs) :: byte) = b"
    by (simp only: of_nat_add of_nat_mult mult_zero_left) simp
  moreover have "(unat b + 256 * le_val bs) div 256 = le_val bs"
    using unsigned_less [of b, where ?'a = nat] by simp
  ultimately show ?case
    using Cons.IH by (simp only: le_val.simps le_bytes.simps list.size(4) add_Suc_right add_0_right One_nat_def)
qed simp

section \<open>Splitting a list at a position\<close>

lemma split_at: "n < length l \<Longrightarrow> \<exists>a x b. l = a @ x # b \<and> length a = n \<and> length b = length l - n - 1"
  by (intro exI [of _ "take n l"] exI [of _ "l ! n"] exI [of _ "drop (Suc n) l"]) (simp add: id_take_nth_drop)

lemma split_prefix: "n \<le> length l \<Longrightarrow> \<exists>a b. l = a @ b \<and> length a = n"
  by (intro exI [of _ "take n l"] exI [of _ "drop n l"]) simp

end
