(* ===== verification/Util.thy ===== *)
theory Util
  imports Redis_Base
begin

text \<open>
  \<open>util.c\<close>: conversion between integers and their decimal representation
  (\<open>digits10\<close>, \<open>ll2string\<close>, \<open>string2ll\<close>, \<open>string2l\<close>).
  The specification is \<open>dec\<close>/\<open>sdec\<close>, the canonical decimal spelling of a number.
\<close>

section \<open>The code\<close>

function digits10 :: "u64 \<Rightarrow> u32" where
  "digits10 v =
     (if v < 10 then 1
      else if v < 100 then 2
      else if v < 1000 then 3
      else if v < 1000000000000 then
        (if v < 100000000 then
           (if v < 1000000 then
              (if v < 10000 then 4 else 5 + (if v \<ge> 100000 then 1 else 0))
            else 7 + (if v \<ge> 10000000 then 1 else 0))
         else if v < 10000000000 then 9 + (if v \<ge> 1000000000 then 1 else 0)
         else 11 + (if v \<ge> 100000000000 then 1 else 0))
      else 12 + digits10 (v div 1000000000000))"
  by pat_completeness auto
termination
  by (relation "measure unat") (auto simp: unat_div not_less word_le_nat_alt intro!: div_less_dividend)

declare digits10.simps [simp del]

text \<open>The two-digit table of \<open>ll2string\<close>.\<close>

definition digits :: "byte list" where
  "digits = bytes_of
     (''0001020304050607080910111213141516171819'' @
      ''2021222324252627282930313233343536373839'' @
      ''4041424344454647484950515253545556575859'' @
      ''6061626364656667686970717273747576777879'' @
      ''8081828384858687888990919293949596979899'')"

function ll2string_loop :: "byte list \<Rightarrow> u32 \<Rightarrow> u64 \<Rightarrow> (byte list \<times> u32 \<times> u64) option" where
  "ll2string_loop dst nxt val =
     (if val \<ge> 100 then
        do {
          let i = unat (val mod 100) * 2;
          d1 \<leftarrow> rd digits (i + 1);
          dst \<leftarrow> wr dst (unat nxt) d1;
          d0 \<leftarrow> rd digits i;
          dst \<leftarrow> wr dst (unat (nxt - 1)) d0;
          ll2string_loop dst (nxt - 2) (val div 100)
        }
      else Some (dst, nxt, val))"
  by pat_completeness auto
termination
  by (relation "measure (\<lambda>(_, _, v). unat v)")
     (auto simp: unat_div not_less word_le_nat_alt intro!: div_less_dividend)

declare ll2string_loop.simps [simp del]

definition ll2string_last :: "byte list \<Rightarrow> u32 \<Rightarrow> u64 \<Rightarrow> byte list option" where
  "ll2string_last dst nxt val =
     (if val < 10 then wr dst (unat nxt) (ch CHR ''0'' + ucast val)
      else do {
        let i = unat val * 2;
        d1 \<leftarrow> rd digits (i + 1);
        dst \<leftarrow> wr dst (unat nxt) d1;
        d0 \<leftarrow> rd digits i;
        wr dst (unat (nxt - 1)) d0
      })"

text \<open>
  \<open>ll2string dst dstlen svalue\<close> gives the buffer after the call and the returned length
  (0 when the buffer is too small). \<open>svalue\<close> is a \<open>long long\<close>, read signed.
\<close>

definition ll2string :: "byte list \<Rightarrow> nat \<Rightarrow> u64 \<Rightarrow> (byte list \<times> u32) option" where
  "ll2string dst dstlen svalue =
     (let (val, negative) =
        (if sint svalue < 0
         then (if svalue \<noteq> LLONG_MIN then - svalue else LLONG_MAX + 1, True)
         else (svalue, False));
        len = digits10 val + (if negative then 1 else 0)
      in if unat len \<ge> dstlen then Some (dst, 0)
         else do {
           dst \<leftarrow> wr dst (unat len) 0;
           (dst, nxt, val) \<leftarrow> ll2string_loop dst (len - 1) val;
           dst \<leftarrow> ll2string_last dst nxt val;
           dst \<leftarrow> (if negative then wr dst 0 (ch CHR ''-'') else Some dst);
           Some (dst, len)
         })"

text \<open>
  \<open>string2ll s\<close>: the C code walks \<open>p\<close> over the \<open>slen\<close> bytes of \<open>s\<close>; the list argument of the
  loop is what is left to read (\<open>plen < slen\<close> is that it is not empty). \<open>None\<close> is a return
  of 0, \<open>Some v\<close> a return of 1 with \<open>*val = v\<close>.
\<close>

fun string2ll_loop :: "byte list \<Rightarrow> u64 \<Rightarrow> (byte list \<times> u64) option" where
  "string2ll_loop [] v = Some ([], v)"
| "string2ll_loop (c # p) v =
     (if ch CHR ''0'' \<le> c \<and> c \<le> ch CHR ''9'' then
        (if v > ULLONG_MAX div 10 then None
         else if v * 10 > ULLONG_MAX - ucast (c - ch CHR ''0'') then None
         else string2ll_loop p (v * 10 + ucast (c - ch CHR ''0'')))
      else Some (c # p, v))"

definition string2ll_digits :: "nat \<Rightarrow> bool \<Rightarrow> byte list \<Rightarrow> u64 option" where
  "string2ll_digits slen negative p =
     (case p of
        [] \<Rightarrow> None
      | c # p' \<Rightarrow>
          if ch CHR ''1'' \<le> c \<and> c \<le> ch CHR ''9'' then
            (case string2ll_loop p' (ucast (c - ch CHR ''0'')) of
               None \<Rightarrow> None
             | Some (rest, v) \<Rightarrow>
                 if rest \<noteq> [] then None
                 else if negative then
                   (if v > - (LLONG_MIN + 1) + 1 then None else Some (- v))
                 else
                   (if v > LLONG_MAX then None else Some v))
          else if c = ch CHR ''0'' \<and> slen = 1 then Some 0
          else None)"

definition string2ll :: "byte list \<Rightarrow> u64 option" where
  "string2ll s =
     (case s of
        [] \<Rightarrow> None
      | c # p \<Rightarrow>
          if length s = 1 \<and> c = ch CHR ''0'' then Some 0
          else if c = ch CHR ''-'' then string2ll_digits (length s) True p
          else string2ll_digits (length s) False s)"

definition string2l :: "byte list \<Rightarrow> u64 option" where
  "string2l s =
     (case string2ll s of
        None \<Rightarrow> None
      | Some llval \<Rightarrow>
          if sint llval < sint LLONG_MIN \<or> sint llval > sint LLONG_MAX then None
          else Some llval)"

section \<open>Specification: decimal spelling\<close>

fun dec :: "nat \<Rightarrow> byte list" where
  "dec n = (if n < 10 then [48 + of_nat n] else dec (n div 10) @ [48 + of_nat (n mod 10)])"

declare dec.simps [simp del]

definition sdec :: "int \<Rightarrow> byte list" where
  "sdec v = (if v < 0 then 45 # dec (nat (- v)) else dec (nat v))"

lemma dec_nonempty [simp]: "dec n \<noteq> []"
  by (subst dec.simps) simp

lemma dec_small: "n < 10 \<Longrightarrow> dec n = [48 + of_nat n]"
  by (simp add: dec.simps)

lemma dec_step: "10 \<le> n \<Longrightarrow> dec n = dec (n div 10) @ [48 + of_nat (n mod 10)]"
  by (simp add: dec.simps)

lemma dec_step2:
  assumes "100 \<le> n"
  shows "dec n = dec (n div 100) @ [48 + of_nat (n mod 100 div 10), 48 + of_nat (n mod 10)]"
proof -
  have "n div 10 mod 10 = n mod 100 div 10" and "n div 10 div 10 = n div 100"
    by (simp_all add: mod_mult2_eq [of n 10 10, simplified] div_mult2_eq [of n 10 10, simplified])
  then show ?thesis
    using assms dec_step [of n] dec_step [of "n div 10"] by simp
qed

lemma length_dec_div: "10 ^ k \<le> n \<Longrightarrow> length (dec n) = k + length (dec (n div 10 ^ k))"
proof (induction k arbitrary: n)
  case (Suc k)
  have "10 ^ k \<le> n div 10" and "10 \<le> n"
    using Suc.prems by (auto simp: less_eq_div_iff_mult_less_eq mult.commute
        intro: order_trans [OF _ Suc.prems])
  then show ?case
    using Suc.IH [of "n div 10"] dec_step [of n] by (simp add: div_mult2_eq)
qed simp

lemma length_dec_eq: "10 ^ k \<le> n \<Longrightarrow> n < 10 ^ Suc k \<Longrightarrow> length (dec n) = Suc k"
  using length_dec_div [of k n]
  by (simp add: dec_small less_mult_imp_div_less)

lemma length_dec_le: "n < 10 ^ Suc k \<Longrightarrow> length (dec n) \<le> Suc k"
proof (induction k arbitrary: n)
  case (Suc k)
  then show ?case
    by (cases "n < 10") (simp_all add: dec_small dec_step less_mult_imp_div_less)
qed (simp add: dec_small)

lemma length_dec_u64: "length (dec (unat (v :: u64))) \<le> 20"
  using length_dec_le [of "unat v" 19] unsigned_less [of v, where ?'a = nat] by simp

lemma digits10_length: "unat (digits10 v) = length (dec (unat v))"
proof (induction v rule: digits10.induct)
  case (1 v)
  note conv = word_less_nat_alt word_le_nat_alt
  show ?case
  proof (cases "v < 1000000000000")
    case True
    then show ?thesis
      using length_dec_eq [of 0 "unat v"] length_dec_eq [of 1 "unat v"]
        length_dec_eq [of 2 "unat v"] length_dec_eq [of 3 "unat v"] length_dec_eq [of 4 "unat v"]
        length_dec_eq [of 5 "unat v"] length_dec_eq [of 6 "unat v"] length_dec_eq [of 7 "unat v"]
        length_dec_eq [of 8 "unat v"] length_dec_eq [of 9 "unat v"] length_dec_eq [of 10 "unat v"]
        length_dec_eq [of 11 "unat v"] dec_small [of "unat v"]
      by (subst digits10.simps) (simp add: conv)
  next
    case False
    then have big: "\<not> v < 10" "\<not> v < 100" "\<not> v < 1000"
      by (simp_all add: conv)
    have "unat (digits10 (v div 1000000000000)) = length (dec (unat v div 1000000000000))"
      using 1 False big by (simp add: unat_div)
    moreover have "length (dec (unat v)) = 12 + length (dec (unat v div 1000000000000))"
      using length_dec_div [of 12 "unat v"] False by (simp add: conv)
    ultimately show ?thesis
      using False big length_dec_u64 [of v]
      by (subst digits10.simps) (simp add: unat_word_ariths)
  qed
qed

lemma length_digits: "length digits = 200"
  by (simp add: digits_def)

lemma concat_pairs_nth:
  "n < length xs \<Longrightarrow> concat (map (\<lambda>x. [f x, g x]) xs) ! (2 * n) = f (xs ! n)"
  "n < length xs \<Longrightarrow> concat (map (\<lambda>x. [f x, g x]) xs) ! (2 * n + 1) = g (xs ! n)"
  by (induction xs arbitrary: n) (auto simp: nth_Cons split: nat.splits)

lemma digits_concat:
  "digits = concat (map (\<lambda>n. [48 + of_nat (n div 10), 48 + of_nat (n mod 10)]) [0..<100])"
  by (simp add: digits_def upt_conv_Cons)

lemma digits_entry:
  assumes "n < 100"
  shows "digits ! (2 * n) = 48 + of_nat (n div 10)" "digits ! (2 * n + 1) = 48 + of_nat (n mod 10)"
  using assms unfolding digits_concat by (simp_all add: concat_pairs_nth [simplified])

lemma length_dec_pos: "0 < length (dec n)"
  by simp

lemma update_two: "i + 1 < length xs \<Longrightarrow>
    xs[Suc i := b, i := a] = take i xs @ [a, b] @ drop (i + 2) xs"
  by (rule nth_equalityI) (auto simp: nth_append nth_list_update nth_Cons split: nat.splits intro!: arg_cong [where f = "nth xs"])

lemma update_one: "i < length xs \<Longrightarrow> xs[i := a] = take i xs @ [a] @ drop (i + 1) xs"
  by (simp add: upd_conv_take_nth_drop)

lemma dec_two: "10 \<le> n \<Longrightarrow> n < 100 \<Longrightarrow> dec n = [48 + of_nat (n div 10), 48 + of_nat (n mod 10)]"
  by (simp add: dec_step dec_small)

lemma write_pair:
  assumes "n < 100" "1 \<le> unat (nxt :: u32)" "unat nxt < length dst"
  shows "do {
      d1 \<leftarrow> rd digits (n * 2 + 1);
      dst \<leftarrow> wr dst (unat nxt) d1;
      d0 \<leftarrow> rd digits (n * 2);
      wr dst (unat (nxt - 1)) d0
    } = Some (take (unat nxt - 1) dst @ [48 + of_nat (n div 10), 48 + of_nat (n mod 10)]
              @ drop (unat nxt + 1) dst)"
proof -
  have "unat (nxt - 1) = unat nxt - 1"
    using assms(2) by (simp add: unat_sub word_le_nat_alt)
  then show ?thesis
    using assms digits_entry [OF assms(1)] update_two [of "unat nxt - 1" dst]
    by (simp add: rd_def wr_def length_digits mult.commute)
qed

lemma ll2string_last_dec:
  assumes "unat nxt + 1 = k + length (dec (unat val))" "unat nxt < length dst" "val < 100"
  shows "ll2string_last dst nxt val =
    Some (take k dst @ dec (unat val) @ drop (unat nxt + 1) dst)"
proof (cases "val < 10")
  case True
  then have v: "unat val < 10" by (simp add: word_less_nat_alt)
  have "(ucast val :: byte) = of_nat (unat val)"
    by simp
  then show ?thesis
    using assms v by (simp add: ll2string_last_def True dec_small wr_def update_one)
next
  case False
  then have v: "10 \<le> unat val" "unat val < 100"
    using assms(3) by (simp_all add: word_less_nat_alt)
  then show ?thesis
    using assms write_pair [of "unat val" nxt dst] False
    by (simp add: ll2string_last_def dec_two)
qed

lemma ll2string_loop_dec:
  assumes "unat nxt + 1 = k + length (dec (unat val))" "unat nxt < length dst"
  shows "do {
      (dst, nxt, val) \<leftarrow> ll2string_loop dst nxt val;
      ll2string_last dst nxt val
    } = Some (take k dst @ dec (unat val) @ drop (unat nxt + 1) dst)"
  using assms
proof (induction "unat val" arbitrary: dst nxt val rule: less_induct)
  case less
  show ?case
  proof (cases "val \<ge> 100")
    case True
    define n where "n = unat val mod 100"
    define dst' where "dst' = take (unat nxt - 1) dst @
      [48 + of_nat (n div 10), 48 + of_nat (n mod 10)] @ drop (unat nxt + 1) dst"
    have v: "100 \<le> unat val" using True by (simp add: word_le_nat_alt)
    note d2 = dec_step2 [OF v]
    have l: "unat nxt = k + length (dec (unat val div 100)) + 1"
      using less.prems(1) d2 by simp
    have n2: "unat (nxt - 2) = unat nxt - 2" "unat (nxt - 1) = unat nxt - 1"
      using l length_dec_pos [of "unat val div 100"]
      by (simp_all add: unat_sub word_le_nat_alt del: length_greater_0_conv)
    have n: "unat (val mod 100) = n" "n < 100"
      by (simp_all add: n_def unat_mod)
    have step: "ll2string_loop dst nxt val = ll2string_loop dst' (nxt - 2) (val div 100)"
      using True l less.prems(2) n digits_entry [OF n(2)] update_two [of "unat nxt - 1" dst]
      by (subst ll2string_loop.simps)
        (simp add: rd_def wr_def length_digits mult.commute n2 dst'_def)
    have dst': "length dst' = length dst" "take k dst' = take k dst"
      "drop (unat nxt - 1) dst' =
        [48 + of_nat (n div 10), 48 + of_nat (n mod 10)] @ drop (unat nxt + 1) dst"
      using l less.prems(2) by (simp_all add: dst'_def)
    have "do {(dst, nxt, val) \<leftarrow> ll2string_loop dst' (nxt - 2) (val div 100);
              ll2string_last dst nxt val}
        = Some (take k dst' @ dec (unat (val div 100)) @ drop (unat (nxt - 2) + 1) dst')"
    proof (rule less.hyps)
      show "unat (val div 100) < unat val"
        using v by (simp add: unat_div)
      show "unat (nxt - 2) + 1 = k + length (dec (unat (val div 100)))"
        using l length_dec_pos [of "unat val div 100"] by (simp add: n2 unat_div)
      show "unat (nxt - 2) < length dst'"
        using less.prems(2) by (simp add: n2 dst')
    qed
    then show ?thesis
      using l dst' length_dec_pos [of "unat val div 100"] d2 n(2)
      by (simp add: step n2 unat_div n_def mod_mod_cancel)
  next
    case False
    then show ?thesis
      using ll2string_last_dec [of nxt k val dst] less.prems
      by (simp add: ll2string_loop.simps)
  qed
qed

text \<open>
  What \<open>ll2string\<close> does, on both branches of its length check.
\<close>

lemma ll2string_sdec:
  assumes "dstlen \<le> length dst"
  shows "ll2string dst dstlen v =
    (if dstlen \<le> length (sdec (sint v)) then Some (dst, 0)
     else Some (sdec (sint v) @ [0] @ drop (length (sdec (sint v)) + 1) dst,
                of_nat (length (sdec (sint v)))))"
proof -
  define m where "m = (if sint v < 0 then - v else v)"
  define k where "k = (if sint v < 0 then 1 else 0 :: nat)"
  define n where "n = length (dec (unat m))"
  have m: "unat m = nat \<bar>sint v\<bar>"
    by (auto simp: m_def unat_uminus_of_sint_neg unat_of_sint_nonneg)
  have s: "sdec (sint v) = (if sint v < 0 then [45] else []) @ dec (unat m)"
    by (simp add: sdec_def m)
  define len where "len = digits10 m + (if sint v < 0 then 1 else 0)"
  have d: "unat len = k + n"
    using digits10_length [of m] length_dec_u64 [of m]
    by (simp add: len_def k_def n_def unat_word_ariths)
  have len: "len = of_nat (k + n)"
    using arg_cong [OF d, of "of_nat :: nat \<Rightarrow> u32"] by simp
  have L: "length (sdec (sint v)) = k + n"
    by (simp add: s k_def n_def)
  have neg: "(if sint v < 0
         then (if v \<noteq> LLONG_MIN then - v else LLONG_MAX + 1, True)
         else (v, False)) = (m, sint v < 0)"
    by (simp add: m_def)
  show ?thesis
  proof (cases "dstlen \<le> k + n")
    case True
    then show ?thesis
      unfolding ll2string_def neg Let_def prod.case len_def [symmetric] by (simp add: d L)
  next
    case False
    have n1: "unat (len - 1) + 1 = k + n"
      using d unat_pred [of len] length_dec_pos [of "unat m"]
      by (simp add: n_def del: length_greater_0_conv)
    let ?dst = "dst[k + n := 0]"
    have bind: "do {
        (dst, nxt, val) \<leftarrow> ll2string_loop ?dst
           (len - 1) m;
        ll2string_last dst nxt val
      } = Some (take k ?dst @ dec (unat m) @ drop (k + n) ?dst)"
      using ll2string_loop_dec [of _ k m ?dst] n1 False assms by (simp add: n_def)
    then obtain d1 nxt1 val1 where loop: "ll2string_loop ?dst
        (len - 1) m = Some (d1, nxt1, val1)"
      and last: "ll2string_last d1 nxt1 val1 = Some (take k ?dst @ dec (unat m) @ drop (k + n) ?dst)"
      by (auto simp: bind_eq_Some_conv)
    have "drop (k + n) ?dst = 0 # drop (k + n + 1) dst"
      using False assms by (simp add: drop_update_cancel upd_conv_take_nth_drop)
    then show ?thesis
      unfolding ll2string_def neg Let_def prod.case len_def [symmetric]
      using False assms length_dec_pos [of "unat m"]
      by (simp add: d L wr_def loop last)
        (cases dst; auto simp: s k_def n_def len)
  qed
qed

section \<open>Parsing\<close>

abbreviation isdigit :: "byte \<Rightarrow> bool" where
  "isdigit c \<equiv> 48 \<le> c \<and> c \<le> 57"

definition undec :: "nat \<Rightarrow> byte list \<Rightarrow> nat" where
  "undec = foldl (\<lambda>a c. a * 10 + unat (c - 48))"

lemma undec_simps [simp]:
  "undec a [] = a"
  "undec a (c # p) = undec (a * 10 + unat (c - 48)) p"
  "undec a (p @ q) = undec (undec a p) q"
  by (simp_all add: undec_def)

lemma undec_ge: "a \<le> undec a p"
proof (induction p arbitrary: a)
  case (Cons c p)
  show ?case
    using Cons.IH [of "a * 10 + unat (c - 48)"] by simp
qed simp

lemma isdigit_unat: "isdigit c \<Longrightarrow> unat (c - 48) < 10"
  by (auto simp: unat_sub word_le_nat_alt)

lemma isdigit_restore: "isdigit c \<Longrightarrow> 48 + of_nat (unat (c - 48)) = c"
  by simp

lemma digit_isdigit: "d < 10 \<Longrightarrow> isdigit (48 + of_nat d)"
  by (simp add: word_le_nat_alt unat_word_ariths unat_of_nat)

lemma digit_unat: "d < 10 \<Longrightarrow> unat ((48 + of_nat d) - 48 :: byte) = d"
  by (simp add: unat_of_nat)

lemma dec_isdigit: "list_all isdigit (dec n)"
proof (induction n rule: dec.induct)
  case (1 n)
  then show ?case
    using digit_isdigit [of n] digit_isdigit [of "n mod 10"]
    by (cases "n < 10") (simp_all add: dec_small dec_step)
qed

lemma undec_dec: "undec 0 (dec n) = n"
proof (induction n rule: dec.induct)
  case (1 n)
  then show ?case
    using digit_unat [of n] digit_unat [of "n mod 10"]
    by (cases "n < 10") (simp_all add: dec_small dec_step)
qed

lemma hd_dec: "0 < n \<Longrightarrow> 49 \<le> hd (dec n)"
proof (induction n rule: dec.induct)
  case (1 n)
  then show ?case
    by (cases "n < 10") (auto simp: dec_small dec_step word_le_nat_alt unat_word_ariths unat_of_nat)
qed

lemma dec_undec: "s \<noteq> [] \<Longrightarrow> list_all isdigit s \<Longrightarrow> 49 \<le> hd s \<Longrightarrow>
    dec (undec 0 s) = s \<and> 0 < undec 0 s"
proof (induction s rule: rev_induct)
  case (snoc c s)
  then have c: "unat (c - 48) < 10" "48 + of_nat (unat (c - 48)) = c"
    using isdigit_unat [of c] by simp_all
  show ?case
  proof (cases "s = []")
    case True
    then show ?thesis
      using c snoc.prems by (auto simp: dec_small unat_gt_0)
  next
    case False
    then have "dec (undec 0 s) = s" "0 < undec 0 s"
      using snoc by simp_all
    then show ?thesis
      using c by (simp add: dec_step)
  qed
qed simp

lemma string2ll_loop_digits:
  "list_all isdigit p \<Longrightarrow> string2ll_loop p v =
     (if undec (unat v) p < 2 ^ 64 then Some ([], of_nat (undec (unat v) p)) else None)"
proof (induction p arbitrary: v)
  case Nil
  then show ?case using unsigned_less [of v, where ?'a = nat] by simp
next
  case (Cons c p)
  define d where "d = unat (c - 48)"
  have d: "d < 10" "unat (ucast (c - 48) :: u64) = d"
    using Cons.prems isdigit_unat [of c] by (simp_all add: d_def unat_ucast_up)
  have big: "v > ULLONG_MAX div 10 \<longleftrightarrow> 2 ^ 64 \<le> unat v * 10"
    by (simp add: word_less_nat_alt unat_div) arith
  show ?case
  proof (cases "2 ^ 64 \<le> unat v * 10 + d")
    case True
    then have "\<not> undec (unat v * 10 + d) p < 2 ^ 64"
      using undec_ge [of "unat v * 10 + d" p] by simp
    moreover have "v > ULLONG_MAX div 10 \<or> v * 10 > ULLONG_MAX - ucast (c - 48)"
    proof (cases "2 ^ 64 \<le> unat v * 10")
      case False
      then have "unat (v * 10) = unat v * 10" by (simp add: unat_word_ariths)
      then show ?thesis
        using True d by (simp add: word_less_nat_alt unat_sub word_le_nat_alt) arith
    qed (use big in simp)
    ultimately show ?thesis
      using Cons.prems by (auto simp flip: d_def)
  next
    case False
    then have m: "unat (v * 10) = unat v * 10" by (simp add: unat_word_ariths)
    then have a: "unat (v * 10 + ucast (c - 48)) = unat v * 10 + d"
      using False d by (simp add: unat_word_ariths)
    have "\<not> v > ULLONG_MAX div 10" "\<not> v * 10 > ULLONG_MAX - ucast (c - 48)"
      using False d m big by (simp_all add: word_less_nat_alt unat_sub word_le_nat_alt)
    then show ?thesis
      using Cons a by (simp flip: d_def)
  qed
qed

lemma string2ll_loop_nondigit:
  "\<not> list_all isdigit p \<Longrightarrow> string2ll_loop p v = Some (rest, v') \<Longrightarrow> rest \<noteq> []"
  by (induction p arbitrary: v) (auto split: if_splits)

lemma sint_u64_of_nat: "n < 2 ^ 63 \<Longrightarrow> sint (of_nat n :: u64) = int n"
  using sint_of_int_range [where 'a = 64, of "int n"] by simp

lemma sint_u64_minus_of_nat: "n \<le> 2 ^ 63 \<Longrightarrow> sint (- of_nat n :: u64) = - int n"
  using sint_of_int_range [where 'a = 64, of "- int n"] by simp

lemma string2ll_digits_iff:
  "string2ll_digits slen negative p = Some v \<longleftrightarrow>
     (\<exists>n > 0. p = dec n \<and>
        (if negative then n \<le> 2 ^ 63 \<and> v = - of_nat n else n < 2 ^ 63 \<and> v = of_nat n)) \<or>
     (p \<noteq> [] \<and> hd p = 48 \<and> slen = 1 \<and> v = 0)"
proof (cases "p \<noteq> [] \<and> 49 \<le> hd p \<and> hd p \<le> 57")
  case True
  then obtain c q where p: "p = c # q" and c: "49 \<le> c" "c \<le> 57" by (cases p) auto
  then have "isdigit c" by (auto simp: word_le_nat_alt)
  show ?thesis
  proof (cases "list_all isdigit q")
    case dig: True
    define n where "n = undec 0 p"
    have n: "0 < n" "dec n = p"
      using dec_undec [of p] dig \<open>isdigit c\<close> c by (simp_all add: p n_def)
    then have inj: "p = dec m \<longleftrightarrow> m = n" for m
      by (metis undec_dec)
    have "undec (unat (ucast (c - 48) :: u64)) q = n"
      by (simp add: n_def p unat_ucast_up)
    then have loop: "string2ll_loop q (ucast (c - 48)) =
        (if n < 2 ^ 64 then Some ([], of_nat n) else None)"
      using string2ll_loop_digits [OF dig, of "ucast (c - 48)"] by simp
    show ?thesis
      using c n inj loop
      by (auto simp: string2ll_digits_def p word_less_nat_alt unat_of_nat)
  next
    case False
    then have no: "p \<noteq> dec n" for n
      using dec_isdigit [of n] p by (metis list.pred_inject(2))
    show ?thesis
      using c no string2ll_loop_nondigit [OF False]
      by (auto simp: string2ll_digits_def p split: option.splits)
  qed
next
  case False
  then have "p \<noteq> dec n" if "0 < n" for n
    using hd_dec [OF that] dec_isdigit [of n] list.set_sel(1) [OF dec_nonempty [of n]]
    by (auto simp: list_all_iff)
  then show ?thesis
    using False by (cases p) (auto simp: string2ll_digits_def)
qed

lemma sdec_sint_iff:
  "s = sdec (sint (v :: u64)) \<longleftrightarrow>
     v = 0 \<and> s = [48] \<or>
     (\<exists>n > 0. n < 2 ^ 63 \<and> v = of_nat n \<and> s = dec n) \<or>
     (\<exists>n > 0. n \<le> 2 ^ 63 \<and> v = - of_nat n \<and> s = 45 # dec n)"
proof
  assume s: "s = sdec (sint v)"
  have v: "v = word_of_int (sint v)" by simp
  consider "sint v = 0" | "0 < sint v" | "sint v < 0" by linarith
  then show "v = 0 \<and> s = [48] \<or>
     (\<exists>n > 0. n < 2 ^ 63 \<and> v = of_nat n \<and> s = dec n) \<or>
     (\<exists>n > 0. n \<le> 2 ^ 63 \<and> v = - of_nat n \<and> s = 45 # dec n)"
  proof cases
    case 1
    then show ?thesis using s v by (simp add: sdec_def dec_small)
  next
    case 2
    then have "0 < nat (sint v) \<and> nat (sint v) < 2 ^ 63 \<and> v = of_nat (nat (sint v)) \<and>
        s = dec (nat (sint v))"
      using s sint_lt [of v] by (simp add: sdec_def)
    then show ?thesis by blast
  next
    case 3
    then have "0 < nat (- sint v) \<and> nat (- sint v) \<le> 2 ^ 63 \<and> v = - of_nat (nat (- sint v)) \<and>
        s = 45 # dec (nat (- sint v))"
      using s sint_ge [of v] by (simp add: sdec_def)
    then show ?thesis by blast
  qed
next
  assume "v = 0 \<and> s = [48] \<or>
     (\<exists>n > 0. n < 2 ^ 63 \<and> v = of_nat n \<and> s = dec n) \<or>
     (\<exists>n > 0. n \<le> 2 ^ 63 \<and> v = - of_nat n \<and> s = 45 # dec n)"
  then show "s = sdec (sint v)"
    by (auto simp: sdec_def dec_small sint_u64_of_nat sint_u64_minus_of_nat)
qed

lemma dec_not_minus: "dec n \<noteq> 45 # p"
  using dec_isdigit [of n] by auto

lemma string2ll_iff: "string2ll s = Some v \<longleftrightarrow> s = sdec (sint v)"
proof (cases s)
  case Nil
  then show ?thesis by (simp add: string2ll_def sdec_def dec_nonempty [symmetric])
next
  case (Cons c p)
  have zero: "dec n = [48] \<longleftrightarrow> n = 0" for n
    using undec_dec [of n] by (auto simp: dec_small)
  show ?thesis
    unfolding sdec_sint_iff
    using zero dec_not_minus
    by (auto simp: string2ll_def Cons string2ll_digits_iff eq_commute [of "_ # _" "dec _"])
qed

lemma length_sdec:
  fixes v :: u64
  shows "length (sdec (sint v)) \<le> 20" "sdec (sint v) \<noteq> []"
proof -
  have "nat \<bar>sint v\<bar> < 10 ^ 19"
    using sint_ge [of v] sint_lt [of v] by simp
  then have "length (dec (nat \<bar>sint v\<bar>)) \<le> 19"
    using length_dec_le [of "nat \<bar>sint v\<bar>" 18] by simp
  then show "length (sdec (sint v)) \<le> 20" "sdec (sint v) \<noteq> []"
    by (auto simp: sdec_def split: if_splits)
qed

section \<open>Properties\<close>

text \<open>C12: \<open>string2ll\<close> accepts exactly the canonical decimal spellings of the 64-bit signed
  integers, and returns the number spelled: no leading zero, no plus sign, no blanks, no value out
  of range.\<close>

theorem string2ll_canonical: "string2ll s = Some v \<longleftrightarrow> s = sdec (sint v)"
  by (rule string2ll_iff)

text \<open>C16: what \<open>ll2string\<close> writes into a large enough buffer is parsed back by \<open>string2ll\<close>
  to the same value, \<open>LLONG_MIN\<close> included, and is followed by a NUL; no access leaves the
  buffer.\<close>

theorem ll2string_roundtrip:
  assumes "dstlen \<le> length dst" "20 < dstlen"
  shows "\<exists>dst' len. ll2string dst dstlen v = Some (dst', len) \<and> 0 < len \<and>
    length dst' = length dst \<and> dst' ! unat len = 0 \<and> string2ll (take (unat len) dst') = Some v"
proof -
  let ?s = "sdec (sint v)"
  have "length ?s \<le> 20" "0 < length ?s"
    using length_sdec [of v] by simp_all
  moreover from this have "unat (of_nat (length ?s) :: u32) = length ?s"
    by (simp add: unat_of_nat)
  ultimately show ?thesis
    using assms string2ll_iff [of ?s v]
    by (simp add: ll2string_sdec nth_append word_less_nat_alt)
qed

theorem ll2string_roundtrip_witness:
  "\<exists>dst' len. ll2string (replicate 21 7) 21 LLONG_MIN = Some (dst', len) \<and> 0 < len \<and>
    length dst' = 21 \<and> dst' ! unat len = 0 \<and> string2ll (take (unat len) dst') = Some LLONG_MIN"
  using ll2string_roundtrip [of 21 "replicate 21 7" LLONG_MIN] by simp
end
