(* ===== verification/Intset.thy ===== *)
theory Intset
  imports Redis_Base
begin

text \<open>
  \<open>intset.c\<close>: the sorted array of integers that stores small sets of integers, as the byte
  array the code keeps. The record fields hold what \<open>intrev32ifbe\<close> reads; \<open>is_contents\<close> is the
  flexible array of little-endian elements. A value is an \<open>int64_t\<close>, a word read signed.
\<close>

section \<open>The code\<close>

record intset =
  is_encoding :: u32
  is_length :: u32
  is_contents :: "byte list"

abbreviation INTSET_ENC_INT16 :: u32 where "INTSET_ENC_INT16 \<equiv> 2"
abbreviation INTSET_ENC_INT32 :: u32 where "INTSET_ENC_INT32 \<equiv> 4"
abbreviation INTSET_ENC_INT64 :: u32 where "INTSET_ENC_INT64 \<equiv> 8"

definition p_intsetValueEncoding :: "u64 \<Rightarrow> u32" where
  "p_intsetValueEncoding v =
     (if sint v < - (2 ^ 31) \<or> sint v > 2 ^ 31 - 1 then INTSET_ENC_INT64
      else if sint v < - (2 ^ 15) \<or> sint v > 2 ^ 15 - 1 then INTSET_ENC_INT32
      else INTSET_ENC_INT16)"

definition p_intsetGetEncoded :: "intset \<Rightarrow> nat \<Rightarrow> u32 \<Rightarrow> u64 option" where
  "p_intsetGetEncoded is pos enc =
     (if enc = INTSET_ENC_INT64 then do {
        b \<leftarrow> memread (is_contents is) (pos * 8) 8;
        Some (of_nat (le_val b))
      } else if enc = INTSET_ENC_INT32 then do {
        b \<leftarrow> memread (is_contents is) (pos * 4) 4;
        Some (scast (of_nat (le_val b) :: u32))
      } else do {
        b \<leftarrow> memread (is_contents is) (pos * 2) 2;
        Some (scast (of_nat (le_val b) :: u16))
      })"

definition p_intsetGet :: "intset \<Rightarrow> nat \<Rightarrow> u64 option" where
  "p_intsetGet is pos = p_intsetGetEncoded is pos (is_encoding is)"

definition p_intsetSet :: "intset \<Rightarrow> nat \<Rightarrow> u64 \<Rightarrow> intset option" where
  "p_intsetSet is pos v =
     (if is_encoding is = INTSET_ENC_INT64 then do {
        c \<leftarrow> memwrite (is_contents is) (pos * 8) (le_bytes 8 (unat v));
        Some (is\<lparr>is_contents := c\<rparr>)
      } else if is_encoding is = INTSET_ENC_INT32 then do {
        c \<leftarrow> memwrite (is_contents is) (pos * 4) (le_bytes 4 (unat (ucast v :: u32)));
        Some (is\<lparr>is_contents := c\<rparr>)
      } else do {
        c \<leftarrow> memwrite (is_contents is) (pos * 2) (le_bytes 2 (unat (ucast v :: u16)));
        Some (is\<lparr>is_contents := c\<rparr>)
      })"

definition intsetNew :: intset where
  "intsetNew = \<lparr>is_encoding = INTSET_ENC_INT16, is_length = 0, is_contents = []\<rparr>"

definition intsetResize :: "(nat \<Rightarrow> byte) \<Rightarrow> intset \<Rightarrow> u32 \<Rightarrow> intset" where
  "intsetResize junk is len =
     (let size = len * is_encoding is
      in is\<lparr>is_contents := zrealloc junk (is_contents is) (unat size)\<rparr>)"

text \<open>
  The binary search. \<open>mn\<close>, \<open>mx\<close> and \<open>mid\<close> are C ints; as \<open>0 \<le> mn \<le> mx\<close> inside the loop,
  \<open>((unsigned int)mn + (unsigned int)mx) >> 1\<close> is the exact half of their sum. The result is
  \<open>(mn, mid, cur)\<close> when the loop ends.
\<close>

function intsetSearch_loop ::
  "intset \<Rightarrow> u64 \<Rightarrow> int \<Rightarrow> int \<Rightarrow> int \<Rightarrow> u64 \<Rightarrow> (int \<times> int \<times> u64) option" where
  "intsetSearch_loop is v mn mx mid cur =
     (if mx \<ge> mn then
        (let mid' = (mn + mx) div 2
         in case p_intsetGet is (nat mid') of
              None \<Rightarrow> None
            | Some cur' \<Rightarrow>
                if sint v > sint cur' then intsetSearch_loop is v (mid' + 1) mx mid' cur'
                else if sint v < sint cur' then intsetSearch_loop is v mn (mid' - 1) mid' cur'
                else Some (mn, mid', cur'))
      else Some (mn, mid, cur))"
  by pat_completeness auto
termination
  by (relation "measure (\<lambda>(is, v, mn, mx, mid, cur). nat (mx - mn + 1))") auto

declare intsetSearch_loop.simps [simp del]

text \<open>\<open>intsetSearch\<close> returns whether the value was found and what it stores in \<open>*pos\<close>.\<close>

definition intsetSearch :: "intset \<Rightarrow> u64 \<Rightarrow> (bool \<times> u32) option" where
  "intsetSearch is v =
     (if is_length is = 0 then Some (False, 0)
      else do {
        last \<leftarrow> p_intsetGet is (unat (is_length is - 1));
        if sint v > sint last then Some (False, is_length is)
        else do {
          first \<leftarrow> p_intsetGet is 0;
          if sint v < sint first then Some (False, 0)
          else do {
            (mn, mid, cur) \<leftarrow> intsetSearch_loop is v 0 (sint (is_length is - 1)) (-1) (-1);
            if v = cur then Some (True, word_of_int mid) else Some (False, word_of_int mn)
          }
        }
      })"

fun intsetUpgrade_loop :: "intset \<Rightarrow> nat \<Rightarrow> nat \<Rightarrow> u32 \<Rightarrow> intset option" where
  "intsetUpgrade_loop is 0 prepend curenc = Some is"
| "intsetUpgrade_loop is (Suc len) prepend curenc = do {
     v \<leftarrow> p_intsetGetEncoded is len curenc;
     is \<leftarrow> p_intsetSet is (len + prepend) v;
     intsetUpgrade_loop is len prepend curenc
   }"

definition intsetUpgradeAndAdd :: "(nat \<Rightarrow> byte) \<Rightarrow> intset \<Rightarrow> u64 \<Rightarrow> intset option" where
  "intsetUpgradeAndAdd junk is v =
     (let curenc = is_encoding is;
          newenc = p_intsetValueEncoding v;
          len = unat (is_length is);
          prepend = (if sint v < 0 then 1 else 0);
          is = is\<lparr>is_encoding := newenc\<rparr>;
          is = intsetResize junk is (is_length is + 1)
      in do {
        is \<leftarrow> intsetUpgrade_loop is len prepend curenc;
        is \<leftarrow> (if prepend = 1 then p_intsetSet is 0 v
              else p_intsetSet is (unat (is_length is)) v);
        Some (is\<lparr>is_length := is_length is + 1\<rparr>)
      })"

definition intsetMoveTail :: "intset \<Rightarrow> u32 \<Rightarrow> u32 \<Rightarrow> intset option" where
  "intsetMoveTail is from to =
     (let bytes = is_length is - from;
          sz = (if is_encoding is = INTSET_ENC_INT64 then 8
                else if is_encoding is = INTSET_ENC_INT32 then 4 else 2)
      in do {
        c \<leftarrow> memmove (is_contents is) (unat to * sz) (unat from * sz) (unat (bytes * of_nat sz));
        Some (is\<lparr>is_contents := c\<rparr>)
      })"

text \<open>\<open>intsetAdd\<close> gives the new intset and \<open>*success\<close>.\<close>

definition intsetAdd :: "(nat \<Rightarrow> byte) \<Rightarrow> intset \<Rightarrow> u64 \<Rightarrow> (intset \<times> bool) option" where
  "intsetAdd junk is v =
     (let valenc = p_intsetValueEncoding v
      in if valenc > is_encoding is then do {
           is \<leftarrow> intsetUpgradeAndAdd junk is v;
           Some (is, True)
         } else do {
           (found, pos) \<leftarrow> intsetSearch is v;
           if found then Some (is, False)
           else do {
             let is = intsetResize junk is (is_length is + 1);
             is \<leftarrow> (if pos < is_length is then intsetMoveTail is pos (pos + 1) else Some is);
             is \<leftarrow> p_intsetSet is (unat pos) v;
             Some (is\<lparr>is_length := is_length is + 1\<rparr>, True)
           }
         })"

definition intsetRemove :: "(nat \<Rightarrow> byte) \<Rightarrow> intset \<Rightarrow> u64 \<Rightarrow> (intset \<times> bool) option" where
  "intsetRemove junk is v =
     (let valenc = p_intsetValueEncoding v
      in if valenc \<le> is_encoding is then do {
           (found, pos) \<leftarrow> intsetSearch is v;
           if found then do {
             let len = is_length is;
             is \<leftarrow> (if pos < len - 1 then intsetMoveTail is (pos + 1) pos else Some is);
             let is = intsetResize junk is (len - 1);
             Some (is\<lparr>is_length := len - 1\<rparr>, True)
           } else Some (is, False)
         } else Some (is, False))"

definition intsetFind :: "intset \<Rightarrow> u64 \<Rightarrow> bool option" where
  "intsetFind is v =
     (if p_intsetValueEncoding v \<le> is_encoding is
      then map_option fst (intsetSearch is v) else Some False)"

text \<open>\<open>intsetRandom\<close> with the value \<open>r\<close> that \<open>rand()\<close> returns; \<open>% 0\<close> is undefined in C.\<close>

definition intsetRandom :: "intset \<Rightarrow> nat \<Rightarrow> u64 option" where
  "intsetRandom is r =
     (if is_length is = 0 then None else p_intsetGet is (r mod unat (is_length is)))"

definition intsetGet :: "intset \<Rightarrow> u32 \<Rightarrow> u64 option option" where
  "intsetGet is pos =
     (if pos < is_length is then map_option Some (p_intsetGet is (unat pos)) else Some None)"

definition intsetLen :: "intset \<Rightarrow> u32" where
  "intsetLen is = is_length is"

definition intsetBlobLen :: "intset \<Rightarrow> nat" where
  "intsetBlobLen is = 8 + unat (is_length is * is_encoding is)"

section \<open>Abstraction and invariant\<close>

text \<open>
  \<open>intset_elems\<close> is the list of integers stored, in array order. \<open>intset_ok\<close> is the
  invariant of the structure: a known encoding, an array of exactly the size the header says
  (a size that fits the \<open>uint32_t\<close> the code computes it in), and strictly increasing elements.
\<close>

definition intset_elems :: "intset \<Rightarrow> int list" where
  "intset_elems is = map (\<lambda>i. sint (the (p_intsetGet is i))) [0..<unat (is_length is)]"

definition intset_ok :: "intset \<Rightarrow> bool" where
  "intset_ok is \<longleftrightarrow>
     is_encoding is \<in> {INTSET_ENC_INT16, INTSET_ENC_INT32, INTSET_ENC_INT64} \<and>
     length (is_contents is) = unat (is_length is) * unat (is_encoding is) \<and>
     unat (is_length is) * unat (is_encoding is) < 2 ^ 32 \<and>
     sorted_wrt (<) (intset_elems is)"

section \<open>Byte layout\<close>

definition fits :: "nat \<Rightarrow> int \<Rightarrow> bool" where
  "fits e x \<longleftrightarrow> - (2 ^ (8 * e - 1)) \<le> x \<and> x < 2 ^ (8 * e - 1)"

definition enc_bytes :: "nat \<Rightarrow> int \<Rightarrow> byte list" where
  "enc_bytes e x = le_bytes e (nat (x mod 2 ^ (8 * e)))"

definition layout :: "nat \<Rightarrow> int list \<Rightarrow> byte list" where
  "layout e xs = concat (map (enc_bytes e) xs)"

lemma length_enc_bytes [simp]: "length (enc_bytes e x) = e"
  by (simp add: enc_bytes_def)

lemma layout_simps [simp]:
  "layout e [] = []"
  "layout e (x # xs) = enc_bytes e x @ layout e xs"
  "layout e (xs @ ys) = layout e xs @ layout e ys"
  by (simp_all add: layout_def)

lemma length_layout [simp]: "length (layout e xs) = length xs * e"
  by (induction xs) auto

lemma take_layout: "take (n * e) (layout e xs) = layout e (take n xs)"
proof (cases "n \<le> length xs")
  case True
  have "layout e xs = layout e (take n xs) @ layout e (drop n xs)"
    by (simp flip: layout_simps(3))
  then show ?thesis
    using True by (metis append_eq_conv_conj length_layout length_take min_absorb2)
qed simp

lemma drop_layout: "drop (n * e) (layout e xs) = layout e (drop n xs)"
proof (cases "n \<le> length xs")
  case True
  have "layout e xs = layout e (take n xs) @ layout e (drop n xs)"
    by (simp flip: layout_simps(3))
  then show ?thesis
    using True by (metis append_eq_conv_conj length_layout length_take min_absorb2)
qed simp

lemma le_val_enc_bytes: "le_val (enc_bytes e x) = nat (x mod 2 ^ (8 * e))"
proof -
  have "(256::nat) ^ e = 2 ^ (8 * e)"
    by (simp add: power_mult)
  moreover have "nat (x mod 2 ^ (8 * e)) < 2 ^ (8 * e)"
    by (simp add: nat_less_iff)
  ultimately show ?thesis
    by (simp add: enc_bytes_def le_val_le_bytes)
qed

lemma word_of_int_mods:
  "(word_of_int (x mod 65536) :: u16) = word_of_int x"
  "(word_of_int (x mod 4294967296) :: u32) = word_of_int x"
  "(word_of_int (x mod 18446744073709551616) :: u64) = word_of_int x"
  by (simp_all add: word_uint_eq_iff uint_word_of_int)

lemma scast_word_of_int:
  assumes "- (2 ^ (LENGTH('a) - 1)) \<le> x" "x < 2 ^ (LENGTH('a) - 1)"
  shows "(scast (word_of_int x :: 'a::len word) :: 'b::len word) = word_of_int x"
  using sint_of_int_range [OF assms] by (simp add: scast_eq)

lemma getEncoded_layout:
  assumes "take ((i + 1) * unat enc) (is_contents is) = layout (unat enc) (take (i + 1) xs)"
    and "i < length xs" "fits (unat enc) (xs ! i)"
    and "enc \<in> {INTSET_ENC_INT16, INTSET_ENC_INT32, INTSET_ENC_INT64}"
  shows "p_intsetGetEncoded is i enc = Some (word_of_int (xs ! i))"
proof -
  have "memread (is_contents is) (i * unat enc) (unat enc) = Some (enc_bytes (unat enc) (xs ! i))"
  proof -
    let ?e = "unat enc"
    have len: "(i + 1) * ?e \<le> length (is_contents is)"
      using arg_cong [OF assms(1), of length] assms(2) by (simp add: min_absorb2 Suc_le_eq)
    have "take ?e (drop (i * ?e) (is_contents is))
        = drop (i * ?e) (take ((i + 1) * ?e) (is_contents is))"
      by (simp add: drop_take)
    also have "\<dots> = layout ?e [xs ! i]"
      using assms(1,2) by (simp add: drop_layout take_Suc_conv_app_nth)
    finally show ?thesis
      using len by (simp add: memread_def)
  qed
  then show ?thesis
    using assms(3,4)
    by (auto simp: p_intsetGetEncoded_def le_val_enc_bytes word_of_int_mods fits_def
        scast_word_of_int)
qed

lemma unat_ucast_sint:
  assumes "LENGTH('b) \<le> LENGTH('a)"
  shows "unat (ucast (v :: 'a::len word) :: 'b::len word) = nat (sint v mod 2 ^ LENGTH('b))"
proof -
  have "uint (ucast v :: 'b word) = take_bit LENGTH('b) (uint v)"
    by (simp add: unsigned_ucast_eq)
  also have "uint v = take_bit LENGTH('a) (sint v)"
    by (rule uint_sint)
  also have "take_bit LENGTH('b) (take_bit LENGTH('a) (sint v)) = sint v mod 2 ^ LENGTH('b)"
    using assms by (simp add: min_absorb1 flip: take_bit_eq_mod)
  finally show ?thesis
    by (simp add: unat_eq_nat_uint)
qed

lemma set_layout:
  assumes "is_encoding is \<in> {INTSET_ENC_INT16, INTSET_ENC_INT32, INTSET_ENC_INT64}"
    and "(pos + 1) * unat (is_encoding is) \<le> length (is_contents is)"
  shows "p_intsetSet is pos v = Some (is\<lparr>is_contents :=
      take (pos * unat (is_encoding is)) (is_contents is) @
      enc_bytes (unat (is_encoding is)) (sint v) @
      drop ((pos + 1) * unat (is_encoding is)) (is_contents is)\<rparr>)"
proof -
  have w: "le_bytes 8 (unat v) = enc_bytes 8 (sint v)"
    "le_bytes 4 (unat (ucast v :: u32)) = enc_bytes 4 (sint v)"
    "le_bytes 2 (unat (ucast v :: u16)) = enc_bytes 2 (sint v)"
    using unat_ucast_sint [where 'b = 64, of v] unat_ucast_sint [where 'b = 32, of v]
      unat_ucast_sint [where 'b = 16, of v] by (simp_all add: enc_bytes_def)
  have m: "memwrite (is_contents is) (pos * e) (enc_bytes e (sint v)) =
      Some (take (pos * e) (is_contents is) @ enc_bytes e (sint v) @
        drop ((pos + 1) * e) (is_contents is))" if "unat (is_encoding is) = e" for e
    using assms(2) that by (simp add: memwrite_def add.commute)
  show ?thesis
    using assms(1) m [of 2] m [of 4] m [of 8] by (elim insertE) (simp_all add: p_intsetSet_def w)
qed

text \<open>Decoding \<open>e\<close> bytes, with sign extension to 64 bits.\<close>

definition dec_word :: "nat \<Rightarrow> byte list \<Rightarrow> u64" where
  "dec_word e b =
     (if e = 8 then of_nat (le_val b)
      else if e = 4 then scast (of_nat (le_val b) :: u32)
      else scast (of_nat (le_val b) :: u16))"

lemma sint_dec_word:
  assumes "e \<in> {2, 4, 8}"
  shows "sint (dec_word e b) =
    (if e = 8 then sint (of_nat (le_val b) :: u64)
     else if e = 4 then sint (of_nat (le_val b) :: u32) else sint (of_nat (le_val b) :: u16))"
  using assms by (auto simp: dec_word_def sint_up_scast is_up)

lemma fits_dec_word:
  assumes "e \<in> {2, 4, 8}"
  shows "fits e (sint (dec_word e b))"
  unfolding sint_dec_word [OF assms] fits_def
  using assms sint_ge [of "of_nat (le_val b) :: u64"] sint_lt [of "of_nat (le_val b) :: u64"]
    sint_ge [of "of_nat (le_val b) :: u32"] sint_lt [of "of_nat (le_val b) :: u32"]
    sint_ge [of "of_nat (le_val b) :: u16"] sint_lt [of "of_nat (le_val b) :: u16"]
  by auto

lemma nat_sint_mod:
  "nat (sint (w :: 'a::len word) mod 2 ^ LENGTH('a)) = unat w"
  by (simp add: unat_eq_nat_uint uint_sint [of w] take_bit_eq_mod)

lemma nat_sint_dec_word:
  assumes "e \<in> {2, 4, 8}" "n < 256 ^ e" "n = le_val b"
  shows "nat (sint (dec_word e b) mod 2 ^ (8 * e)) = n"
proof -
  consider "e = 2" | "e = 4" | "e = 8" using assms(1) by blast
  then show ?thesis
  proof cases
    case 1
    then show ?thesis
      using assms(2,3) nat_sint_mod [of "of_nat n :: u16"] unat_of_nat [where 'a = 16, of n]
      by (simp add: sint_dec_word)
  next
    case 2
    then show ?thesis
      using assms(2,3) nat_sint_mod [of "of_nat n :: u32"] unat_of_nat [where 'a = 32, of n]
      by (simp add: sint_dec_word)
  next
    case 3
    then show ?thesis
      using assms(2,3) nat_sint_mod [of "of_nat n :: u64"] unat_of_nat [where 'a = 64, of n]
      by (simp add: sint_dec_word)
  qed
qed

lemma enc_bytes_dec_word:
  assumes "e \<in> {2, 4, 8}" "length b = e"
  shows "enc_bytes e (sint (dec_word e b)) = b"
  using nat_sint_dec_word [OF assms(1) _ refl, of b] le_val_bound [of b] le_bytes_le_val [of b] assms(2)
  by (simp add: enc_bytes_def)

lemma layout_of_chunks:
  assumes "length c = n * e" "\<And>b. length b = e \<Longrightarrow> enc_bytes e (f b) = b"
  shows "layout e (map (\<lambda>i. f (take e (drop (i * e) c))) [0..<n]) = c"
  using assms(1)
proof (induction n arbitrary: c)
  case (Suc n)
  have eq: "map (\<lambda>i. f (take e (drop (i * e) c))) [0..<n] =
      map (\<lambda>i. f (take e (drop (i * e) (take (n * e) c)))) [0..<n]"
  proof (rule map_cong)
    fix i assume "i \<in> set [0..<n]"
    then have "i * e + e \<le> n * e"
      using mult_le_mono1 [of "Suc i" n e] by simp
    then show "f (take e (drop (i * e) c)) = f (take e (drop (i * e) (take (n * e) c)))"
      by (simp add: drop_take)
  qed simp
  have last: "enc_bytes e (f (take e (drop (n * e) c))) = drop (n * e) c"
    using assms(2) [of "take e (drop (n * e) c)"] Suc.prems by simp
  have "layout e (map (\<lambda>i. f (take e (drop (i * e) c))) [0..<n]) = take (n * e) c"
    unfolding eq by (rule Suc.IH) (simp add: Suc.prems)
  then show ?case
    using last by simp
qed simp

text \<open>What the invariant says of the bytes.\<close>

lemma intset_ok_layout:
  assumes "intset_ok is"
  shows "is_contents is = layout (unat (is_encoding is)) (intset_elems is)"
    and "length (intset_elems is) = unat (is_length is)"
    and "\<And>x. x \<in> set (intset_elems is) \<Longrightarrow> fits (unat (is_encoding is)) x"
    and "sorted_wrt (<) (intset_elems is)"
proof -
  let ?e = "unat (is_encoding is)" and ?c = "is_contents is" and ?n = "unat (is_length is)"
  from assms have enc: "is_encoding is \<in> {INTSET_ENC_INT16, INTSET_ENC_INT32, INTSET_ENC_INT64}"
    and len: "length ?c = ?n * ?e"
    and sorted: "sorted_wrt (<) (intset_elems is)"
    by (simp_all add: intset_ok_def)
  have get: "p_intsetGet is i = Some (dec_word ?e (take ?e (drop (i * ?e) ?c)))" if "i < ?n" for i
  proof -
    have "i * ?e + ?e \<le> length ?c"
      using that mult_le_mono1 [of "Suc i" ?n ?e] by (simp add: len)
    then show ?thesis
      using enc by (auto simp: p_intsetGet_def p_intsetGetEncoded_def memread_def dec_word_def)
  qed
  then have elems: "intset_elems is = map (\<lambda>i. sint (dec_word ?e (take ?e (drop (i * ?e) ?c)))) [0..<?n]"
    by (simp add: intset_elems_def)
  show "is_contents is = layout ?e (intset_elems is)"
    unfolding elems using enc len
    by (intro layout_of_chunks [symmetric]) (auto intro: enc_bytes_dec_word)
  show "length (intset_elems is) = ?n"
    by (simp add: intset_elems_def)
  show "fits ?e x" if "x \<in> set (intset_elems is)" for x
    using that enc by (auto simp: elems intro!: fits_dec_word)
  show "sorted_wrt (<) (intset_elems is)"
    by (rule sorted)
qed

lemma intset_okI:
  assumes "is_encoding is \<in> {INTSET_ENC_INT16, INTSET_ENC_INT32, INTSET_ENC_INT64}"
    and "is_contents is = layout (unat (is_encoding is)) xs"
    and "unat (is_length is) = length xs"
    and "length xs * unat (is_encoding is) < 2 ^ 32"
    and "\<And>x. x \<in> set xs \<Longrightarrow> fits (unat (is_encoding is)) x"
    and "sorted_wrt (<) xs"
  shows "intset_ok is" "intset_elems is = xs"
proof -
  have get: "p_intsetGet is i = Some (word_of_int (xs ! i))" if "i < length xs" for i
    using getEncoded_layout [of i "is_encoding is" "is" xs] assms(1,2,5) that
      take_layout [of "i + 1" "unat (is_encoding is)" xs]
    by (auto simp: p_intsetGet_def)
  have "sint (word_of_int (xs ! i) :: u64) = xs ! i" if "i < length xs" for i
  proof (rule sint_of_int_range)
    have "fits (unat (is_encoding is)) (xs ! i)"
      using assms(5) that by simp
    then show "- (2 ^ (LENGTH(64) - 1)) \<le> xs ! i" "xs ! i < 2 ^ (LENGTH(64) - 1)"
      using assms(1) by (auto simp: fits_def)
  qed
  then show "intset_elems is = xs"
    using get assms(3) by (auto simp: intset_elems_def intro!: nth_equalityI)
  then show "intset_ok is"
    using assms by (simp add: intset_ok_def)
qed

lemma intset_ok_get:
  assumes "intset_ok is" "i < unat (is_length is)"
  shows "p_intsetGet is i = Some (word_of_int (intset_elems is ! i))"
    and "sint (word_of_int (intset_elems is ! i) :: u64) = intset_elems is ! i"
proof -
  note l = intset_ok_layout [OF assms(1)]
  have f: "fits (unat (is_encoding is)) (intset_elems is ! i)"
    using l(2,3) assms(2) by simp
  have enc: "is_encoding is \<in> {INTSET_ENC_INT16, INTSET_ENC_INT32, INTSET_ENC_INT64}"
    using assms(1) by (simp add: intset_ok_def)
  show "p_intsetGet is i = Some (word_of_int (intset_elems is ! i))"
    unfolding p_intsetGet_def
    by (rule getEncoded_layout [OF _ _ f enc])
      (use l(1,2) assms(2) take_layout [of "i + 1"] in simp_all)
  show "sint (word_of_int (intset_elems is ! i) :: u64) = intset_elems is ! i"
    by (rule sint_of_int_range) (use f enc in \<open>auto simp: fits_def\<close>)
qed

section \<open>Search\<close>

text \<open>The insertion point of \<open>x\<close> in a strictly increasing list.\<close>

definition ipos :: "int \<Rightarrow> int list \<Rightarrow> nat" where
  "ipos x xs = length (takeWhile (\<lambda>y. y < x) xs)"

lemma ipos_eqI:
  assumes "p \<le> length xs" "\<And>i. i < p \<Longrightarrow> xs ! i < x" "p < length xs \<Longrightarrow> x \<le> xs ! p"
  shows "ipos x xs = p"
proof -
  have "takeWhile (\<lambda>y. y < x) xs = take p xs"
    by (rule takeWhile_eq_take_P_nth) (use assms in \<open>auto simp: not_less\<close>)
  then show ?thesis
    using assms(1) by (simp add: ipos_def)
qed

lemma strict_less: "sorted_wrt (<) xs \<Longrightarrow> i < j \<Longrightarrow> j < length xs \<Longrightarrow> xs ! i < (xs ! j :: int)"
  by (rule sorted_wrt_nth_less)

lemma ipos_props:
  assumes "sorted_wrt (<) xs"
  shows "ipos x xs \<le> length xs"
    and "\<forall>y \<in> set (take (ipos x xs) xs). y < x"
    and "\<forall>y \<in> set (drop (ipos x xs) xs). x \<le> y"
    and "x \<in> set xs \<longleftrightarrow> ipos x xs < length xs \<and> xs ! ipos x xs = x"
proof -
  show "ipos x xs \<le> length xs"
    by (simp add: ipos_def length_takeWhile_le)
  have t: "take (ipos x xs) xs = takeWhile (\<lambda>y. y < x) xs"
    and d: "drop (ipos x xs) xs = dropWhile (\<lambda>y. y < x) xs"
    by (simp_all only: ipos_def takeWhile_eq_take [symmetric] dropWhile_eq_drop [symmetric])
  show "\<forall>y \<in> set (take (ipos x xs) xs). y < x"
    by (auto simp: t dest: set_takeWhileD)
  have sd: "sorted_wrt (<) (drop (ipos x xs) xs)"
    using assms by (rule sorted_wrt_drop)
  show ge: "\<forall>y \<in> set (drop (ipos x xs) xs). x \<le> y"
  proof (cases "drop (ipos x xs) xs")
    case (Cons z zs)
    then have "x \<le> z"
      using hd_dropWhile [of "\<lambda>y. y < x" xs] d by simp
    then show ?thesis
      using sd Cons by auto
  qed simp
  show "x \<in> set xs \<longleftrightarrow> ipos x xs < length xs \<and> xs ! ipos x xs = x"
  proof
    assume "x \<in> set xs"
    moreover have "set xs = set (take (ipos x xs) xs) \<union> set (drop (ipos x xs) xs)"
      by (simp flip: set_append)
    ultimately have "x \<in> set (drop (ipos x xs) xs)"
      using \<open>\<forall>y \<in> set (take (ipos x xs) xs). y < x\<close> by auto
    then obtain z zs where z: "drop (ipos x xs) xs = z # zs" by (cases "drop (ipos x xs) xs") auto
    have "x \<le> z" "\<forall>y \<in> set zs. z < y"
      using ge sd z by auto
    then have "z = x"
      using \<open>x \<in> set (drop (ipos x xs) xs)\<close> z by auto
    moreover have "ipos x xs < length xs"
      using z by (cases "ipos x xs < length xs") simp_all
    ultimately show "ipos x xs < length xs \<and> xs ! ipos x xs = x"
      using z Cons_nth_drop_Suc [of "ipos x xs" xs] by simp
  next
    assume "ipos x xs < length xs \<and> xs ! ipos x xs = x"
    then show "x \<in> set xs"
      using nth_mem [of "ipos x xs" xs] by simp
  qed
qed

lemma intsetSearch_loop_correct:
  assumes ok: "intset_ok is" and n: "n = int (unat (is_length is))" and xs: "xs = intset_elems is"
    and x: "x = sint v"
  shows "0 \<le> mn \<Longrightarrow> mx < n \<Longrightarrow> mn \<le> mx + 1 \<Longrightarrow>
    (\<And>i. i < nat mn \<Longrightarrow> xs ! i < x) \<Longrightarrow>
    (\<And>i. mx < int i \<Longrightarrow> int i < n \<Longrightarrow> x < xs ! i) \<Longrightarrow> (mn \<le> mx \<or> v \<noteq> cur) \<Longrightarrow>
    \<exists>mn' mid' cur'. intsetSearch_loop is v mn mx mid cur = Some (mn', mid', cur') \<and>
      (if v = cur' then mid' = int (ipos x xs) \<and> x \<in> set xs
       else mn' = int (ipos x xs) \<and> x \<notin> set xs)"
proof (induction "nat (mx - mn + 1)" arbitrary: mn mx mid cur rule: less_induct)
  case less
  have len: "length xs = nat n" "sorted_wrt (<) xs"
    using intset_ok_layout(2,4) [OF ok] by (simp_all add: n xs)
  show ?case
  proof (cases "mn \<le> mx")
    case False
    then have mn: "mn = mx + 1" using less.prems(3) by simp
    have p: "ipos x xs = nat mn"
      using less.prems(1,2,4,5) mn len(1) by (intro ipos_eqI) (auto simp: less_imp_le)
    have "x \<notin> set xs"
      using ipos_props(4) [OF len(2), of x] less.prems(5) [of "nat mn"] less.prems(1,2) mn p len(1)
      by auto
    then show ?thesis
      using False less.prems(1,6) p by (subst intsetSearch_loop.simps) simp
  next
    case True
    define mid' where "mid' = (mn + mx) div 2"
    have mid: "mn \<le> mid'" "mid' \<le> mx" "0 \<le> mid'" "nat mid' < length xs"
      using True less.prems(1,2) len(1) by (auto simp: mid'_def)
    define cur' where "cur' = (word_of_int (xs ! nat mid') :: u64)"
    have get: "p_intsetGet is (nat mid') = Some cur'" and cur: "sint cur' = xs ! nat mid'"
      using intset_ok_get [OF ok, of "nat mid'"] mid(4) len(1) by (simp_all add: cur'_def xs n)
    have step: "intsetSearch_loop is v mn mx mid cur =
      (if x > sint cur' then intsetSearch_loop is v (mid' + 1) mx mid' cur'
       else if x < sint cur' then intsetSearch_loop is v mn (mid' - 1) mid' cur'
       else Some (mn, mid', cur'))"
      using True get by (subst intsetSearch_loop.simps) (simp add: mid'_def x Let_def)
    consider "x > sint cur'" | "x < sint cur'" | "x = sint cur'" by linarith
    then show ?thesis
    proof cases
      case 1
      have lo: "xs ! i < x" if "i < nat (mid' + 1)" for i
      proof (cases "i = nat mid'")
        case False
        then have "xs ! i < xs ! nat mid'"
          using that mid len(2) by (intro strict_less) auto
        then show ?thesis using 1 cur by simp
      qed (use 1 cur in simp)
      show ?thesis
        unfolding step if_P [OF 1]
        by (rule less.hyps) (use 1 lo mid less.prems x in auto)
    next
      case 2
      have hi: "x < xs ! i" if "mid' - 1 < int i" "int i < n" for i
      proof (cases "i = nat mid'")
        case False
        then have "xs ! nat mid' < xs ! i"
          using that mid len by (intro strict_less) auto
        then show ?thesis using 2 cur by simp
      qed (use 2 cur in simp)
      have "\<not> x > sint cur'" using 2 by simp
      then show ?thesis
        unfolding step if_not_P [OF \<open>\<not> x > sint cur'\<close>] if_P [OF 2]
        by (intro less.hyps) (use 2 hi mid less.prems x in auto)
    next
      case 3
      have "ipos x xs = nat mid'"
        using mid len(2) 3 cur by (intro ipos_eqI) (auto intro: strict_less)
      moreover have "x \<in> set xs"
        using mid(4) 3 cur by simp
      moreover have "v = cur'"
        using arg_cong [OF 3, of "word_of_int :: int \<Rightarrow> u64"] x by simp
      ultimately show ?thesis
        unfolding step using 3 mid(3) by simp
    qed
  qed
qed

lemma intset_ok_bounds:
  assumes "intset_ok is"
  shows "is_encoding is \<in> {INTSET_ENC_INT16, INTSET_ENC_INT32, INTSET_ENC_INT64}"
    and "unat (is_length is) < 2 ^ 31"
    and "unat (is_length is) * unat (is_encoding is) < 2 ^ 32"
  using assms by (auto simp: intset_ok_def)

lemma sint_pred:
  fixes w :: u32
  assumes "0 < unat w" "unat w < 2 ^ 31"
  shows "sint (w - 1) = int (unat w) - 1"
proof -
  define k where "k = unat w - 1"
  have k: "int k = int (unat w) - 1" "k < 2 ^ 31"
    using assms by (simp_all only: k_def)
  have "w - 1 = word_of_int (int k)"
    using unat_pred [OF assms(1)] by (metis k_def of_int_of_nat_eq of_nat_unat ucast_id)
  then show ?thesis
    using sint_of_int_range [where 'a = 32, of "int k"] k by simp
qed

lemma intsetSearch_correct:
  assumes "intset_ok is"
  shows "intsetSearch is v =
    Some (sint v \<in> set (intset_elems is), of_nat (ipos (sint v) (intset_elems is)))"
proof (cases "is_length is = 0")
  case True
  then show ?thesis
    by (simp add: intsetSearch_def intset_elems_def ipos_def)
next
  case False
  let ?xs = "intset_elems is" and ?x = "sint v" and ?n = "unat (is_length is)"
  have n: "0 < ?n" "?n < 2 ^ 31" "length ?xs = ?n" "sorted_wrt (<) ?xs"
    using False intset_ok_bounds(2) [OF assms] intset_ok_layout(2,4) [OF assms]
    by (simp_all add: unat_gt_0)
  have last: "unat (is_length is - 1) = ?n - 1"
    using n(1) by (rule unat_pred)
  have get: "p_intsetGet is i = Some (word_of_int (?xs ! i))"
    "sint (word_of_int (?xs ! i) :: u64) = ?xs ! i" if "i < ?n" for i
    using intset_ok_get [OF assms that] by simp_all
  have ends: "p_intsetGet is 0 = Some (word_of_int (?xs ! 0))"
    "p_intsetGet is (unat (is_length is - 1)) = Some (word_of_int (?xs ! (?n - Suc 0)))"
    "sint (word_of_int (?xs ! 0) :: u64) = ?xs ! 0"
    "sint (word_of_int (?xs ! (?n - Suc 0)) :: u64) = ?xs ! (?n - Suc 0)"
    using get [of 0] get [of "?n - 1"] n(1) last by simp_all
  have lt: "?xs ! i < ?xs ! j" if "i < j" "j < ?n" for i j
    using strict_less [OF n(4) that(1)] that(2) n(3) by simp
  consider (gt) "?x > ?xs ! (?n - 1)" | (less) "?x < ?xs ! 0" "\<not> ?x > ?xs ! (?n - 1)"
    | (mid) "\<not> ?x > ?xs ! (?n - 1)" "\<not> ?x < ?xs ! 0" by blast
  then show ?thesis
  proof cases
    case gt
    have "\<forall>y \<in> set ?xs. y < ?x"
    proof
      fix y assume "y \<in> set ?xs"
      then obtain i where "i < ?n" "y = ?xs ! i" by (auto simp: in_set_conv_nth n(3))
      moreover from this have "i = ?n - 1 \<or> i < ?n - 1" by linarith
      ultimately show "y < ?x"
        using gt lt [of i "?n - 1"] n(1) by auto
    qed
    then have "ipos ?x ?xs = ?n" "?x \<notin> set ?xs"
      using n(3) by (auto simp: ipos_def takeWhile_eq_all_conv [THEN iffD2])
    then show ?thesis
      using False gt by (simp add: intsetSearch_def ends)
  next
    case less
    then have "ipos ?x ?xs = 0"
      by (intro ipos_eqI) auto
    moreover from this have "?x \<notin> set ?xs"
      using ipos_props(4) [OF n(4), of ?x] less by auto
    ultimately have "ipos ?x ?xs = 0" "?x \<notin> set ?xs" by simp_all
    then show ?thesis
      using False less by (simp add: intsetSearch_def ends)
  next
    case mid
    have sl: "sint (is_length is - 1) = int ?n - 1"
      using n(1,2) by (rule sint_pred)
    have "0 < int ?n" using n(1) by linarith
    then obtain mn' mid' cur' where
      loop: "intsetSearch_loop is v 0 (sint (is_length is - 1)) (-1) (-1) = Some (mn', mid', cur')"
      and res: "if v = cur' then mid' = int (ipos ?x ?xs) \<and> ?x \<in> set ?xs
        else mn' = int (ipos ?x ?xs) \<and> ?x \<notin> set ?xs"
      using intsetSearch_loop_correct [OF assms refl refl refl, of 0 "int ?n - 1" v "-1" "-1"]
      unfolding sl by auto
    then show ?thesis
      using False mid by (cases "v = cur'") (simp_all add: intsetSearch_def ends loop)
  qed
qed

lemma intsetMoveTail_eq:
  assumes enc: "is_encoding is \<in> {INTSET_ENC_INT16, INTSET_ENC_INT32, INTSET_ENC_INT64}"
    and e: "e = unat (is_encoding is)" and n: "n = unat (is_length is)"
    and src: "unat fr \<le> n" and size: "n * e < 2 ^ 32"
    and fits: "n * e \<le> length (is_contents is)"
      "(unat to + (n - unat fr)) * e \<le> length (is_contents is)"
  shows "intsetMoveTail is fr to = Some (is\<lparr>is_contents :=
      take (unat to * e) (is_contents is) @
      take ((n - unat fr) * e) (drop (unat fr * e) (is_contents is)) @
      drop ((unat to + (n - unat fr)) * e) (is_contents is)\<rparr>)"
proof -
  have b: "unat ((is_length is - fr) * is_encoding is) = (n - unat fr) * e"
  proof -
    have "(n - unat fr) * e \<le> n * e" by simp
    then have "(n - unat fr) * e < 2 ^ 32" using size by linarith
    then show ?thesis
      using src by (simp add: unat_word_ariths unat_sub word_le_nat_alt n e)
  qed
  have sz: "(if is_encoding is = INTSET_ENC_INT64 then 8
             else if is_encoding is = INTSET_ENC_INT32 then 4 else 2) = e"
    and enc_e: "of_nat e = is_encoding is"
    using enc e by auto
  have "unat fr * e + (n - unat fr) * e = n * e"
    using src by (simp flip: add_mult_distrib)
  then show ?thesis
    unfolding intsetMoveTail_def Let_def sz enc_e b memmove_def
    using fits by (simp add: memread_def memwrite_def add_mult_distrib min_absorb2)
qed

section \<open>Insertion and removal\<close>

lemma upgrade_loop:
  assumes enc: "is_encoding is \<in> {INTSET_ENC_INT16, INTSET_ENC_INT32, INTSET_ENC_INT64}"
    and cur: "curenc \<in> {INTSET_ENC_INT16, INTSET_ENC_INT32, INTSET_ENC_INT64}"
    and le: "unat curenc \<le> unat (is_encoding is)"
    and k: "k \<le> length xs" and f: "\<And>x. x \<in> set xs \<Longrightarrow> fits (unat curenc) x"
    and old: "take (k * unat curenc) (is_contents is) = layout (unat curenc) (take k xs)"
    and room: "(k + prepend) * unat (is_encoding is) \<le> length (is_contents is)"
  shows "intsetUpgrade_loop is k prepend curenc = Some (is\<lparr>is_contents :=
      take (prepend * unat (is_encoding is)) (is_contents is) @
      layout (unat (is_encoding is)) (take k xs) @
      drop ((k + prepend) * unat (is_encoding is)) (is_contents is)\<rparr>)"
  using enc le k old room
proof (induction k arbitrary: "is")
  case (Suc k)
  let ?e = "unat (is_encoding is)" and ?c = "is_contents is" and ?ce = "unat curenc"
  define c' where "c' = take ((k + prepend) * ?e) ?c @ enc_bytes ?e (xs ! k) @
    drop ((k + prepend + 1) * ?e) ?c"
  have k: "k < length xs" using Suc.prems(3) by simp
  have fk: "fits ?ce (xs ! k)" using f k by simp
  have get: "p_intsetGetEncoded is k curenc = Some (word_of_int (xs ! k))"
    by (rule getEncoded_layout [OF _ k fk cur]) (use Suc.prems(4) in simp)
  have sint: "sint (word_of_int (xs ! k) :: u64) = xs ! k"
    by (rule sint_of_int_range) (use fk cur in \<open>auto simp: fits_def\<close>)
  have set: "p_intsetSet is (k + prepend) (word_of_int (xs ! k)) = Some (is\<lparr>is_contents := c'\<rparr>)"
    using set_layout [OF Suc.prems(1), of "k + prepend" "word_of_int (xs ! k)"] Suc.prems(5) sint
    by (simp add: c'_def add.assoc)
  have room: "(k + prepend) * ?e \<le> length ?c" "(k + prepend) * ?e + ?e \<le> length ?c"
    using Suc.prems(5) by (simp_all add: add.assoc add.commute)
  have "k * ?ce \<le> (k + prepend) * ?e"
    using Suc.prems(2) by (simp add: mult_le_mono)
  then have "take (k * ?ce) c' = take (k * ?ce) (take (Suc k * ?ce) ?c)"
    using room(1) by (simp add: c'_def)
  then have old': "take (k * ?ce) c' = layout ?ce (take k xs)"
    unfolding Suc.prems(4) take_layout by simp
  have c': "take (prepend * ?e) c' = take (prepend * ?e) ?c"
    "drop ((k + prepend) * ?e) c' = enc_bytes ?e (xs ! k) @ drop ((k + prepend + 1) * ?e) ?c"
    "length c' = length ?c"
    using room by (simp_all add: c'_def add_mult_distrib)
  have "intsetUpgrade_loop (is\<lparr>is_contents := c'\<rparr>) k prepend curenc =
      Some (is\<lparr>is_contents := take (prepend * ?e) c' @ layout ?e (take k xs) @
        drop ((k + prepend) * ?e) c'\<rparr>)"
    using Suc.IH [of "is\<lparr>is_contents := c'\<rparr>"] Suc.prems(1,2) k old' room c'(3) by simp
  then show ?case
    using c' k by (simp add: get set take_Suc_conv_app_nth add.assoc)
qed simp

lemma valueEncoding_cases:
  "p_intsetValueEncoding v \<in> {INTSET_ENC_INT16, INTSET_ENC_INT32, INTSET_ENC_INT64}"
  by (simp add: p_intsetValueEncoding_def)

lemma valueEncoding_fits:
  assumes "enc \<in> {INTSET_ENC_INT16, INTSET_ENC_INT32, INTSET_ENC_INT64}"
  shows "fits (unat enc) (sint v) \<longleftrightarrow> p_intsetValueEncoding v \<le> enc"
  using assms sint_ge [of v] sint_lt [of v]
  by (auto simp: fits_def p_intsetValueEncoding_def)

lemma fits_mono:
  assumes "fits d x" "d \<in> {2, 4, 8}" "e \<in> {2, 4, 8}" "d \<le> e"
  shows "fits e x"
  using assms by (auto simp: fits_def)

lemma fits_outside:
  assumes "\<not> fits e x" "fits e y"
  shows "x < 0 \<Longrightarrow> x < y" "\<not> x < 0 \<Longrightarrow> y < x"
  using assms by (auto simp: fits_def not_less intro: order_less_le_trans)

lemma unat_length_succ:
  assumes "unat (is_length is) < 2 ^ 29 - 1" "unat enc \<le> 8"
  shows "unat (is_length is + 1) = unat (is_length is) + 1"
    and "unat ((is_length is + 1) * enc) = (unat (is_length is) + 1) * unat enc"
    and "(unat (is_length is) + 1) * unat enc < 2 ^ 32"
proof -
  show l: "unat (is_length is + 1) = unat (is_length is) + 1"
    using assms(1) by (simp add: unat_word_ariths)
  have "(unat (is_length is) + 1) * unat enc \<le> (2 ^ 29 - 1) * 8"
    using assms by (intro mult_le_mono) auto
  then show b: "(unat (is_length is) + 1) * unat enc < 2 ^ 32"
    by simp
  then show "unat ((is_length is + 1) * enc) = (unat (is_length is) + 1) * unat enc"
    using l unat_word_ariths(2) [of "is_length is + 1" enc] by simp
qed

lemma intsetUpgradeAndAdd_correct:
  assumes ok: "intset_ok is" and room: "unat (is_length is) < 2 ^ 29 - 1"
    and up: "p_intsetValueEncoding v > is_encoding is"
  shows "\<exists>is'. intsetUpgradeAndAdd junk is v = Some is' \<and> intset_ok is' \<and>
    is_encoding is' = p_intsetValueEncoding v \<and>
    intset_elems is' = (if sint v < 0 then sint v # intset_elems is else intset_elems is @ [sint v])"
proof -
  let ?xs = "intset_elems is" and ?x = "sint v" and ?n = "unat (is_length is)"
  let ?enc = "p_intsetValueEncoding v"
  let ?e = "unat (is_encoding is)" and ?e' = "unat ?enc"
  define p where "p = (if ?x < 0 then 1 else 0 :: nat)"
  note l = intset_ok_layout [OF ok] and b = intset_ok_bounds [OF ok]
  have enc: "?enc \<in> {INTSET_ENC_INT16, INTSET_ENC_INT32, INTSET_ENC_INT64}" "?e' \<le> 8" "?e \<le> ?e'"
    using valueEncoding_cases [of v] up by (auto simp: word_less_nat_alt)
  note succ = unat_length_succ [OF room enc(2)]
  define c where "c = zrealloc junk (is_contents is) ((?n + 1) * ?e')"
  define is2 where "is2 = is\<lparr>is_encoding := ?enc, is_contents := c\<rparr>"
  have is2: "intsetResize junk (is\<lparr>is_encoding := ?enc\<rparr>) (is_length is + 1) = is2"
    by (simp add: intsetResize_def is2_def c_def succ(2))
  have len_c: "length c = (?n + 1) * ?e'"
    by (simp add: c_def)
  have "?n * ?e \<le> (?n + 1) * ?e'"
    using enc(3) by (intro mult_le_mono) auto
  then have old: "take (?n * ?e) c = layout ?e (take ?n ?xs)"
    using l(1,2) by (simp add: c_def take_zrealloc)
  have loop: "intsetUpgrade_loop is2 ?n p (is_encoding is) = Some (is2\<lparr>is_contents :=
      take (p * ?e') c @ layout ?e' ?xs @ drop ((?n + p) * ?e') c\<rparr>)"
    using upgrade_loop [of is2 "is_encoding is" ?n ?xs p] enc b(1) l(2,3) old
    by (simp add: is2_def len_c p_def)
  define is' where "is' = is\<lparr>is_encoding := ?enc, is_length := is_length is + 1,
      is_contents := layout ?e' (if ?x < 0 then ?x # ?xs else ?xs @ [?x])\<rparr>"
  define is3 where "is3 = is2\<lparr>is_contents :=
      take (p * ?e') c @ layout ?e' ?xs @ drop ((?n + p) * ?e') c\<rparr>"
  have loop': "intsetUpgrade_loop is2 ?n p (is_encoding is) = Some is3"
    and len3: "is_length is3 = is_length is"
    using loop by (simp_all add: is3_def is2_def)
  have set: "p_intsetSet is3 (if p = 1 then 0 else ?n) v =
      Some (is2\<lparr>is_contents := layout ?e' (if ?x < 0 then ?x # ?xs else ?xs @ [?x])\<rparr>)"
    using set_layout [of is3 "if p = 1 then 0 else ?n" v] enc(1) l(2)
    by (simp add: is3_def is2_def len_c p_def)
  have "intsetUpgradeAndAdd junk is v = Some is'"
    using set loop' len3
    by (cases "?x < 0") (simp_all add: intsetUpgradeAndAdd_def Let_def is2 p_def,
        simp_all add: is2_def is'_def)
  moreover have "intset_ok is'" "intset_elems is' = (if ?x < 0 then ?x # ?xs else ?xs @ [?x])"
  proof -
    have fx: "fits ?e' ?x" "\<not> fits ?e ?x"
      using valueEncoding_fits [OF enc(1), of v] valueEncoding_fits [OF b(1), of v] up by simp_all
    have fy: "fits ?e' y" if "y \<in> set ?xs" for y
      by (rule fits_mono [OF l(3) [OF that]]) (use b(1) enc in auto)
    let ?ys = "if ?x < 0 then ?x # ?xs else ?xs @ [?x]"
    have sorted: "sorted_wrt (<) ?ys"
      using l(4) fits_outside [OF fx(2) l(3)] by (auto simp: sorted_wrt_append)
    have len: "length ?ys = ?n + 1"
      using l(2) by simp
    have fys: "fits ?e' y" if "y \<in> set ?ys" for y
      using that fx(1) fy by (auto split: if_splits)
    have is': "is_encoding is' = ?enc" "is_contents is' = layout ?e' ?ys"
      "unat (is_length is') = length ?ys"
      using succ(1) len by (simp_all add: is'_def)
    note facts = is' len enc(1) succ(3) fys sorted
    show "intset_ok is'"
      by (rule intset_okI(1) [where xs = ?ys]) (simp_all only: facts)
    show "intset_elems is' = ?ys"
      by (rule intset_okI(2)) (simp_all only: facts)
  qed
  moreover have "is_encoding is' = ?enc"
    by (simp add: is'_def)
  ultimately show ?thesis by blast
qed

lemma insert_at_ipos:
  assumes "sorted_wrt (<) xs" "x \<notin> set xs"
  shows "sorted_wrt (<) (take (ipos x xs) xs @ x # drop (ipos x xs) xs)"
    and "set (take (ipos x xs) xs @ x # drop (ipos x xs) xs) = insert x (set xs)"
proof -
  have split: "set xs = set (take (ipos x xs) xs) \<union> set (drop (ipos x xs) xs)"
    by (simp flip: set_append)
  note p = ipos_props [OF assms(1), of x]
  have "\<forall>y \<in> set (drop (ipos x xs) xs). x < y"
    using p(3) assms(2) split by (metis UnCI order_le_less)
  then show "sorted_wrt (<) (take (ipos x xs) xs @ x # drop (ipos x xs) xs)"
    using assms(1) p(2) by (fastforce simp: sorted_wrt_append sorted_wrt_take sorted_wrt_drop)
  show "set (take (ipos x xs) xs @ x # drop (ipos x xs) xs) = insert x (set xs)"
    using split by auto
qed

lemma remove_at_ipos:
  assumes "sorted_wrt (<) xs" "x \<in> set xs"
  shows "sorted_wrt (<) (take (ipos x xs) xs @ drop (Suc (ipos x xs)) xs)"
    and "set (take (ipos x xs) xs @ drop (Suc (ipos x xs)) xs) = set xs - {x}"
proof -
  note p = ipos_props [OF assms(1), of x]
  have at: "ipos x xs < length xs" "xs ! ipos x xs = x"
    using p(4) assms(2) by simp_all
  have xs: "xs = take (ipos x xs) xs @ x # drop (Suc (ipos x xs)) xs"
    using id_take_nth_drop [OF at(1)] at(2) by simp
  have "sorted_wrt (<) (take (ipos x xs) xs @ x # drop (Suc (ipos x xs)) xs)"
    using assms(1) xs by simp
  then show "sorted_wrt (<) (take (ipos x xs) xs @ drop (Suc (ipos x xs)) xs)"
    and "set (take (ipos x xs) xs @ drop (Suc (ipos x xs)) xs) = set xs - {x}"
    using arg_cong [OF xs, of set] by (auto simp: sorted_wrt_append)
qed

lemma intsetAdd_insert:
  assumes ok: "intset_ok is" and room: "unat (is_length is) < 2 ^ 29 - 1"
    and enc: "p_intsetValueEncoding v \<le> is_encoding is" and new: "sint v \<notin> set (intset_elems is)"
  shows "\<exists>is'. intsetAdd junk is v = Some (is', True) \<and> intset_ok is' \<and>
    is_encoding is' = is_encoding is \<and>
    intset_elems is' = (let p = ipos (sint v) (intset_elems is)
      in take p (intset_elems is) @ sint v # drop p (intset_elems is))"
proof -
  let ?xs = "intset_elems is" and ?x = "sint v" and ?n = "unat (is_length is)"
  let ?e = "unat (is_encoding is)"
  let ?p = "ipos ?x ?xs"
  note l = intset_ok_layout [OF ok] and b = intset_ok_bounds [OF ok]
  have e8: "?e \<le> 8" using b(1) by auto
  note succ = unat_length_succ [OF room e8]
  have p: "?p \<le> ?n" using ipos_props(1) [OF l(4), of ?x] l(2) by simp
  have up: "unat (of_nat ?p :: u32) = ?p" "unat (of_nat ?p + 1 :: u32) = ?p + 1"
    using p room by (simp_all add: unat_of_nat unat_word_ariths)
  define c where "c = zrealloc junk (is_contents is) ((?n + 1) * ?e)"
  define is1 where "is1 = is\<lparr>is_contents := c\<rparr>"
  have is1: "intsetResize junk is (is_length is + 1) = is1"
    by (simp add: intsetResize_def is1_def c_def succ(2))
  have len_c: "length c = (?n + 1) * ?e"
    by (simp add: c_def)
  obtain js where c: "c = layout ?e ?xs @ js" "length js = ?e"
    using l(1,2) by (auto simp: c_def zrealloc_grow)
  define is2 where "is2 = (if ?p < ?n then is\<lparr>is_contents :=
      take ((?p + 1) * ?e) c @ layout ?e (drop ?p ?xs)\<rparr> else is1)"
  have move: "(if of_nat ?p < is_length is1 then intsetMoveTail is1 (of_nat ?p) (of_nat ?p + 1)
      else Some is1) = Some is2"
  proof (cases "?p < ?n")
    case True
    then have n: "?p + 1 + (?n - ?p) = ?n + 1" by simp
    have "take ((?n - ?p) * ?e) (drop (?p * ?e) c) = layout ?e (drop ?p ?xs)"
      using p l(2) by (simp add: c drop_layout)
    then have "intsetMoveTail is1 (of_nat ?p) (of_nat ?p + 1) = Some is2"
      using intsetMoveTail_eq [of is1 ?e ?n "of_nat ?p" "of_nat ?p + 1", unfolded up n] b True len_c
      by (simp add: is1_def is2_def)
    then show ?thesis
      using True by (simp add: word_less_nat_alt up is1_def)
  qed (simp add: word_less_nat_alt up is1_def is2_def)
  have enc2: "is_encoding is2 = is_encoding is"
    by (simp add: is2_def is1_def)
  have c2: "take (?p * ?e) (is_contents is2) = layout ?e (take ?p ?xs)"
    "drop ((?p + 1) * ?e) (is_contents is2) = layout ?e (drop ?p ?xs)"
    "(?p + 1) * ?e \<le> length (is_contents is2)"
  proof -
    have pe: "(?p + 1) * ?e \<le> (?n + 1) * ?e"
      using p by (intro mult_le_mono1) simp
    have "take (?p * ?e) c = layout ?e (take ?p ?xs)"
      using p l(2) by (simp add: c take_layout)
    then show "take (?p * ?e) (is_contents is2) = layout ?e (take ?p ?xs)"
      using pe len_c by (simp add: is2_def is1_def min_def)
    show "drop ((?p + 1) * ?e) (is_contents is2) = layout ?e (drop ?p ?xs)"
      using pe len_c p l(2) by (auto simp: is2_def is1_def)
    show "(?p + 1) * ?e \<le> length (is_contents is2)"
      using pe len_c by (simp add: is2_def is1_def)
  qed
  have set: "p_intsetSet is2 ?p v = Some (is\<lparr>is_contents := layout ?e (take ?p ?xs @ ?x # drop ?p ?xs)\<rparr>)"
    using set_layout [of is2 ?p v, unfolded enc2, OF b(1) c2(3)] c2(1,2)
    by (simp add: is2_def is1_def)
  define ys where "ys = take ?p ?xs @ ?x # drop ?p ?xs"
  define is' where "is' = is\<lparr>is_contents := layout ?e ys, is_length := is_length is + 1\<rparr>"
  have noup: "\<not> p_intsetValueEncoding v > is_encoding is"
    using enc by simp
  have "intsetAdd junk is v = Some (is', True)"
    using new move set up is1
    by (simp add: intsetAdd_def noup intsetSearch_correct [OF ok] Let_def ys_def is'_def)
  moreover have "intset_ok is'" "intset_elems is' = ys"
  proof -
    have len: "length ys = ?n + 1"
      using p l(2) by (simp add: ys_def)
    have f: "fits ?e y" if "y \<in> set ys" for y
      using that [unfolded ys_def insert_at_ipos(2) [OF l(4) new]] l(3)
        valueEncoding_fits [OF b(1), of v] enc by auto
    have is': "is_encoding is' = is_encoding is" "is_contents is' = layout ?e ys"
      "unat (is_length is') = length ys"
      using succ(1) len by (simp_all add: is'_def)
    note facts = is' len b(1) succ(3) f insert_at_ipos(1) [OF l(4) new, folded ys_def]
    show "intset_ok is'"
      by (rule intset_okI(1) [where xs = ys]) (simp_all only: facts)
    show "intset_elems is' = ys"
      by (rule intset_okI(2)) (simp_all only: facts)
  qed
  ultimately show ?thesis
    unfolding Let_def ys_def [symmetric] by (intro exI [of _ is']) (simp add: is'_def)
qed

lemma intsetRemove_delete:
  assumes ok: "intset_ok is"
    and enc: "p_intsetValueEncoding v \<le> is_encoding is" and mem: "sint v \<in> set (intset_elems is)"
  shows "\<exists>is'. intsetRemove junk is v = Some (is', True) \<and> intset_ok is' \<and>
    is_encoding is' = is_encoding is \<and>
    intset_elems is' = (let p = ipos (sint v) (intset_elems is)
      in take p (intset_elems is) @ drop (Suc p) (intset_elems is))"
proof -
  let ?xs = "intset_elems is" and ?x = "sint v" and ?n = "unat (is_length is)"
  let ?e = "unat (is_encoding is)" and ?c = "is_contents is"
  let ?p = "ipos ?x ?xs"
  note l = intset_ok_layout [OF ok] and b = intset_ok_bounds [OF ok]
  have p: "?p < ?n" using ipos_props(4) [OF l(4), of ?x] l(2) mem by simp
  then have n: "0 < ?n" by simp
  have up: "unat (of_nat ?p :: u32) = ?p" "unat (of_nat ?p + 1 :: u32) = ?p + 1"
    using p b(2) by (simp_all add: unat_of_nat unat_word_ariths)
  have pred: "unat (is_length is - 1) = ?n - 1"
    using n by (rule unat_pred)
  have "(?n - 1) * ?e \<le> ?n * ?e" by simp
  then have size: "(?n - 1) * ?e < 2 ^ 32" using b(3) by linarith
  then have upred: "unat ((is_length is - 1) * is_encoding is) = (?n - 1) * ?e"
    using unat_word_ariths(2) [of "is_length is - 1" "is_encoding is"] pred by simp
  define is1 where "is1 = (if ?p < ?n - 1 then is\<lparr>is_contents :=
      take (?p * ?e) ?c @ layout ?e (drop (Suc ?p) ?xs) @ drop ((?n - 1) * ?e) ?c\<rparr> else is)"
  have move: "(if of_nat ?p < is_length is - 1 then intsetMoveTail is (of_nat ?p + 1) (of_nat ?p)
      else Some is) = Some is1"
  proof (cases "?p < ?n - 1")
    case True
    then have k: "?p + (?n - (?p + 1)) = ?n - 1" by simp
    have "take ((?n - (?p + 1)) * ?e) (drop ((?p + 1) * ?e) ?c) = layout ?e (drop (Suc ?p) ?xs)"
      using l(1,2) drop_layout [of "?p + 1" ?e ?xs] by simp
    then have "intsetMoveTail is (of_nat ?p + 1) (of_nat ?p) = Some is1"
      using intsetMoveTail_eq [of "is" ?e ?n "of_nat ?p + 1" "of_nat ?p", unfolded up k] b True l(1,2) p
      by (simp add: is1_def)
    then show ?thesis
      using True by (simp add: word_less_nat_alt up pred)
  qed (simp add: word_less_nat_alt up pred is1_def)
  define ys where "ys = take ?p ?xs @ drop (Suc ?p) ?xs"
  have c1: "take ((?n - 1) * ?e) (is_contents is1) = layout ?e ys"
    "(?n - 1) * ?e \<le> length (is_contents is1)"
  proof -
    have tp: "take (?p * ?e) ?c = layout ?e (take ?p ?xs)"
      using l(1) by (simp add: take_layout)
    have pe: "?p * ?e + (?n - Suc ?p) * ?e = (?n - 1) * ?e"
      using p by (simp flip: add_mult_distrib)
    show t: "take ((?n - 1) * ?e) (is_contents is1) = layout ?e ys"
    proof (cases "?p < ?n - 1")
      case True
      then show ?thesis
        using tp pe l(2) p by (simp add: is1_def ys_def min_def)
    next
      case False
      then have "?p = ?n - 1" using p by simp
      then show ?thesis
        using tp l(2) False by (simp add: is1_def ys_def)
    qed
    show "(?n - 1) * ?e \<le> length (is_contents is1)"
      using arg_cong [OF t, of length] p l(2) pe by (simp add: ys_def min_def split: if_splits)
  qed
  define is' where "is' = is\<lparr>is_contents := layout ?e ys, is_length := is_length is - 1\<rparr>"
  have is1: "is_encoding is1 = is_encoding is" "is1\<lparr>is_contents := c\<rparr> = is\<lparr>is_contents := c\<rparr>" for c
    by (simp_all add: is1_def)
  have "intsetResize junk is1 (is_length is - 1) = is\<lparr>is_contents := layout ?e ys\<rparr>"
    using c1 by (simp add: intsetResize_def is1 upred zrealloc_shrink)
  then have "intsetRemove junk is v = Some (is', True)"
    using mem move enc
    by (simp add: intsetRemove_def intsetSearch_correct [OF ok] Let_def is'_def)
  moreover have "intset_ok is'" "intset_elems is' = ys"
  proof -
    have len: "length ys = ?n - 1"
      using p l(2) by (simp add: ys_def)
    have f: "fits ?e y" if "y \<in> set ys" for y
      using that [unfolded ys_def remove_at_ipos(2) [OF l(4) mem]] l(3) by auto
    have is': "is_encoding is' = is_encoding is" "is_contents is' = layout ?e ys"
      "unat (is_length is') = length ys"
      using pred len by (simp_all add: is'_def)
    note facts = is' len b(1) size f remove_at_ipos(1) [OF l(4) mem, folded ys_def]
    show "intset_ok is'"
      by (rule intset_okI(1) [where xs = ys]) (simp_all only: facts)
    show "intset_elems is' = ys"
      by (rule intset_okI(2)) (simp_all only: facts)
  qed
  ultimately show ?thesis
    unfolding Let_def ys_def [symmetric] by (intro exI [of _ is']) (simp add: is'_def)
qed

lemma not_fits_not_member:
  assumes "intset_ok is" "p_intsetValueEncoding v > is_encoding is"
  shows "sint v \<notin> set (intset_elems is)"
  using intset_ok_layout(3) [OF assms(1), of "sint v"]
    valueEncoding_fits [OF intset_ok_bounds(1) [OF assms(1)], of v] assms(2) by auto

lemma intsetNew_ok: "intset_ok intsetNew" "intset_elems intsetNew = []"
  by (simp_all add: intset_ok_def intset_elems_def intsetNew_def)

lemma intsetAdd_correct:
  assumes ok: "intset_ok is" and room: "unat (is_length is) < 2 ^ 29 - 1"
  shows "\<exists>is'. intsetAdd junk is v = Some (is', sint v \<notin> set (intset_elems is)) \<and>
    intset_ok is' \<and> set (intset_elems is') = insert (sint v) (set (intset_elems is))"
proof (cases "p_intsetValueEncoding v > is_encoding is")
  case True
  have "sint v \<notin> set (intset_elems is)"
    using not_fits_not_member [OF ok True] .
  then show ?thesis
    using intsetUpgradeAndAdd_correct [OF ok room True, of junk] True
    by (auto simp: intsetAdd_def)
next
  case False
  show ?thesis
  proof (cases "sint v \<in> set (intset_elems is)")
    case True
    then show ?thesis
      using ok False by (auto simp: intsetAdd_def intsetSearch_correct [OF ok] insert_absorb)
  next
    case new: False
    obtain is' where "intsetAdd junk is v = Some (is', True)" "intset_ok is'"
      "intset_elems is' = (let p = ipos (sint v) (intset_elems is)
        in take p (intset_elems is) @ sint v # drop p (intset_elems is))"
      using intsetAdd_insert [OF ok room _ new, of junk] False by (auto simp: not_less)
    then show ?thesis
      using insert_at_ipos(2) [OF intset_ok_layout(4) [OF ok] new] new by (auto simp: Let_def)
  qed
qed

lemma intsetRemove_correct:
  assumes ok: "intset_ok is"
  shows "\<exists>is'. intsetRemove junk is v = Some (is', sint v \<in> set (intset_elems is)) \<and>
    intset_ok is' \<and> set (intset_elems is') = set (intset_elems is) - {sint v}"
proof (cases "p_intsetValueEncoding v \<le> is_encoding is \<and> sint v \<in> set (intset_elems is)")
  case True
  then obtain is' where "intsetRemove junk is v = Some (is', True)" "intset_ok is'"
    "intset_elems is' = (let p = ipos (sint v) (intset_elems is)
      in take p (intset_elems is) @ drop (Suc p) (intset_elems is))"
    using intsetRemove_delete [OF ok, of v junk] by auto
  then show ?thesis
    using remove_at_ipos(2) [OF intset_ok_layout(4) [OF ok], of "sint v"] True
    by (auto simp: Let_def)
next
  case False
  then have "sint v \<notin> set (intset_elems is)"
    using not_fits_not_member [OF ok, of v] by (auto simp: not_le)
  then show ?thesis
    using ok by (auto simp: intsetRemove_def intsetSearch_correct [OF ok])
qed

lemma intsetFind_correct:
  assumes "intset_ok is"
  shows "intsetFind is v = Some (sint v \<in> set (intset_elems is))"
  using not_fits_not_member [OF assms, of v]
  by (auto simp: intsetFind_def intsetSearch_correct [OF assms] not_le)

section \<open>Properties\<close>

text \<open>C7: adding a value to an intset never reads or writes outside its block and yields a
  well-formed intset (sorted, exact size, wide enough encoding) whose elements are the old ones and
  the value; the success flag says whether the value was new. This covers the in-place insertion
  and the upgrade to a wider encoding.\<close>

theorem intset_add:
  assumes "intset_ok is" and "unat (is_length is) < 2 ^ 29 - 1"
  shows "\<exists>is'. intsetAdd junk is v = Some (is', sint v \<notin> set (intset_elems is)) \<and>
    intset_ok is' \<and> set (intset_elems is') = insert (sint v) (set (intset_elems is))"
  using assms by (rule intsetAdd_correct)

theorem intset_add_witness:
  "\<exists>is'. intsetAdd (\<lambda>_. 0xAA) intsetNew 100000 = Some (is', True) \<and>
    intset_ok is' \<and> set (intset_elems is') = {100000}"
  using intset_add [of intsetNew "\<lambda>_. 0xAA" 100000] intsetNew_ok by (simp add: intsetNew_def)

text \<open>C15: removing a value yields a well-formed intset without it; the flag says whether the
  value was there.\<close>

theorem intset_remove:
  assumes "intset_ok is"
  shows "\<exists>is'. intsetRemove junk is v = Some (is', sint v \<in> set (intset_elems is)) \<and>
    intset_ok is' \<and> set (intset_elems is') = set (intset_elems is) - {sint v}"
  using assms by (rule intsetRemove_correct)

theorem intset_remove_witness:
  "\<exists>is'. intsetRemove (\<lambda>_. 0) \<lparr>is_encoding = 2, is_length = 2, is_contents = [255, 255, 3, 0]\<rparr> 3
      = Some (is', True) \<and> intset_ok is' \<and> set (intset_elems is') = {-1}"
proof -
  let ?is = "\<lparr>is_encoding = 2, is_length = 2, is_contents = [255, 255, 3, 0]\<rparr> :: intset"
  have elems: "intset_elems ?is = [-1, 3]"
    by (simp add: intset_elems_def p_intsetGet_def p_intsetGetEncoded_def memread_def
        upt_conv_Cons)
  then have "intset_ok ?is"
    by (simp add: intset_ok_def)
  from intset_remove [OF this, of "\<lambda>_. 0" 3] show ?thesis
    by (simp add: elems insert_Diff_if)
qed
end
