(* ===== verification/Clib.thy ===== *)
theory Clib
  imports Redis_Base
begin

text \<open>
  What the sources use of the C library: character classes of the C locale, \<open>strlen\<close>,
  \<open>strchr\<close>, \<open>memcmp\<close> and \<open>strcasecmp\<close>. A C string is the list of its bytes with its NUL.
\<close>

definition tolower :: "byte \<Rightarrow> byte" where
  "tolower c = (if 65 \<le> c \<and> c \<le> 90 then c + 32 else c)"

definition toupper :: "byte \<Rightarrow> byte" where
  "toupper c = (if 97 \<le> c \<and> c \<le> 122 then c - 32 else c)"

definition isspace :: "byte \<Rightarrow> bool" where
  "isspace c \<longleftrightarrow> c = 32 \<or> 9 \<le> c \<and> c \<le> 13"

definition isprint :: "byte \<Rightarrow> bool" where
  "isprint c \<longleftrightarrow> 32 \<le> c \<and> c \<le> 126"

text \<open>\<open>strlen\<close> finds the first NUL; with none in the buffer it runs off its end.\<close>

definition strlen :: "byte list \<Rightarrow> nat option" where
  "strlen s = (if 0 \<in> set s then Some (length (takeWhile (\<lambda>c. c \<noteq> 0) s)) else None)"

text \<open>\<open>strchr(s, c) != NULL\<close> for the string with the bytes \<open>s\<close> and its NUL, which counts.\<close>

definition strchr :: "byte list \<Rightarrow> byte \<Rightarrow> bool" where
  "strchr s c \<longleftrightarrow> c \<in> set (takeWhile (\<lambda>c. c \<noteq> 0) s) \<or> c = 0"

text \<open>\<open>memcmp\<close> on buffers of equal length: the sign of the first difference.\<close>

fun memcmp :: "byte list \<Rightarrow> byte list \<Rightarrow> int" where
  "memcmp (a # as) (b # bs) = (if a = b then memcmp as bs else if a < b then -1 else 1)"
| "memcmp _ _ = 0"

text \<open>\<open>strcasecmp\<close> reads both strings up to a NUL.\<close>

fun strcasecmp :: "byte list \<Rightarrow> byte list \<Rightarrow> int" where
  "strcasecmp (a # as) (b # bs) =
     (if tolower a \<noteq> tolower b then uint (tolower a) - uint (tolower b)
      else if a = 0 then 0
      else strcasecmp as bs)"
| "strcasecmp _ _ = 0"

lemma strlen_terminated:
  "0 \<notin> set s \<Longrightarrow> strlen (s @ 0 # r) = Some (length s)"
  by (subst strlen_def, subst takeWhile_append2) auto

lemma memcmp_eq: "length a = length b \<Longrightarrow> memcmp a b = 0 \<longleftrightarrow> a = b"
  by (induction a b rule: memcmp.induct) auto

lemma memcmp_range: "memcmp a b = -1 \<or> memcmp a b = 0 \<or> memcmp a b = 1"
  by (induction a b rule: memcmp.induct) auto

text \<open>Comparing the common prefix and then the lengths is the lexicographic order.\<close>

lemma lexordp_memcmp:
  fixes a b :: "byte list"
  assumes "n = min (length a) (length b)"
  shows "ord_class.lexordp a b \<longleftrightarrow>
    memcmp (take n a) (take n b) < 0 \<or> memcmp (take n a) (take n b) = 0 \<and> length a < length b"
    "a = b \<longleftrightarrow> memcmp (take n a) (take n b) = 0 \<and> length a = length b"
proof -
  show "ord_class.lexordp a b \<longleftrightarrow>
    memcmp (take n a) (take n b) < 0 \<or> memcmp (take n a) (take n b) = 0 \<and> length a < length b"
    using assms
  proof (induction a arbitrary: b n)
    case (Cons x a)
    then show ?case by (cases b) auto
  qed auto
  show "a = b \<longleftrightarrow> memcmp (take n a) (take n b) = 0 \<and> length a = length b"
    using assms memcmp_eq [of "take n a" "take n b"] by auto
qed

lemma sint_length_diff:
  assumes "m < 2 ^ 31" "n < 2 ^ 31"
  shows "sint (of_nat m - of_nat n :: u32) = int m - int n"
proof -
  have "(of_nat m - of_nat n :: u32) = of_int (int m - int n)" by simp
  also have "sint \<dots> = int m - int n"
    by (rule sint_of_int_range) (use assms in simp_all)
  finally show ?thesis .
qed

lemma tolower_zero: "tolower c = 0 \<longleftrightarrow> c = 0"
proof
  assume a: "tolower c = 0"
  show "c = 0"
  proof (cases "65 \<le> c \<and> c \<le> 90")
    case True
    then have u: "unat c \<le> 90" by (simp add: word_le_nat_alt)
    have "unat (c + 32) = unat c + 32" using u by (subst unat_add_lem [THEN iffD1]) auto
    with a True show ?thesis by (simp add: tolower_def)
  qed (use a in \<open>simp add: tolower_def split: if_splits\<close>)
qed (simp add: tolower_def)

lemma tolower_0 [simp]: "tolower 0 = 0"
  by (simp add: tolower_zero)

lemma strcasecmp_eq:
  assumes "0 \<notin> set a" "0 \<notin> set b"
  shows "strcasecmp (a @ [0]) (b @ [0]) = 0 \<longleftrightarrow> map tolower a = map tolower b"
  using assms
proof (induction a arbitrary: b)
  case Nil
  then show ?case
    by (cases b) (auto simp: tolower_zero unsigned_eq_0_iff)
next
  case (Cons c a)
  have "uint x = uint y \<longleftrightarrow> x = y" for x y :: byte by (metis word_uint_eq_iff)
  with Cons show ?case
    by (cases b) (auto simp: tolower_zero unsigned_eq_0_iff)
qed

end
