(* ===== verification/Dict.thy ===== *)
theory Dict
  imports Clib "HOL-Library.Multiset"
begin

text \<open>
  \<open>dict.c\<close>: the hash table of Redis, two tables with incremental rehashing. A bucket is the
  list of the entries chained at it; a table that is not allocated (\<open>NULL\<close>) is the empty list.
  \<open>None\<close> is a fault: a bucket index outside the table or the failed \<open>assert\<close> of \<open>dictRehash\<close>.
  An entry pointer is the place of the entry: table, bucket and position in the chain.
  The element counters and sizes (\<open>unsigned long\<close>) are naturals: they count allocated objects.
  The destructors only release memory and do not appear. The static \<open>dict_can_resize\<close> is an
  argument of the operations that read it.
\<close>

section \<open>Hash functions\<close>

definition dictIntHashFunction :: "u32 \<Rightarrow> u32" where
  "dictIntHashFunction key =
     (let key = key + NOT (push_bit 15 key);
          key = key XOR drop_bit 10 key;
          key = key + push_bit 3 key;
          key = key XOR drop_bit 6 key;
          key = key + NOT (push_bit 11 key);
          key = key XOR drop_bit 16 key
      in key)"

text \<open>\<open>dictGenHashFunction\<close> (MurmurHash2) with the value \<open>seed\<close> of \<open>dict_hash_function_seed\<close>.
  The four-byte load is little-endian, as on the targets of the sources.\<close>

fun dictGenHashFunction_loop :: "u32 \<Rightarrow> byte list \<Rightarrow> u32 \<times> byte list" where
  "dictGenHashFunction_loop h (b0 # b1 # b2 # b3 # data) =
     (let m = 0x5bd1e995;
          k = of_nat (le_val [b0, b1, b2, b3]);
          k = k * m;
          k = k XOR drop_bit 24 k;
          k = k * m;
          h = h * m;
          h = h XOR k
      in dictGenHashFunction_loop h data)"
| "dictGenHashFunction_loop h data = (h, data)"

definition dictGenHashFunction :: "u32 \<Rightarrow> byte list \<Rightarrow> u32" where
  "dictGenHashFunction seed key =
     (let m = 0x5bd1e995;
          h = seed XOR of_nat (length key);
          (h, data) = dictGenHashFunction_loop h key;
          h = (case data of
                 [d0, d1, d2] \<Rightarrow>
                   (((h XOR push_bit 16 (ucast d2)) XOR push_bit 8 (ucast d1)) XOR ucast d0) * m
               | [d0, d1] \<Rightarrow> ((h XOR push_bit 8 (ucast d1)) XOR ucast d0) * m
               | [d0] \<Rightarrow> (h XOR ucast d0) * m
               | _ \<Rightarrow> h);
          h = h XOR drop_bit 13 h;
          h = h * m;
          h = h XOR drop_bit 15 h
      in h)"

fun dictGenCaseHashFunction_loop :: "u32 \<Rightarrow> byte list \<Rightarrow> u32" where
  "dictGenCaseHashFunction_loop h [] = h"
| "dictGenCaseHashFunction_loop h (c # buf) =
     dictGenCaseHashFunction_loop ((push_bit 5 h + h) + ucast (tolower c)) buf"

definition dictGenCaseHashFunction :: "u32 \<Rightarrow> byte list \<Rightarrow> u32" where
  "dictGenCaseHashFunction seed buf = dictGenCaseHashFunction_loop seed buf"

section \<open>The tables\<close>

record ('k, 'v) dictEntry =
  de_key :: 'k
  de_val :: 'v

record ('k, 'v) dictType =
  hashFunction :: "'k \<Rightarrow> u32"
  keyDup :: "('k \<Rightarrow> 'k) option"
  valDup :: "('v \<Rightarrow> 'v) option"
  keyCompare :: "('k \<Rightarrow> 'k \<Rightarrow> bool) option"

record ('k, 'v) dictht =
  ht_table :: "('k, 'v) dictEntry list list"
  ht_size :: nat
  ht_sizemask :: u64
  ht_used :: nat

record ('k, 'v) dict =
  d_type :: "('k, 'v) dictType"
  ht0 :: "('k, 'v) dictht"
  ht1 :: "('k, 'v) dictht"
  rehashidx :: int
  iterators :: int

abbreviation DICT_HT_INITIAL_SIZE :: nat where "DICT_HT_INITIAL_SIZE \<equiv> 4"

definition dict_force_resize_ratio :: nat where "dict_force_resize_ratio = 5"

definition dictIsRehashing :: "('k, 'v) dict \<Rightarrow> bool" where
  "dictIsRehashing d \<longleftrightarrow> rehashidx d \<noteq> -1"

definition dictSlots :: "('k, 'v) dict \<Rightarrow> nat" where
  "dictSlots d = ht_size (ht0 d) + ht_size (ht1 d)"

definition dictSize :: "('k, 'v) dict \<Rightarrow> nat" where
  "dictSize d = ht_used (ht0 d) + ht_used (ht1 d)"

definition dictHashKey :: "('k, 'v) dict \<Rightarrow> 'k \<Rightarrow> u32" where
  "dictHashKey d key = hashFunction (d_type d) key"

definition dictCompareKeys :: "('k, 'v) dict \<Rightarrow> 'k \<Rightarrow> 'k \<Rightarrow> bool" where
  "dictCompareKeys d key1 key2 =
     (case keyCompare (d_type d) of Some cmp \<Rightarrow> cmp key1 key2 | None \<Rightarrow> key1 = key2)"

text \<open>The value that \<open>dictSetKey\<close> and \<open>dictSetVal\<close> store.\<close>

definition dictSetKey :: "('k, 'v) dict \<Rightarrow> 'k \<Rightarrow> 'k" where
  "dictSetKey d key = (case keyDup (d_type d) of Some dup \<Rightarrow> dup key | None \<Rightarrow> key)"

definition dictSetVal :: "('k, 'v) dict \<Rightarrow> 'v \<Rightarrow> 'v" where
  "dictSetVal d v = (case valDup (d_type d) of Some dup \<Rightarrow> dup v | None \<Rightarrow> v)"

text \<open>\<open>&d->ht[table]\<close>, and the bucket \<open>h & sizemask\<close> as the C code computes it.\<close>

definition get_ht :: "('k, 'v) dict \<Rightarrow> nat \<Rightarrow> ('k, 'v) dictht" where
  "get_ht d tbl = (if tbl = 0 then ht0 d else ht1 d)"

definition put_ht :: "('k, 'v) dict \<Rightarrow> nat \<Rightarrow> ('k, 'v) dictht \<Rightarrow> ('k, 'v) dict" where
  "put_ht d tbl t = (if tbl = 0 then d\<lparr>ht0 := t\<rparr> else d\<lparr>ht1 := t\<rparr>)"

definition bucket_idx :: "('k, 'v) dictht \<Rightarrow> u32 \<Rightarrow> u32" where
  "bucket_idx t h = ucast (ucast h AND ht_sizemask t)"

definition p_dictReset :: "('k, 'v) dictht" where
  "p_dictReset = \<lparr>ht_table = [], ht_size = 0, ht_sizemask = 0, ht_used = 0\<rparr>"

definition p_dictInit :: "('k, 'v) dictType \<Rightarrow> ('k, 'v) dict" where
  "p_dictInit ty =
     \<lparr>d_type = ty, ht0 = p_dictReset, ht1 = p_dictReset, rehashidx = -1, iterators = 0\<rparr>"

definition dictCreate :: "('k, 'v) dictType \<Rightarrow> ('k, 'v) dict" where
  "dictCreate ty = p_dictInit ty"

section \<open>Resizing\<close>

function p_dictNextPower_loop :: "nat \<Rightarrow> nat \<Rightarrow> nat" where
  "p_dictNextPower_loop sz i =
     (if i \<ge> sz \<or> i = 0 then i else p_dictNextPower_loop sz (i * 2))"
  by pat_completeness auto
termination
  by (relation "measure (\<lambda>(sz, i). sz - i)") auto

declare p_dictNextPower_loop.simps [simp del]

definition p_dictNextPower :: "nat \<Rightarrow> nat" where
  "p_dictNextPower sz =
     (if sz \<ge> 2 ^ 63 - 1 then 2 ^ 63 - 1 else p_dictNextPower_loop sz DICT_HT_INITIAL_SIZE)"

text \<open>Results \<open>DICT_OK\<close> and \<open>DICT_ERR\<close> are \<open>True\<close> and \<open>False\<close>.\<close>

definition dictExpand :: "('k, 'v) dict \<Rightarrow> nat \<Rightarrow> ('k, 'v) dict \<times> bool" where
  "dictExpand d sz =
     (let realsize = p_dictNextPower sz
      in if dictIsRehashing d \<or> ht_used (ht0 d) > sz then (d, False)
         else
           let n = \<lparr>ht_table = replicate realsize [], ht_size = realsize,
                    ht_sizemask = of_nat realsize - 1, ht_used = 0\<rparr>
           in if ht_table (ht0 d) = [] then (d\<lparr>ht0 := n\<rparr>, True)
              else (d\<lparr>ht1 := n, rehashidx := 0\<rparr>, True))"

text \<open>\<open>int minimal = d->ht[0].used\<close> keeps the low 32 bits, read signed; the comparison and the
  call convert it back to \<open>unsigned long\<close>.\<close>

definition dictResize :: "bool \<Rightarrow> ('k, 'v) dict \<Rightarrow> ('k, 'v) dict \<times> bool" where
  "dictResize can_resize d =
     (if \<not> can_resize \<or> dictIsRehashing d then (d, False)
      else
        let minimal = sint (of_nat (ht_used (ht0 d)) :: u32);
            minimal = (if minimal < int DICT_HT_INITIAL_SIZE then int DICT_HT_INITIAL_SIZE else minimal)
        in dictExpand d (nat minimal))"

text \<open>The inner loops of \<open>dictRehash\<close>: to the next bucket in use, and along its chain.\<close>

function rehash_skip :: "('k, 'v) dictEntry list list \<Rightarrow> nat \<Rightarrow> nat option" where
  "rehash_skip tb i =
     (if i < length tb then (if tb ! i = [] then rehash_skip tb (i + 1) else Some i) else None)"
  by pat_completeness auto
termination
  by (relation "measure (\<lambda>(tb, i). length tb - i)") auto

declare rehash_skip.simps [simp del]

fun rehash_move :: "('k, 'v) dict \<Rightarrow> ('k, 'v) dictEntry list \<Rightarrow> ('k, 'v) dict option" where
  "rehash_move d [] = Some d"
| "rehash_move d (de # nextde) = do {
     let h = unat (bucket_idx (ht1 d) (dictHashKey d (de_key de)));
     b \<leftarrow> rd (ht_table (ht1 d)) h;
     tb \<leftarrow> wr (ht_table (ht1 d)) h (de # b);
     let d = d\<lparr>ht1 := (ht1 d)\<lparr>ht_table := tb, ht_used := ht_used (ht1 d) + 1\<rparr>,
              ht0 := (ht0 d)\<lparr>ht_used := ht_used (ht0 d) - 1\<rparr>\<rparr>;
     rehash_move d nextde
   }"

fun dictRehash_loop :: "('k, 'v) dict \<Rightarrow> nat \<Rightarrow> (('k, 'v) dict \<times> bool) option" where
  "dictRehash_loop d 0 = Some (d, True)"
| "dictRehash_loop d (Suc n) =
     (if ht_used (ht0 d) = 0 then
        Some (d\<lparr>ht0 := ht1 d, ht1 := p_dictReset, rehashidx := -1\<rparr>, False)
      else if \<not> ht_size (ht0 d) > nat (rehashidx d) then None
      else do {
        i \<leftarrow> rehash_skip (ht_table (ht0 d)) (nat (rehashidx d));
        let d = d\<lparr>rehashidx := int i\<rparr>;
        de \<leftarrow> rd (ht_table (ht0 d)) i;
        d \<leftarrow> rehash_move d de;
        tb \<leftarrow> wr (ht_table (ht0 d)) i [];
        let d = d\<lparr>ht0 := (ht0 d)\<lparr>ht_table := tb\<rparr>, rehashidx := rehashidx d + 1\<rparr>;
        dictRehash_loop d n
      })"

text \<open>The flag is the returned \<open>int\<close>: whether there is more to move.\<close>

definition dictRehash :: "('k, 'v) dict \<Rightarrow> nat \<Rightarrow> (('k, 'v) dict \<times> bool) option" where
  "dictRehash d n = (if \<not> dictIsRehashing d then Some (d, False) else dictRehash_loop d n)"

definition p_dictRehashStep :: "('k, 'v) dict \<Rightarrow> ('k, 'v) dict option" where
  "p_dictRehashStep d = (if iterators d = 0 then map_option fst (dictRehash d 1) else Some d)"

text \<open>The first line of every operation: one step of an ongoing rehash.\<close>

abbreviation rehash_first :: "('k, 'v) dict \<Rightarrow> ('k, 'v) dict option" where
  "rehash_first d \<equiv> (if dictIsRehashing d then p_dictRehashStep d else Some d)"

definition p_dictExpandIfNeeded :: "bool \<Rightarrow> ('k, 'v) dict \<Rightarrow> ('k, 'v) dict \<times> bool" where
  "p_dictExpandIfNeeded can_resize d =
     (if dictIsRehashing d then (d, True)
      else if ht_size (ht0 d) = 0 then dictExpand d DICT_HT_INITIAL_SIZE
      else if ht_used (ht0 d) \<ge> ht_size (ht0 d) \<and>
              (can_resize \<or> ht_used (ht0 d) div ht_size (ht0 d) > dict_force_resize_ratio)
      then dictExpand d (ht_used (ht0 d) * 2)
      else (d, True))"

section \<open>Lookup and update\<close>

text \<open>Walking the chain of a bucket: the position of the entry with the key.\<close>

fun he_find :: "('k, 'v) dict \<Rightarrow> 'k \<Rightarrow> ('k, 'v) dictEntry list \<Rightarrow> nat option" where
  "he_find d key [] = None"
| "he_find d key (he # nextHe) =
     (if dictCompareKeys d key (de_key he) then Some 0 else map_option Suc (he_find d key nextHe))"

type_synonym place = "nat \<times> nat \<times> nat"

definition find_in_table :: "('k, 'v) dict \<Rightarrow> 'k \<Rightarrow> u32 \<Rightarrow> nat \<Rightarrow> place option option" where
  "find_in_table d key h tbl = do {
     let idx = unat (bucket_idx (get_ht d tbl) h);
     he \<leftarrow> rd (ht_table (get_ht d tbl)) idx;
     Some (map_option (\<lambda>p. (tbl, idx, p)) (he_find d key he))
   }"

text \<open>The loop over the two tables that \<open>_dictKeyIndex\<close>, \<open>dictGenericDelete\<close> and \<open>dictFind\<close> share.\<close>

definition find_in_tables :: "('k, 'v) dict \<Rightarrow> 'k \<Rightarrow> u32 \<Rightarrow> place option option" where
  "find_in_tables d key h = do {
     r \<leftarrow> find_in_table d key h 0;
     if r \<noteq> None then Some r
     else if \<not> dictIsRehashing d then Some None
     else find_in_table d key h 1
   }"

definition get_entry :: "('k, 'v) dict \<Rightarrow> place \<Rightarrow> ('k, 'v) dictEntry option" where
  "get_entry d = (\<lambda>(tbl, idx, p). do {
     he \<leftarrow> rd (ht_table (get_ht d tbl)) idx;
     rd he p
   })"

definition put_entry :: "('k, 'v) dict \<Rightarrow> place \<Rightarrow> ('k, 'v) dictEntry \<Rightarrow> ('k, 'v) dict option" where
  "put_entry d = (\<lambda>(tbl, idx, p) e. do {
     he \<leftarrow> rd (ht_table (get_ht d tbl)) idx;
     he \<leftarrow> wr he p e;
     tb \<leftarrow> wr (ht_table (get_ht d tbl)) idx he;
     Some (put_ht d tbl ((get_ht d tbl)\<lparr>ht_table := tb\<rparr>))
   })"

definition p_dictKeyIndex ::
    "bool \<Rightarrow> ('k, 'v) dict \<Rightarrow> 'k \<Rightarrow> (('k, 'v) dict \<times> int) option" where
  "p_dictKeyIndex can_resize d key =
     (let (d, ok) = p_dictExpandIfNeeded can_resize d
      in if \<not> ok then Some (d, -1)
         else do {
           let h = dictHashKey d key;
           r \<leftarrow> find_in_tables d key h;
           Some (d, if r \<noteq> None then -1
                    else sint (bucket_idx (get_ht d (if dictIsRehashing d then 1 else 0)) h))
         })"

text \<open>The value field of a fresh entry is not initialised: \<open>v\<close> is what \<open>zmalloc\<close> left there.\<close>

definition dictAddRaw ::
    "bool \<Rightarrow> 'v \<Rightarrow> ('k, 'v) dict \<Rightarrow> 'k \<Rightarrow> (('k, 'v) dict \<times> place option) option" where
  "dictAddRaw can_resize v d key = do {
     d \<leftarrow> rehash_first d;
     (d, index) \<leftarrow> p_dictKeyIndex can_resize d key;
     if index = -1 then Some (d, None)
     else if index < 0 then None
     else do {
       let tbl = (if dictIsRehashing d then 1 else 0);
       let ht = get_ht d tbl;
       let entry = \<lparr>de_key = dictSetKey d key, de_val = v\<rparr>;
       he \<leftarrow> rd (ht_table ht) (nat index);
       tb \<leftarrow> wr (ht_table ht) (nat index) (entry # he);
       Some (put_ht d tbl (ht\<lparr>ht_table := tb, ht_used := ht_used ht + 1\<rparr>),
             Some (tbl, nat index, 0))
     }
   }"

text \<open>\<open>dictSetVal(d, entry, val)\<close> on the entry at a place.\<close>

definition set_val_at :: "('k, 'v) dict \<Rightarrow> place \<Rightarrow> 'v \<Rightarrow> ('k, 'v) dict option" where
  "set_val_at d p v = do {
     e \<leftarrow> get_entry d p;
     put_entry d p (e\<lparr>de_val := dictSetVal d v\<rparr>)
   }"

definition dictAdd ::
    "bool \<Rightarrow> 'v \<Rightarrow> ('k, 'v) dict \<Rightarrow> 'k \<Rightarrow> 'v \<Rightarrow> (('k, 'v) dict \<times> bool) option" where
  "dictAdd can_resize junk d key v = do {
     (d, entry) \<leftarrow> dictAddRaw can_resize junk d key;
     case entry of
       None \<Rightarrow> Some (d, False)
     | Some p \<Rightarrow> do { d \<leftarrow> set_val_at d p v; Some (d, True) }
   }"

definition dictFind :: "('k, 'v) dict \<Rightarrow> 'k \<Rightarrow> (('k, 'v) dict \<times> place option) option" where
  "dictFind d key =
     (if ht_size (ht0 d) = 0 then Some (d, None)
      else do {
        d \<leftarrow> rehash_first d;
        let h = dictHashKey d key;
        r \<leftarrow> find_in_tables d key h;
        Some (d, r)
      })"

definition dictFetchValue :: "('k, 'v) dict \<Rightarrow> 'k \<Rightarrow> (('k, 'v) dict \<times> 'v option) option" where
  "dictFetchValue d key = do {
     (d, he) \<leftarrow> dictFind d key;
     case he of
       None \<Rightarrow> Some (d, None)
     | Some p \<Rightarrow> do { e \<leftarrow> get_entry d p; Some (d, Some (de_val e)) }
   }"

text \<open>\<open>True\<close>: added from scratch. A null \<open>dictFind\<close> after a failed \<open>dictAdd\<close> would be
  dereferenced.\<close>

definition dictReplace ::
    "bool \<Rightarrow> 'v \<Rightarrow> ('k, 'v) dict \<Rightarrow> 'k \<Rightarrow> 'v \<Rightarrow> (('k, 'v) dict \<times> bool) option" where
  "dictReplace can_resize junk d key v = do {
     (d, added) \<leftarrow> dictAdd can_resize junk d key v;
     if added then Some (d, True)
     else do {
       (d, entry) \<leftarrow> dictFind d key;
       p \<leftarrow> entry;
       d \<leftarrow> set_val_at d p v;
       Some (d, False)
     }
   }"

definition dictReplaceRaw ::
    "bool \<Rightarrow> 'v \<Rightarrow> ('k, 'v) dict \<Rightarrow> 'k \<Rightarrow> (('k, 'v) dict \<times> place option) option" where
  "dictReplaceRaw can_resize junk d key = do {
     (d, entry) \<leftarrow> dictFind d key;
     if entry \<noteq> None then Some (d, entry) else dictAddRaw can_resize junk d key
   }"

text \<open>The third component is the unlinked entry, whose key and value \<open>dictDelete\<close> frees and
  \<open>dictDeleteNoFree\<close> leaves alone.\<close>

definition dictGenericDelete ::
    "('k, 'v) dict \<Rightarrow> 'k \<Rightarrow> bool \<Rightarrow> (('k, 'v) dict \<times> bool \<times> ('k, 'v) dictEntry list) option" where
  "dictGenericDelete d key nofree =
     (if ht_size (ht0 d) = 0 then Some (d, False, [])
      else do {
        d \<leftarrow> rehash_first d;
        let h = dictHashKey d key;
        r \<leftarrow> find_in_tables d key h;
        case r of
          None \<Rightarrow> Some (d, False, [])
        | Some (tbl, idx, p) \<Rightarrow> do {
            let ht = get_ht d tbl;
            he \<leftarrow> rd (ht_table ht) idx;
            e \<leftarrow> rd he p;
            tb \<leftarrow> wr (ht_table ht) idx (take p he @ drop (p + 1) he);
            Some (put_ht d tbl (ht\<lparr>ht_table := tb, ht_used := ht_used ht - 1\<rparr>), True,
                  if nofree then [] else [e])
          }
      })"

definition dictDelete :: "('k, 'v) dict \<Rightarrow> 'k \<Rightarrow> (('k, 'v) dict \<times> bool) option" where
  "dictDelete d key = map_option (\<lambda>(d, ok, freed). (d, ok)) (dictGenericDelete d key False)"

definition dictDeleteNoFree :: "('k, 'v) dict \<Rightarrow> 'k \<Rightarrow> (('k, 'v) dict \<times> bool) option" where
  "dictDeleteNoFree d key = map_option (\<lambda>(d, ok, freed). (d, ok)) (dictGenericDelete d key True)"

text \<open>\<open>_dictClear\<close>: the loop stops when the counter reaches 0, and the result is the list of the
  entries it freed with the fresh table.\<close>

function p_dictClear_loop ::
    "('k, 'v) dictht \<Rightarrow> nat \<Rightarrow> nat \<Rightarrow> ('k, 'v) dictEntry list \<Rightarrow> ('k, 'v) dictEntry list option" where
  "p_dictClear_loop ht i used freed =
     (if i < ht_size ht \<and> used > 0 then
        (case rd (ht_table ht) i of
           None \<Rightarrow> None
         | Some he \<Rightarrow> p_dictClear_loop ht (i + 1) (used - length he) (freed @ he))
      else Some freed)"
  by pat_completeness auto
termination
  by (relation "measure (\<lambda>(ht, i, used, freed). ht_size ht - i)") auto

declare p_dictClear_loop.simps [simp del]

definition p_dictClear :: "('k, 'v) dictht \<Rightarrow> (('k, 'v) dictht \<times> ('k, 'v) dictEntry list) option" where
  "p_dictClear ht = map_option (\<lambda>freed. (p_dictReset, freed)) (p_dictClear_loop ht 0 (ht_used ht) [])"

text \<open>\<open>dictRelease\<close>: the entries it frees.\<close>

definition dictRelease :: "('k, 'v) dict \<Rightarrow> ('k, 'v) dictEntry list option" where
  "dictRelease d = do {
     (t0, f0) \<leftarrow> p_dictClear (ht0 d);
     (t1, f1) \<leftarrow> p_dictClear (ht1 d);
     Some (f0 @ f1)
   }"

definition dictEmpty :: "('k, 'v) dict \<Rightarrow> (('k, 'v) dict \<times> ('k, 'v) dictEntry list) option" where
  "dictEmpty d = do {
     (t0, f0) \<leftarrow> p_dictClear (ht0 d);
     (t1, f1) \<leftarrow> p_dictClear (ht1 d);
     Some (d\<lparr>ht0 := t0, ht1 := t1, rehashidx := -1, iterators := 0\<rparr>, f0 @ f1)
   }"

section \<open>Invariant and abstraction\<close>

text \<open>Comparison and duplication of keys, as the macros of \<open>dict.h\<close> take them from a type.\<close>

definition cmp_of :: "('k, 'v) dictType \<Rightarrow> 'k \<Rightarrow> 'k \<Rightarrow> bool" where
  "cmp_of ty k1 k2 = (case keyCompare ty of Some cmp \<Rightarrow> cmp k1 k2 | None \<Rightarrow> k1 = k2)"

definition dup_of :: "('k, 'v) dictType \<Rightarrow> 'k \<Rightarrow> 'k" where
  "dup_of ty k = (case keyDup ty of Some dup \<Rightarrow> dup k | None \<Rightarrow> k)"

definition ht_ok :: "('k \<Rightarrow> u32) \<Rightarrow> ('k, 'v) dictht \<Rightarrow> bool" where
  "ht_ok hash t \<longleftrightarrow>
     length (ht_table t) = ht_size t \<and> ht_used t = length (concat (ht_table t)) \<and>
     (ht_size t = 0 \<and> ht_sizemask t = 0 \<or>
      (\<exists>k\<in>{2..31}. ht_size t = 2 ^ k) \<and> ht_sizemask t = of_nat (ht_size t) - 1) \<and>
     (\<forall>i<ht_size t. \<forall>e\<in>set (ht_table t ! i). unat (bucket_idx t (hash (de_key e))) = i)"

definition dict_entries :: "('k, 'v) dict \<Rightarrow> ('k, 'v) dictEntry list" where
  "dict_entries d = concat (ht_table (ht0 d)) @ concat (ht_table (ht1 d))"

definition uniq_keys :: "('k \<Rightarrow> 'k \<Rightarrow> bool) \<Rightarrow> ('k, 'v) dictEntry list \<Rightarrow> bool" where
  "uniq_keys cmp es = sorted_wrt (\<lambda>a b. \<not> cmp (de_key a) (de_key b)) es"

text \<open>\<open>valid\<close> is the set of keys the dictionary type is made for.\<close>

definition dict_ok :: "('k \<Rightarrow> bool) \<Rightarrow> ('k, 'v) dict \<Rightarrow> bool" where
  "dict_ok valid d \<longleftrightarrow>
     ht_ok (hashFunction (d_type d)) (ht0 d) \<and> ht_ok (hashFunction (d_type d)) (ht1 d) \<and>
     (if dictIsRehashing d
      then 0 \<le> rehashidx d \<and> rehashidx d \<le> int (ht_size (ht0 d)) \<and>
           ht_size (ht0 d) \<noteq> 0 \<and> ht_size (ht1 d) \<noteq> 0 \<and>
           (\<forall>i<nat (rehashidx d). ht_table (ht0 d) ! i = [])
      else ht_size (ht1 d) = 0) \<and>
     uniq_keys (cmp_of (d_type d)) (dict_entries d) \<and>
     (\<forall>e\<in>set (dict_entries d). valid (de_key e))"

text \<open>The map that a dictionary stands for.\<close>

definition dict_lookup :: "('k, 'v) dict \<Rightarrow> 'k \<Rightarrow> 'v option" where
  "dict_lookup d k =
     map_option de_val (find (\<lambda>e. cmp_of (d_type d) k (de_key e)) (dict_entries d))"

subsection \<open>Buckets\<close>

lemma dictCompareKeys_cmp: "dictCompareKeys d = cmp_of (d_type d)"
  by (simp add: dictCompareKeys_def cmp_of_def fun_eq_iff)

lemma bucket_idx_bound:
  assumes "ht_ok hash t" "ht_size t \<noteq> 0"
  shows "unat (bucket_idx t h) < ht_size t" "ht_size t \<le> 2 ^ 31"
proof -
  obtain k where k: "k \<le> 31" "ht_size t = 2 ^ k" "ht_sizemask t = mask k"
    using assms by (auto simp: ht_ok_def mask_eq_exp_minus_1)
  show "unat (bucket_idx t h) < ht_size t"
  proof -
    have "unat (bucket_idx t h) = unat (ucast (take_bit k (ucast h :: u64)) :: u32)"
      by (simp add: bucket_idx_def k(3) take_bit_eq_mask)
    also have "\<dots> \<le> unat (take_bit k (ucast h :: u64))"
      by (simp add: unsigned_ucast_eq take_bit_nat_less_eq_self)
    also have "\<dots> = take_bit k (unat (ucast h :: u64))"
      by (simp add: unsigned_take_bit_eq)
    also have "\<dots> < 2 ^ k" by simp
    finally show ?thesis using k(2) by simp
  qed
  show "ht_size t \<le> 2 ^ 31" using k power_increasing [of k 31 "2 :: nat"] by simp
qed

lemma sint_bucket_idx:
  assumes "ht_ok hash t" "ht_size t \<noteq> 0"
  shows "sint (bucket_idx t h) = int (unat (bucket_idx t h))"
proof -
  have "unat (bucket_idx t h) < 2 ^ 31" using bucket_idx_bound [OF assms] by (meson order_less_le_trans)
  then have "int (unat (bucket_idx t h)) < int (2 ^ 31)" by (simp only: of_nat_less_iff)
  then show ?thesis
    using sint_of_int_range [where x = "int (unat (bucket_idx t h))" and ?'a = 32]
    uint_ge_0 [of "bucket_idx t h"] by (simp add: order_trans [of "-2147483648" 0])
qed

lemma mset_concat_update:
  "i < length tb \<Longrightarrow> mset (concat (tb[i := b])) + mset (tb ! i) = mset (concat tb) + mset b"
proof (induction tb arbitrary: i)
  case (Cons c tb)
  then show ?case by (cases i) (auto simp: add.assoc add.commute)
qed simp

lemma length_concat_update:
  assumes "i < length tb"
  shows "length (concat (tb[i := b])) + length (tb ! i) = length (concat tb) + length b"
  using arg_cong [OF mset_concat_update [OF assms, of b], of size] by simp

lemma set_bucket: "i < length tb \<Longrightarrow> e \<in> set (tb ! i) \<Longrightarrow> e \<in> set (concat tb)"
  by auto

text \<open>Writing a bucket keeps a table well formed.\<close>

lemma ht_ok_bucket:
  assumes "ht_ok hash t" "i < ht_size t"
    and "\<And>e. e \<in> set b \<Longrightarrow> unat (bucket_idx t (hash (de_key e))) = i"
    and "u + length (ht_table t ! i) = ht_used t + length b"
  shows "ht_ok hash (t\<lparr>ht_table := (ht_table t)[i := b], ht_used := u\<rparr>)"
  using assms length_concat_update [of i "ht_table t" b]
  by (auto simp: ht_ok_def bucket_idx_def nth_list_update)

lemma ht_ok_reset [simp]: "ht_ok hash p_dictReset"
  by (simp add: ht_ok_def p_dictReset_def)

lemma ht_reset_simps [simp]:
  "ht_table p_dictReset = []" "ht_size p_dictReset = 0" "ht_used p_dictReset = 0"
  by (simp_all add: p_dictReset_def)

lemma ht_ok_length: "ht_ok hash t \<Longrightarrow> length (ht_table t) = ht_size t"
  by (simp add: ht_ok_def)

lemma ht_ok_used: "ht_ok hash t \<Longrightarrow> ht_used t = length (concat (ht_table t))"
  by (simp add: ht_ok_def)

lemma ht_ok_table_nil: "ht_ok hash t \<Longrightarrow> (ht_table t = []) = (ht_size t = 0)"
  by (metis ht_ok_length length_0_conv)

lemma ht_ok_hash:
  "ht_ok hash t \<Longrightarrow> i < ht_size t \<Longrightarrow> e \<in> set (ht_table t ! i) \<Longrightarrow> unat (bucket_idx t (hash (de_key e))) = i"
  by (simp add: ht_ok_def)

subsection \<open>Incremental rehashing\<close>

text \<open>What the operations that only move entries keep.\<close>

definition same_content :: "('k, 'v) dict \<Rightarrow> ('k, 'v) dict \<Rightarrow> bool" where
  "same_content d d' \<longleftrightarrow>
     mset (dict_entries d') = mset (dict_entries d) \<and> d_type d' = d_type d \<and> iterators d' = iterators d"

lemma same_content_refl [simp]: "same_content d d"
  by (simp add: same_content_def)

lemma same_content_trans: "same_content d d' \<Longrightarrow> same_content d' d'' \<Longrightarrow> same_content d d''"
  by (simp add: same_content_def)

lemma same_content_set: "same_content d d' \<Longrightarrow> set (dict_entries d') = set (dict_entries d)"
  by (metis same_content_def set_mset_mset)

lemma rehash_skip_Some:
  assumes "i \<le> j" "j < length tb" "tb ! j \<noteq> []" "\<And>k. i \<le> k \<Longrightarrow> k < j \<Longrightarrow> tb ! k = []"
  shows "rehash_skip tb i = Some j"
  using assms
proof (induction tb i rule: rehash_skip.induct)
  case (1 tb i)
  show ?case
  proof (cases "i = j")
    case False
    then have "i < j" "tb ! i = []" using 1 by auto
    with 1 have "rehash_skip tb (i + 1) = Some j" by auto
    with \<open>tb ! i = []\<close> \<open>i < j\<close> 1 show ?thesis by (subst rehash_skip.simps) auto
  qed (use 1 in \<open>subst rehash_skip.simps, auto\<close>)
qed

lemma rehash_skip_exists:
  assumes "\<And>k. k < i \<Longrightarrow> tb ! k = []" "concat tb \<noteq> []"
  shows "\<exists>j\<ge>i. rehash_skip tb i = Some j \<and> j < length tb \<and> (\<forall>k<j. tb ! k = []) \<and> tb ! j \<noteq> []"
proof -
  have "\<exists>j. j < length tb \<and> tb ! j \<noteq> []" using assms(2) by (metis concat_eq_Nil_conv in_set_conv_nth)
  then obtain j where j: "j < length tb" "tb ! j \<noteq> []" "\<And>k. k < j \<Longrightarrow> \<not> (k < length tb \<and> tb ! k \<noteq> [])"
    using exists_least_iff [of "\<lambda>j. j < length tb \<and> tb ! j \<noteq> []"] by auto
  then have "i \<le> j" using assms(1) leI by blast
  moreover have "\<And>k. k < j \<Longrightarrow> tb ! k = []" using j by (meson less_trans)
  ultimately show ?thesis using j rehash_skip_Some [of i j tb] by blast
qed

lemma rehash_move_ok:
  assumes "ht_ok (hashFunction (d_type d)) (ht1 d)" "ht_size (ht1 d) \<noteq> 0"
  shows "\<exists>t. rehash_move d des =
           Some (d\<lparr>ht1 := t, ht0 := (ht0 d)\<lparr>ht_used := ht_used (ht0 d) - length des\<rparr>\<rparr>) \<and>
         ht_ok (hashFunction (d_type d)) t \<and> ht_size t = ht_size (ht1 d) \<and>
         mset (concat (ht_table t)) = mset (concat (ht_table (ht1 d))) + mset des"
  using assms
proof (induction des arbitrary: d)
  case (Cons de des)
  define i where "i = unat (bucket_idx (ht1 d) (dictHashKey d (de_key de)))"
  define t where "t = (ht1 d)\<lparr>ht_table := (ht_table (ht1 d))[i := de # ht_table (ht1 d) ! i],
                      ht_used := ht_used (ht1 d) + 1\<rparr>"
  define d1 where "d1 = d\<lparr>ht1 := t, ht0 := (ht0 d)\<lparr>ht_used := ht_used (ht0 d) - 1\<rparr>\<rparr>"
  have i: "i < ht_size (ht1 d)" unfolding i_def by (rule bucket_idx_bound [OF Cons.prems])
  then have il: "i < length (ht_table (ht1 d))" using Cons.prems by (simp add: ht_ok_length)
  have b: "unat (bucket_idx (ht1 d) (hashFunction (d_type d) (de_key e))) = i"
    if "e \<in> set (de # ht_table (ht1 d) ! i)" for e
    using that ht_ok_hash [OF Cons.prems(1) i] by (auto simp: i_def dictHashKey_def)
  have t: "ht_ok (hashFunction (d_type d1)) t" "ht_size t \<noteq> 0"
    using ht_ok_bucket [OF Cons.prems(1) i, of "de # ht_table (ht1 d) ! i" "ht_used (ht1 d) + 1"] b
      Cons.prems(2) by (simp_all add: t_def d1_def)
  have ms: "mset (concat (ht_table t)) = mset (concat (ht_table (ht1 d))) + {#de#}"
    using mset_concat_update [OF il, of "de # ht_table (ht1 d) ! i"] by (simp add: t_def)
  have step: "rehash_move d (de # des) = rehash_move d1 des"
    using il by (simp add: i_def [symmetric] Let_def rd_ok wr_ok d1_def t_def)
  have "ht1 d1 = t" by (simp add: d1_def)
  with Cons.IH [of d1] t obtain t' where t':
    "rehash_move d1 des = Some (d1\<lparr>ht1 := t', ht0 := (ht0 d1)\<lparr>ht_used := ht_used (ht0 d1) - length des\<rparr>\<rparr>)"
    "ht_ok (hashFunction (d_type d1)) t'" "ht_size t' = ht_size t"
    "mset (concat (ht_table t')) = mset (concat (ht_table t)) + mset des" by auto
  have "d1\<lparr>ht1 := t', ht0 := (ht0 d1)\<lparr>ht_used := ht_used (ht0 d1) - length des\<rparr>\<rparr> =
        d\<lparr>ht1 := t', ht0 := (ht0 d)\<lparr>ht_used := ht_used (ht0 d) - length (de # des)\<rparr>\<rparr>"
    by (simp add: d1_def)
  moreover have "d_type d1 = d_type d" "ht_size t = ht_size (ht1 d)" by (simp_all add: d1_def t_def)
  ultimately show ?case unfolding step t'(1) using t' ms by auto
next
  case Nil
  then show ?case by (intro exI [of _ "ht1 d"]) simp
qed

text \<open>A permutation of the entries keeps keys unique, for a comparison that is an equivalence on
  the valid keys.\<close>

definition cmp_equiv :: "('k \<Rightarrow> bool) \<Rightarrow> ('k \<Rightarrow> 'k \<Rightarrow> bool) \<Rightarrow> bool" where
  "cmp_equiv valid cmp \<longleftrightarrow>
     (\<forall>a. valid a \<longrightarrow> cmp a a) \<and> (\<forall>a b. valid a \<longrightarrow> valid b \<longrightarrow> cmp a b \<longrightarrow> cmp b a) \<and>
     (\<forall>a b c. valid a \<longrightarrow> valid b \<longrightarrow> valid c \<longrightarrow> cmp a b \<longrightarrow> cmp b c \<longrightarrow> cmp a c)"

abbreviation key_class :: "('k \<Rightarrow> bool) \<Rightarrow> ('k \<Rightarrow> 'k \<Rightarrow> bool) \<Rightarrow> ('k, 'v) dictEntry \<Rightarrow> 'k set" where
  "key_class valid cmp e \<equiv> {k. valid k \<and> cmp (de_key e) k}"

lemma key_class_eq:
  assumes "cmp_equiv valid cmp" "valid (de_key a)" "valid (de_key b)"
  shows "(key_class valid cmp a = key_class valid cmp b) = cmp (de_key a) (de_key b)"
  using assms unfolding cmp_equiv_def by (safe; blast)

lemma uniq_keys_distinct:
  assumes "cmp_equiv valid cmp" "\<forall>e\<in>set es. valid (de_key e)"
  shows "uniq_keys cmp es = distinct (map (key_class valid cmp) es)"
  using assms(2)
proof (induction es)
  case (Cons e es)
  have "(\<forall>b\<in>set es. \<not> cmp (de_key e) (de_key b)) = (key_class valid cmp e \<notin> key_class valid cmp ` set es)"
    unfolding image_iff using key_class_eq [OF assms(1)] Cons.prems by (metis list.set_intros)
  with Cons show ?case by (simp add: uniq_keys_def)
qed (simp add: uniq_keys_def)

lemma uniq_keys_mset:
  assumes "cmp_equiv valid cmp" "\<forall>e\<in>set es. valid (de_key e)" "mset es' = mset es"
  shows "uniq_keys cmp es' = uniq_keys cmp es"
proof -
  have "set es' = set es" by (metis assms(3) set_mset_mset)
  moreover have "mset (map (key_class valid cmp) es') = mset (map (key_class valid cmp) es)"
    using assms(3) by simp
  ultimately show ?thesis
    using assms uniq_keys_distinct [OF assms(1)] mset_eq_imp_distinct_iff by (metis (no_types))
qed

lemma uniq_keys_find:
  assumes "cmp_equiv valid cmp" "\<forall>e\<in>set es. valid (de_key e)" "uniq_keys cmp es" "valid k"
    and "e \<in> set es" "cmp k (de_key e)"
  shows "find (\<lambda>e. cmp k (de_key e)) es = Some e"
  using assms
proof (induction es)
  case (Cons a es)
  show ?case
  proof (cases "cmp k (de_key a)")
    case True
    have "e = a"
    proof (rule ccontr)
      assume "e \<noteq> a"
      then have "e \<in> set es" "\<not> cmp (de_key a) (de_key e)" using Cons.prems by (auto simp: uniq_keys_def)
      moreover have v: "valid (de_key a)" "valid (de_key e)" using Cons.prems(2) calculation by auto
      moreover have "cmp (de_key a) k" using Cons.prems(1,4) True v unfolding cmp_equiv_def by blast
      ultimately show False using Cons.prems(1,4,6) v unfolding cmp_equiv_def by blast
    qed
    with True show ?thesis by simp
  next
    case False
    with Cons show ?thesis by (auto simp: uniq_keys_def)
  qed
qed simp

lemma dict_ok_same_content:
  assumes "cmp_equiv valid (cmp_of (d_type d))" "dict_ok valid d" "same_content d d'"
  shows "uniq_keys (cmp_of (d_type d')) (dict_entries d')" "\<forall>e\<in>set (dict_entries d'). valid (de_key e)"
proof -
  have d: "uniq_keys (cmp_of (d_type d)) (dict_entries d)" "\<forall>e\<in>set (dict_entries d). valid (de_key e)"
    using assms(2) by (auto simp: dict_ok_def)
  then show "\<forall>e\<in>set (dict_entries d'). valid (de_key e)" using same_content_set [OF assms(3)] by simp
  show "uniq_keys (cmp_of (d_type d')) (dict_entries d')"
    using uniq_keys_mset [OF assms(1) d(2), of "dict_entries d'"] assms(3) d by (simp add: same_content_def)
qed

lemma dict_lookup_iff:
  assumes "cmp_equiv valid (cmp_of (d_type d))" "dict_ok valid d" "valid k"
  shows "dict_lookup d k = Some v \<longleftrightarrow>
         (\<exists>e\<in>set (dict_entries d). cmp_of (d_type d) k (de_key e) \<and> de_val e = v)"
proof
  assume "dict_lookup d k = Some v"
  then show "\<exists>e\<in>set (dict_entries d). cmp_of (d_type d) k (de_key e) \<and> de_val e = v"
    by (auto simp: dict_lookup_def find_Some_iff)
next
  assume "\<exists>e\<in>set (dict_entries d). cmp_of (d_type d) k (de_key e) \<and> de_val e = v"
  then obtain e where e: "e \<in> set (dict_entries d)" "cmp_of (d_type d) k (de_key e)" "de_val e = v" by blast
  have "find (\<lambda>e. cmp_of (d_type d) k (de_key e)) (dict_entries d) = Some e"
    by (rule uniq_keys_find [OF assms(1) _ _ assms(3) e(1,2)]) (use assms(2) in \<open>simp_all add: dict_ok_def\<close>)
  with e(3) show "dict_lookup d k = Some v" by (simp add: dict_lookup_def)
qed

lemma dict_lookup_None:
  "dict_lookup d k = None \<longleftrightarrow> (\<forall>e\<in>set (dict_entries d). \<not> cmp_of (d_type d) k (de_key e))"
  by (auto simp: dict_lookup_def find_None_iff)

lemma same_content_lookup:
  assumes "cmp_equiv valid (cmp_of (d_type d))" "dict_ok valid d" "dict_ok valid d'"
    "same_content d d'" "valid k"
  shows "dict_lookup d' k = dict_lookup d k"
proof -
  have ty: "d_type d' = d_type d" using assms(4) by (simp add: same_content_def)
  have "dict_lookup d' k = Some v \<longleftrightarrow> dict_lookup d k = Some v" for v
    using dict_lookup_iff [OF assms(1,2,5), of v] dict_lookup_iff [of valid d' k v] assms(1,3,5)
      same_content_set [OF assms(4)] by (simp add: ty)
  then show ?thesis by (metis not_None_eq)
qed

lemma dictRehash_loop_ok:
  assumes "cmp_equiv valid (cmp_of (d_type d))" "dict_ok valid d" "dictIsRehashing d"
  shows "\<exists>d'. dictRehash_loop d n = Some (d', dictIsRehashing d') \<and> dict_ok valid d' \<and>
         same_content d d' \<and> ht_size (ht0 d') \<noteq> 0 \<and>
         (dictIsRehashing d' \<longrightarrow> rehashidx d' \<ge> rehashidx d + int n \<and> ht_size (ht0 d') = ht_size (ht0 d))"
  using assms
proof (induction n arbitrary: d)
  case (Suc n)
  note ok = Suc.prems
  have h: "ht_ok (hashFunction (d_type d)) (ht0 d)" "ht_ok (hashFunction (d_type d)) (ht1 d)"
    "0 \<le> rehashidx d" "ht_size (ht0 d) \<noteq> 0" "ht_size (ht1 d) \<noteq> 0"
    "\<And>i. i < nat (rehashidx d) \<Longrightarrow> ht_table (ht0 d) ! i = []"
    using ok by (auto simp: dict_ok_def)
  show ?case
  proof (cases "ht_used (ht0 d) = 0")
    case True
    define d' where "d' = d\<lparr>ht0 := ht1 d, ht1 := p_dictReset, rehashidx := -1\<rparr>"
    have "concat (ht_table (ht0 d)) = []" using ht_ok_used [OF h(1)] True by simp
    then have sc: "same_content d d'" by (simp add: same_content_def dict_entries_def d'_def)
    have "\<not> dictIsRehashing d'" by (simp add: d'_def dictIsRehashing_def)
    moreover have "dict_ok valid d'"
      using dict_ok_same_content [OF ok(1,2) sc] h(2) calculation
      by (simp add: dict_ok_def d'_def)
    moreover have "dictRehash_loop d (Suc n) = Some (d', False)" using True by (simp add: d'_def)
    moreover have "ht_size (ht0 d') \<noteq> 0" using h(5) by (simp add: d'_def)
    ultimately show ?thesis using sc by auto
  next
    case False
    then have "concat (ht_table (ht0 d)) \<noteq> []" using ht_ok_used [OF h(1)] by simp
    then obtain i where i: "nat (rehashidx d) \<le> i" "rehash_skip (ht_table (ht0 d)) (nat (rehashidx d)) = Some i"
      "i < length (ht_table (ht0 d))" "\<And>k. k < i \<Longrightarrow> ht_table (ht0 d) ! k = []"
      using rehash_skip_exists h(6) by blast
    define des where "des = ht_table (ht0 d) ! i"
    obtain t where t: "rehash_move (d\<lparr>rehashidx := int i\<rparr>) des =
           Some (d\<lparr>rehashidx := int i, ht1 := t, ht0 := (ht0 d)\<lparr>ht_used := ht_used (ht0 d) - length des\<rparr>\<rparr>)"
      "ht_ok (hashFunction (d_type d)) t" "ht_size t = ht_size (ht1 d)"
      "mset (concat (ht_table t)) = mset (concat (ht_table (ht1 d))) + mset des"
      using rehash_move_ok [of "d\<lparr>rehashidx := int i\<rparr>" des] h by auto
    define d1 where "d1 = d\<lparr>ht1 := t, ht0 := (ht0 d)\<lparr>ht_used := ht_used (ht0 d) - length des,
                         ht_table := (ht_table (ht0 d))[i := []]\<rparr>, rehashidx := int i + 1\<rparr>"
    have step: "dictRehash_loop d (Suc n) = dictRehash_loop d1 n"
      using False i t(1) h(3) ht_ok_length [OF h(1)] by (simp add: rd_ok wr_ok des_def [symmetric] d1_def)
    have a: "mset (concat ((ht_table (ht0 d))[i := []])) + mset des = mset (concat (ht_table (ht0 d)))"
      using mset_concat_update [OF i(3), of "[]"] by (simp add: des_def)
    have sc: "same_content d d1"
      by (simp add: same_content_def dict_entries_def d1_def t(4) a [symmetric] del: mset_concat)
    have e0: "ht0 d1 = (ht0 d)\<lparr>ht_table := (ht_table (ht0 d))[i := []], ht_used := ht_used (ht0 d) - length des\<rparr>"
      by (simp add: d1_def)
    have "ht_ok (hashFunction (d_type d)) (ht0 d1)"
      unfolding e0 using ht_ok_bucket [OF h(1), of i "[]" "ht_used (ht0 d) - length des"] i(3)
        ht_ok_length [OF h(1)] ht_ok_used [OF h(1)] length_concat_update [OF i(3), of "[]"]
      by (simp add: des_def)
    moreover have rh: "dictIsRehashing d1" by (simp add: d1_def dictIsRehashing_def)
    moreover have "\<forall>k<Suc i. (ht_table (ht0 d))[i := []] ! k = []"
      using i(3,4) by (auto simp: nth_list_update less_Suc_eq)
    ultimately have ok1: "dict_ok valid d1"
      using dict_ok_same_content [OF ok(1,2) sc] h t(2,3) i(3) ht_ok_length [OF h(1)]
      unfolding dict_ok_def by (simp add: d1_def nat_add_distrib)
    have eq1: "cmp_equiv valid (cmp_of (d_type d1))" using ok(1) by (simp add: d1_def)
    have rs: "rehashidx d1 \<ge> rehashidx d + 1" "ht_size (ht0 d1) = ht_size (ht0 d)"
      using i(1) by (auto simp: d1_def)
    obtain d' where "dictRehash_loop d1 n = Some (d', dictIsRehashing d')" "dict_ok valid d'" "same_content d1 d'"
      "ht_size (ht0 d') \<noteq> 0" "dictIsRehashing d' \<longrightarrow> rehashidx d' \<ge> rehashidx d1 + int n \<and> ht_size (ht0 d') = ht_size (ht0 d1)"
      using Suc.IH [OF eq1 ok1 rh] by blast
    then show ?thesis unfolding step using same_content_trans [OF sc] rs by auto
  qed
qed (auto simp: dictIsRehashing_def dict_ok_def)

subsection \<open>Expansion\<close>

lemma p_dictNextPower_loop_pow:
  assumes "sz \<le> 2 ^ n" "j \<le> n"
  shows "\<exists>k\<ge>j. p_dictNextPower_loop sz (2 ^ j) = 2 ^ k \<and> k \<le> n \<and> sz \<le> 2 ^ k \<and> (k = j \<or> 2 ^ (k - 1) < sz)"
  using assms
proof (induction "n - j" arbitrary: j)
  case 0
  then have "j = n" by simp
  with 0 show ?case by (auto simp: p_dictNextPower_loop.simps)
next
  case (Suc m)
  show ?case
  proof (cases "sz \<le> 2 ^ j")
    case True
    with Suc show ?thesis by (subst p_dictNextPower_loop.simps) auto
  next
    case False
    then have "\<exists>k\<ge>Suc j. p_dictNextPower_loop sz (2 ^ Suc j) = 2 ^ k \<and> k \<le> n \<and> sz \<le> 2 ^ k \<and>
        (k = Suc j \<or> 2 ^ (k - 1) < sz)"
      using Suc by (intro Suc.hyps) auto
    then obtain k where k: "Suc j \<le> k" "p_dictNextPower_loop sz (2 ^ Suc j) = 2 ^ k" "k \<le> n" "sz \<le> 2 ^ k"
      "k = Suc j \<or> 2 ^ (k - 1) < sz" by blast
    have "p_dictNextPower_loop sz (2 ^ j) = p_dictNextPower_loop sz (2 ^ Suc j)"
      using False by (subst p_dictNextPower_loop.simps) (simp add: mult.commute)
    with k False show ?thesis by (intro exI [of _ k]) auto
  qed
qed

lemma p_dictNextPower_pow:
  assumes "sz \<le> 2 ^ 31"
  shows "\<exists>k\<in>{2..31}. p_dictNextPower sz = 2 ^ k \<and> sz \<le> 2 ^ k \<and> (k = 2 \<or> 2 ^ (k - 1) < sz)"
proof -
  have "\<not> sz \<ge> 2 ^ 63 - 1" using assms by simp
  with p_dictNextPower_loop_pow [OF assms, of 2] show ?thesis by (auto simp: p_dictNextPower_def)
qed

lemma dictExpand_ok:
  assumes "dict_ok valid d" "sz \<le> 2 ^ 31"
  shows "\<exists>d' ok. dictExpand d sz = (d', ok) \<and> ok = (\<not> dictIsRehashing d \<and> ht_used (ht0 d) \<le> sz) \<and>
         dict_ok valid d' \<and> same_content d d' \<and> (ok \<longrightarrow> ht_size (ht0 d') \<noteq> 0)"
proof (cases "dictIsRehashing d \<or> ht_used (ht0 d) > sz")
  case True
  with assms show ?thesis by (auto simp: dictExpand_def Let_def)
next
  case False
  obtain k where k: "k \<in> {2..31}" "p_dictNextPower sz = 2 ^ k" using p_dictNextPower_pow [OF assms(2)] by blast
  define n :: "('a, 'b) dictht" where "n = \<lparr>ht_table = replicate (2 ^ k) [], ht_size = 2 ^ k,
                    ht_sizemask = of_nat (2 ^ k) - 1, ht_used = 0\<rparr>"
  have n: "ht_ok (hashFunction (d_type d)) n" "ht_size n = 2 ^ k" "concat (ht_table n) = []"
    using k by (auto simp: n_def ht_ok_def)
  have d: "ht_ok (hashFunction (d_type d)) (ht0 d)" "ht_ok (hashFunction (d_type d)) (ht1 d)"
    "ht_size (ht1 d) = 0" "uniq_keys (cmp_of (d_type d)) (dict_entries d)"
    "\<forall>e\<in>set (dict_entries d). valid (de_key e)"
    using assms(1) False by (auto simp: dict_ok_def)
  show ?thesis
  proof (cases "ht_table (ht0 d) = []")
    case True
    define d' where "d' = d\<lparr>ht0 := n\<rparr>"
    have e: "dict_entries d' = dict_entries d" using True n(3) by (simp add: dict_entries_def d'_def)
    then have "dict_ok valid d'" "same_content d d'" "ht_size (ht0 d') \<noteq> 0"
      using d n False by (auto simp: dict_ok_def d'_def same_content_def dictIsRehashing_def)
    moreover have "dictExpand d sz = (d', True)"
      using False True k by (simp add: dictExpand_def Let_def d'_def n_def)
    ultimately show ?thesis using False by auto
  next
    case nz: False
    define d' where "d' = d\<lparr>ht1 := n, rehashidx := 0\<rparr>"
    have "ht_table (ht1 d) = []" using d(3) ht_ok_table_nil [OF d(2)] by simp
    then have e: "dict_entries d' = dict_entries d" using n(3) by (simp add: dict_entries_def d'_def)
    have "ht_size (ht0 d) \<noteq> 0" using ht_ok_table_nil [OF d(1)] nz by simp
    with e have "dict_ok valid d'" "same_content d d'" "ht_size (ht0 d') \<noteq> 0"
      using d n False by (auto simp: dict_ok_def d'_def same_content_def dictIsRehashing_def)
    moreover have "dictExpand d sz = (d', True)"
      using False nz k by (simp add: dictExpand_def Let_def d'_def n_def)
    ultimately show ?thesis using False by auto
  qed
qed

lemma p_dictExpandIfNeeded_ok:
  assumes "dict_ok valid d" "ht_used (ht0 d) \<le> 2 ^ 30"
  shows "\<exists>d'. p_dictExpandIfNeeded can_resize d = (d', True) \<and> dict_ok valid d' \<and> same_content d d' \<and>
         ht_size (ht0 d') \<noteq> 0"
proof (cases "dictIsRehashing d")
  case True
  with assms show ?thesis by (auto simp: p_dictExpandIfNeeded_def dict_ok_def)
next
  case nr: False
  have u: "ht_used (ht0 d) = length (concat (ht_table (ht0 d)))" "length (ht_table (ht0 d)) = ht_size (ht0 d)"
    using assms(1) by (auto simp: dict_ok_def ht_ok_def)
  consider "ht_size (ht0 d) = 0" | "ht_size (ht0 d) \<noteq> 0" "p_dictExpandIfNeeded can_resize d = (d, True)"
    | "ht_size (ht0 d) \<noteq> 0" "p_dictExpandIfNeeded can_resize d = dictExpand d (ht_used (ht0 d) * 2)"
    using nr unfolding p_dictExpandIfNeeded_def by (meson)
  then show ?thesis
  proof cases
    case 1
    then have "ht_used (ht0 d) = 0" using u by simp
    with 1 nr show ?thesis using dictExpand_ok [OF assms(1), of 4] by (auto simp: p_dictExpandIfNeeded_def)
  next
    case 2
    with assms show ?thesis by auto
  next
    case 3
    with nr show ?thesis using dictExpand_ok [OF assms(1), of "ht_used (ht0 d) * 2"] assms(2) by auto
  qed
qed

lemma dictSize_entries: "dict_ok valid d \<Longrightarrow> dictSize d = length (dict_entries d)"
  by (simp add: dict_ok_def ht_ok_def dictSize_def dict_entries_def)

lemma same_content_size: "dict_ok valid d \<Longrightarrow> dict_ok valid d' \<Longrightarrow> same_content d d' \<Longrightarrow> dictSize d' = dictSize d"
  by (metis dictSize_entries same_content_def size_mset)

subsection \<open>Buckets of a dictionary\<close>

lemma he_find_None: "he_find d key chain = None \<longleftrightarrow> (\<forall>e\<in>set chain. \<not> cmp_of (d_type d) key (de_key e))"
  by (induction chain) (auto simp: dictCompareKeys_cmp)

lemma he_find_Some: "he_find d key chain = Some p \<Longrightarrow> p < length chain \<and> cmp_of (d_type d) key (de_key (chain ! p))"
  by (induction chain arbitrary: p) (auto simp: dictCompareKeys_cmp split: if_splits)

text \<open>The places of entries, and the dictionary with one bucket replaced.\<close>

definition bucket_ok :: "('k, 'v) dict \<Rightarrow> nat \<Rightarrow> nat \<Rightarrow> bool" where
  "bucket_ok d tbl idx \<longleftrightarrow>
     tbl \<le> 1 \<and> (tbl = 1 \<longrightarrow> dictIsRehashing d) \<and> idx < ht_size (get_ht d tbl)"

definition put_bucket :: "('k, 'v) dict \<Rightarrow> nat \<Rightarrow> nat \<Rightarrow> ('k, 'v) dictEntry list \<Rightarrow> nat \<Rightarrow> ('k, 'v) dict" where
  "put_bucket d tbl idx b u =
     put_ht d tbl ((get_ht d tbl)\<lparr>ht_table := (ht_table (get_ht d tbl))[idx := b], ht_used := u\<rparr>)"

lemma put_bucket_simps [simp]:
  "d_type (put_bucket d tbl idx b u) = d_type d" "iterators (put_bucket d tbl idx b u) = iterators d"
  "rehashidx (put_bucket d tbl idx b u) = rehashidx d"
  "dictIsRehashing (put_bucket d tbl idx b u) = dictIsRehashing d"
  "ht_size (ht0 (put_bucket d tbl idx b u)) = ht_size (ht0 d)"
  "ht_size (ht1 (put_bucket d tbl idx b u)) = ht_size (ht1 d)"
  "dictSetVal (put_bucket d tbl idx b u) v = dictSetVal d v"
  by (simp_all add: put_bucket_def put_ht_def get_ht_def dictIsRehashing_def dictSetVal_def)

lemma bucket_ok_length: "dict_ok valid d \<Longrightarrow> bucket_ok d tbl idx \<Longrightarrow> idx < length (ht_table (get_ht d tbl))"
  by (auto simp: bucket_ok_def dict_ok_def get_ht_def ht_ok_length split: if_splits)

lemma put_bucket_mset:
  assumes "dict_ok valid d" "bucket_ok d tbl idx"
  shows "mset (dict_entries (put_bucket d tbl idx b u)) + mset (ht_table (get_ht d tbl) ! idx) =
         mset (dict_entries d) + mset b"
  using mset_concat_update [OF bucket_ok_length [OF assms], of b]
  by (auto simp: dict_entries_def put_bucket_def put_ht_def get_ht_def add.assoc add.commute add.left_commute
      simp del: mset_concat split: if_splits)

lemma put_bucket_ok:
  assumes d: "dict_ok valid d" and b: "bucket_ok d tbl idx"
    and h: "\<And>e. e \<in> set b \<Longrightarrow> unat (bucket_idx (get_ht d tbl) (hashFunction (d_type d) (de_key e))) = idx"
    and u: "u + length (ht_table (get_ht d tbl) ! idx) = ht_used (get_ht d tbl) + length b"
    and r: "tbl = 0 \<Longrightarrow> dictIsRehashing d \<Longrightarrow> ht_table (ht0 d) ! idx \<noteq> []"
    and un: "uniq_keys (cmp_of (d_type d)) (dict_entries (put_bucket d tbl idx b u))"
    and v: "\<forall>e\<in>set (dict_entries (put_bucket d tbl idx b u)). valid (de_key e)"
  shows "dict_ok valid (put_bucket d tbl idx b u)"
proof -
  have ht: "ht_ok (hashFunction (d_type d)) (get_ht d tbl)" using d by (auto simp: dict_ok_def get_ht_def)
  have t: "ht_ok (hashFunction (d_type d))
      ((get_ht d tbl)\<lparr>ht_table := (ht_table (get_ht d tbl))[idx := b], ht_used := u\<rparr>)"
    using b h u by (intro ht_ok_bucket [OF ht]) (auto simp: bucket_ok_def)
  have r': "(ht_table (ht0 d))[idx := b] ! i = []" if "tbl = 0" "dictIsRehashing d" "i < nat (rehashidx d)" for i
  proof -
    have "ht_table (ht0 d) ! i = []" using that d by (auto simp: dict_ok_def)
    then have "i \<noteq> idx" using r that by auto
    with \<open>ht_table (ht0 d) ! i = []\<close> show ?thesis by (simp add: nth_list_update)
  qed
  show ?thesis
  proof (cases "tbl = 0")
    case True
    then have "ht0 (put_bucket d tbl idx b u) = (get_ht d tbl)\<lparr>ht_table := (ht_table (get_ht d tbl))[idx := b], ht_used := u\<rparr>"
      "ht1 (put_bucket d tbl idx b u) = ht1 d" by (simp_all add: put_bucket_def put_ht_def)
    with True t un v d r' show ?thesis unfolding dict_ok_def by (auto simp: get_ht_def split: if_splits)
  next
    case False
    then have "ht1 (put_bucket d tbl idx b u) = (get_ht d tbl)\<lparr>ht_table := (ht_table (get_ht d tbl))[idx := b], ht_used := u\<rparr>"
      "ht0 (put_bucket d tbl idx b u) = ht0 d" by (simp_all add: put_bucket_def put_ht_def)
    with False t un v d show ?thesis unfolding dict_ok_def by (auto simp: get_ht_def split: if_splits)
  qed
qed

section \<open>The contract of a dictionary type\<close>

text \<open>What \<open>dict.c\<close> relies on in a \<open>dictType\<close>, for the keys in \<open>valid\<close>: the comparison is an
  equivalence, equal keys have equal hashes, and the stored copy of a key equals the key.\<close>

locale dictType_contract =
  fixes ty :: "('k, 'v) dictType" and valid :: "'k \<Rightarrow> bool"
  assumes cmp_equiv: "cmp_equiv valid (cmp_of ty)"
    and cmp_hash: "valid a \<Longrightarrow> valid b \<Longrightarrow> cmp_of ty a b \<Longrightarrow> hashFunction ty a = hashFunction ty b"
    and dup_ok: "valid a \<Longrightarrow> valid (dup_of ty a) \<and> cmp_of ty a (dup_of ty a)"
begin

lemma cmp_refl: "valid a \<Longrightarrow> cmp_of ty a a"
  and cmp_sym: "valid a \<Longrightarrow> valid b \<Longrightarrow> cmp_of ty a b \<Longrightarrow> cmp_of ty b a"
  and cmp_trans: "valid a \<Longrightarrow> valid b \<Longrightarrow> valid c \<Longrightarrow> cmp_of ty a b \<Longrightarrow> cmp_of ty b c \<Longrightarrow> cmp_of ty a c"
  using cmp_equiv unfolding cmp_equiv_def by blast+

lemma cmp_eq: "valid a \<Longrightarrow> valid b \<Longrightarrow> valid c \<Longrightarrow> cmp_of ty a b \<Longrightarrow> cmp_of ty c a = cmp_of ty c b"
  using cmp_sym cmp_trans by blast

definition good :: "('k, 'v) dict \<Rightarrow> bool" where
  "good d \<longleftrightarrow> dict_ok valid d \<and> d_type d = ty"

lemma good_entries:
  assumes "good d"
  shows "uniq_keys (cmp_of ty) (dict_entries d)" "\<And>e. e \<in> set (dict_entries d) \<Longrightarrow> valid (de_key e)"
  using assms by (auto simp: good_def dict_ok_def)

lemma lookup_perm:
  assumes "good d" "mset es = mset (dict_entries d)" "valid k"
  shows "dict_lookup d k = map_option de_val (find (\<lambda>e. cmp_of ty k (de_key e)) es)"
proof -
  have e: "uniq_keys (cmp_of ty) (dict_entries d)" "\<forall>e\<in>set (dict_entries d). valid (de_key e)"
    using good_entries [OF assms(1)] by auto
  have s: "set es = set (dict_entries d)" by (metis assms(2) set_mset_mset)
  have u: "uniq_keys (cmp_of ty) es" using uniq_keys_mset [OF cmp_equiv e(2) assms(2)] e(1) by simp
  have "find (\<lambda>e. cmp_of ty k (de_key e)) (dict_entries d) = find (\<lambda>e. cmp_of ty k (de_key e)) es"
  proof (cases "find (\<lambda>e. cmp_of ty k (de_key e)) es")
    case None
    then have "find (\<lambda>e. cmp_of ty k (de_key e)) (dict_entries d) = None" using s by (simp add: find_None_iff)
    with None show ?thesis by simp
  next
    case (Some x)
    then have "x \<in> set (dict_entries d)" "cmp_of ty k (de_key x)" using s by (auto simp: find_Some_iff)
    then show ?thesis using Some uniq_keys_find [OF cmp_equiv e(2,1) assms(3)] by auto
  qed
  then show ?thesis using assms(1) by (simp add: dict_lookup_def good_def)
qed

lemma good_same_lookup:
  "good d \<Longrightarrow> good d' \<Longrightarrow> same_content d d' \<Longrightarrow> valid k \<Longrightarrow> dict_lookup d' k = dict_lookup d k"
  using same_content_lookup [of valid d d' k] cmp_equiv by (simp add: good_def)

lemma good_same: "good d \<Longrightarrow> dict_ok valid d' \<Longrightarrow> same_content d d' \<Longrightarrow> good d'"
  by (simp add: good_def same_content_def)

lemma dictRehash_ok:
  assumes "good d"
  shows "\<exists>d'. dictRehash d n = Some (d', dictIsRehashing d') \<and> good d' \<and> same_content d d' \<and>
         (dictIsRehashing d \<longrightarrow> ht_size (ht0 d') \<noteq> 0) \<and>
         (dictIsRehashing d' \<longrightarrow> dictIsRehashing d \<and> rehashidx d' \<ge> rehashidx d + int n \<and>
            ht_size (ht0 d') = ht_size (ht0 d))"
proof (cases "dictIsRehashing d")
  case True
  then show ?thesis
    using dictRehash_loop_ok [of valid d n] cmp_equiv assms good_same [OF assms]
    by (auto simp: dictRehash_def good_def)
qed (use assms in \<open>auto simp: dictRehash_def\<close>)

text \<open>A rehash ends: one call with more steps than buckets left completes it.\<close>

lemma dictRehash_completes:
  assumes "good d" "dictIsRehashing d" "rehashidx d + int n > int (ht_size (ht0 d))"
  shows "\<exists>d'. dictRehash d n = Some (d', False) \<and> \<not> dictIsRehashing d' \<and> good d' \<and> same_content d d'"
proof -
  obtain d' where d': "dictRehash d n = Some (d', dictIsRehashing d')" "good d'" "same_content d d'"
    "dictIsRehashing d' \<longrightarrow> rehashidx d' \<ge> rehashidx d + int n \<and> ht_size (ht0 d') = ht_size (ht0 d)"
    using dictRehash_ok [OF assms(1), of n] by blast
  have "\<not> dictIsRehashing d'"
  proof
    assume r: "dictIsRehashing d'"
    then have "rehashidx d' \<le> int (ht_size (ht0 d'))" using d'(2) by (auto simp: good_def dict_ok_def)
    with r d'(4) assms(3) show False by auto
  qed
  with d' show ?thesis by auto
qed

lemma rehash_first_ok:
  assumes "good d"
  shows "\<exists>d'. rehash_first d = Some d' \<and> good d' \<and> same_content d d' \<and>
         (ht_size (ht0 d) \<noteq> 0 \<longrightarrow> ht_size (ht0 d') \<noteq> 0)"
proof (cases "dictIsRehashing d \<and> iterators d = 0")
  case True
  then show ?thesis using dictRehash_ok [OF assms, of 1] by (auto simp: p_dictRehashStep_def)
qed (use assms in \<open>auto simp: p_dictRehashStep_def\<close>)

end

subsection \<open>Lookup and update under the contract\<close>

definition place_ok :: "('k, 'v) dict \<Rightarrow> 'k \<Rightarrow> place \<Rightarrow> bool" where
  "place_ok d key = (\<lambda>(tbl, idx, p).
     bucket_ok d tbl idx \<and> p < length (ht_table (get_ht d tbl) ! idx) \<and>
     cmp_of (d_type d) key (de_key (ht_table (get_ht d tbl) ! idx ! p)))"

lemma get_ht_simps: "get_ht d 0 = ht0 d" "get_ht d 1 = ht1 d"
  by (simp_all add: get_ht_def)

context dictType_contract
begin

lemma good_bucket:
  assumes "good d" "bucket_ok d tbl idx" "e \<in> set (ht_table (get_ht d tbl) ! idx)"
  shows "e \<in> set (dict_entries d)" "unat (bucket_idx (get_ht d tbl) (hashFunction ty (de_key e))) = idx"
proof -
  have ht: "ht_ok (hashFunction ty) (get_ht d tbl)" using assms(1) by (auto simp: good_def dict_ok_def get_ht_def)
  show "unat (bucket_idx (get_ht d tbl) (hashFunction ty (de_key e))) = idx"
    using ht_ok_hash [OF ht _ assms(3)] assms(2) by (simp add: bucket_ok_def)
  have "idx < length (ht_table (get_ht d tbl))" using assms bucket_ok_length by (auto simp: good_def)
  then show "e \<in> set (dict_entries d)"
    using assms(2,3) set_bucket [of idx "ht_table (get_ht d tbl)" e]
    by (auto simp: dict_entries_def get_ht_def bucket_ok_def split: if_splits)
qed

lemma table_index:
  assumes "good d" "ht_size (get_ht d tbl) \<noteq> 0" "tbl \<le> 1" "tbl = 1 \<longrightarrow> dictIsRehashing d"
  shows "bucket_ok d tbl (unat (bucket_idx (get_ht d tbl) h))"
  using assms bucket_idx_bound [of "hashFunction ty" "get_ht d tbl"]
  by (auto simp: bucket_ok_def good_def dict_ok_def get_ht_def split: if_splits)

text \<open>The bucket of a key holds every entry of the table with that key.\<close>

lemma in_own_bucket:
  assumes "good d" "valid key" "ht_size (get_ht d tbl) \<noteq> 0" "tbl \<le> 1" "tbl = 1 \<longrightarrow> dictIsRehashing d"
    and "e \<in> set (concat (ht_table (get_ht d tbl)))" "cmp_of ty key (de_key e)"
  shows "e \<in> set (ht_table (get_ht d tbl) ! unat (bucket_idx (get_ht d tbl) (hashFunction ty key)))"
proof -
  have ht: "ht_ok (hashFunction ty) (get_ht d tbl)" using assms(1) by (auto simp: good_def dict_ok_def get_ht_def)
  obtain i where i: "i < ht_size (get_ht d tbl)" "e \<in> set (ht_table (get_ht d tbl) ! i)"
    using assms(6) ht_ok_length [OF ht] by (auto simp: in_set_conv_nth [of _ "ht_table (get_ht d tbl)"])
  have "bucket_ok d tbl i" using assms i by (simp add: bucket_ok_def)
  then have "e \<in> set (dict_entries d)" using good_bucket [OF assms(1)] i(2) by blast
  then have "hashFunction ty key = hashFunction ty (de_key e)"
    using cmp_hash assms(1,2,7) good_entries by blast
  then show ?thesis using ht_ok_hash [OF ht i] i(2) by simp
qed

lemma find_in_table_ok:
  assumes "good d" "valid key" "ht_size (get_ht d tbl) \<noteq> 0" "tbl \<le> 1" "tbl = 1 \<longrightarrow> dictIsRehashing d"
  shows "\<exists>r. find_in_table d key (dictHashKey d key) tbl = Some r \<and>
         (case r of None \<Rightarrow> \<forall>e\<in>set (concat (ht_table (get_ht d tbl))). \<not> cmp_of ty key (de_key e)
          | Some p \<Rightarrow> place_ok d key p)"
proof -
  define i where "i = unat (bucket_idx (get_ht d tbl) (dictHashKey d key))"
  have ty: "d_type d = ty" using assms(1) by (simp add: good_def)
  have b: "bucket_ok d tbl i" unfolding i_def by (rule table_index [OF assms(1,3-5)])
  have l: "i < length (ht_table (get_ht d tbl))" using b assms(1) bucket_ok_length by (auto simp: good_def)
  have eq: "find_in_table d key (dictHashKey d key) tbl =
      Some (map_option (\<lambda>p. (tbl, i, p)) (he_find d key (ht_table (get_ht d tbl) ! i)))"
    using l by (simp add: find_in_table_def i_def [symmetric] Let_def rd_ok)
  show ?thesis
  proof (cases "he_find d key (ht_table (get_ht d tbl) ! i)")
    case None
    then have "\<forall>e\<in>set (concat (ht_table (get_ht d tbl))). \<not> cmp_of ty key (de_key e)"
      using in_own_bucket [OF assms] by (auto simp: he_find_None ty i_def dictHashKey_def)
    with None eq show ?thesis by auto
  next
    case (Some p)
    with he_find_Some [OF Some] b eq show ?thesis by (auto simp: place_ok_def)
  qed
qed

lemma find_in_tables_ok:
  assumes "good d" "valid key" "ht_size (ht0 d) \<noteq> 0"
  shows "\<exists>r. find_in_tables d key (dictHashKey d key) = Some r \<and>
         (case r of None \<Rightarrow> dict_lookup d key = None | Some p \<Rightarrow> place_ok d key p)"
proof -
  have ty: "d_type d = ty" using assms(1) by (simp add: good_def)
  obtain r0 where r0: "find_in_table d key (dictHashKey d key) 0 = Some r0"
    "case r0 of None \<Rightarrow> \<forall>e\<in>set (concat (ht_table (ht0 d))). \<not> cmp_of ty key (de_key e) | Some p \<Rightarrow> place_ok d key p"
    using find_in_table_ok [OF assms(1,2), of 0, unfolded get_ht_simps] assms(3) by auto
  consider p where "r0 = Some p" | "r0 = None" "\<not> dictIsRehashing d" | "r0 = None" "dictIsRehashing d" by fastforce
  then show ?thesis
  proof cases
    case (1 p)
    with r0 show ?thesis by (cases p) (auto simp: find_in_tables_def)
  next
    case 2
    then have "ht_table (ht1 d) = []" using assms(1) ht_ok_table_nil by (fastforce simp: good_def dict_ok_def)
    with 2 r0 show ?thesis by (auto simp: find_in_tables_def dict_lookup_None dict_entries_def ty)
  next
    case 3
    then have "ht_size (ht1 d) \<noteq> 0" using assms(1) by (auto simp: good_def dict_ok_def)
    then obtain r1 where r1: "find_in_table d key (dictHashKey d key) 1 = Some r1"
      "case r1 of None \<Rightarrow> \<forall>e\<in>set (concat (ht_table (ht1 d))). \<not> cmp_of ty key (de_key e) | Some p \<Rightarrow> place_ok d key p"
      using find_in_table_ok [OF assms(1,2), of 1, unfolded get_ht_simps] 3 by auto
    with 3 r0 show ?thesis
      by (cases r1) (auto simp: find_in_tables_def dict_lookup_None dict_entries_def ty)
  qed
qed

lemma place_lookup:
  assumes "good d" "valid key" "place_ok d key p"
  shows "\<exists>e. get_entry d p = Some e \<and> dict_lookup d key = Some (de_val e) \<and> cmp_of ty key (de_key e) \<and>
           e \<in> set (dict_entries d)"
proof -
  obtain tbl idx q where p: "p = (tbl, idx, q)" by (cases p)
  define e where "e = ht_table (get_ht d tbl) ! idx ! q"
  have b: "bucket_ok d tbl idx" "q < length (ht_table (get_ht d tbl) ! idx)" "cmp_of ty key (de_key e)"
    using assms(1,3) by (auto simp: p place_ok_def e_def good_def)
  then have e: "e \<in> set (dict_entries d)" using good_bucket(1) [OF assms(1) b(1)] by (simp add: e_def)
  have "get_entry d p = Some e"
    using b bucket_ok_length [of valid d tbl idx] assms(1) by (simp add: get_entry_def p rd_ok e_def good_def)
  moreover have "dict_lookup d key = Some (de_val e)"
    using dict_lookup_iff [of valid d key "de_val e"] assms e b cmp_equiv by (auto simp: good_def)
  ultimately show ?thesis using b e by blast
qed

lemma dictFind_ok:
  assumes "good d" "valid key"
  shows "\<exists>d' r. dictFind d key = Some (d', r) \<and> good d' \<and> same_content d d' \<and>
         (case r of None \<Rightarrow> dict_lookup d key = None | Some p \<Rightarrow> place_ok d' key p)"
proof (cases "ht_size (ht0 d) = 0")
  case True
  then have "\<not> dictIsRehashing d" using assms(1) by (auto simp: good_def dict_ok_def)
  with True have "dict_entries d = []"
    using assms(1) ht_ok_table_nil by (fastforce simp: good_def dict_ok_def dict_entries_def)
  then show ?thesis using True assms by (auto simp: dictFind_def dict_lookup_def)
next
  case False
  then obtain d' where d': "rehash_first d = Some d'" "good d'" "same_content d d'" "ht_size (ht0 d') \<noteq> 0"
    using rehash_first_ok [OF assms(1)] by blast
  obtain r where r: "find_in_tables d' key (dictHashKey d' key) = Some r"
    "case r of None \<Rightarrow> dict_lookup d' key = None | Some p \<Rightarrow> place_ok d' key p"
    using find_in_tables_ok [OF d'(2) assms(2) d'(4)] by blast
  have "dictFind d key = Some (d', r)" using False d'(1) r(1) by (simp add: dictFind_def Let_def)
  with d' r good_same_lookup [OF assms(1) d'(2,3) assms(2)] show ?thesis by (cases r) auto
qed

lemma dictFetchValue_ok:
  assumes "good d" "valid key"
  shows "\<exists>d'. dictFetchValue d key = Some (d', dict_lookup d key) \<and> good d' \<and> same_content d d'"
proof -
  obtain d' r where d': "dictFind d key = Some (d', r)" "good d'" "same_content d d'"
    "case r of None \<Rightarrow> dict_lookup d key = None | Some p \<Rightarrow> place_ok d' key p"
    using dictFind_ok [OF assms] by blast
  show ?thesis
  proof (cases r)
    case None
    with d' show ?thesis by (auto simp: dictFetchValue_def)
  next
    case (Some p)
    with d' place_lookup [OF d'(2) assms(2), of p] good_same_lookup [OF assms(1) d'(2,3) assms(2)]
    show ?thesis by (auto simp: dictFetchValue_def)
  qed
qed

end

context dictType_contract
begin

text \<open>A bucket rewritten so that the entries become \<open>new @ rest\<close>, where they were \<open>old @ rest\<close>.\<close>

lemma put_bucket_good:
  assumes g: "good d" and b: "bucket_ok d tbl idx"
    and new: "mset chain = mset new + rest" and old: "mset (ht_table (get_ht d tbl) ! idx) = mset old + rest"
    and h: "\<And>e. e \<in> set new \<Longrightarrow> unat (bucket_idx (get_ht d tbl) (hashFunction ty (de_key e))) = idx"
    and u: "u + length old = ht_used (get_ht d tbl) + length new"
    and r: "tbl = 0 \<Longrightarrow> dictIsRehashing d \<Longrightarrow> ht_table (ht0 d) ! idx \<noteq> []"
    and es: "mset es + mset old = mset (dict_entries d)"
    and un: "uniq_keys (cmp_of ty) (new @ es)"
    and v: "\<And>e. e \<in> set new \<Longrightarrow> valid (de_key e)"
  shows "good (put_bucket d tbl idx chain u)" "mset (new @ es) = mset (dict_entries (put_bucket d tbl idx chain u))"
proof -
  let ?d = "put_bucket d tbl idx chain u"
  have g': "dict_ok valid d" "d_type d = ty" using g by (auto simp: good_def)
  have "mset (dict_entries ?d) + (mset old + rest) = mset (dict_entries d) + (mset new + rest)"
    using put_bucket_mset [OF g'(1) b, of chain u] new old by simp
  then have "mset (dict_entries ?d) + mset old = mset (dict_entries d) + mset new"
    by (simp only: add.assoc [symmetric] add_right_cancel)
  then have "mset (dict_entries ?d) + mset old = (mset es + mset new) + mset old"
    by (simp only: es [symmetric] add.assoc add.commute [of "mset old"])
  then show m: "mset (new @ es) = mset (dict_entries ?d)" by (simp add: add.commute)
  have sub: "set es \<subseteq> set (dict_entries d)" using arg_cong [OF es, of set_mset] by auto
  have v': "\<forall>e\<in>set (new @ es). valid (de_key e)" using v sub good_entries(2) [OF g] by auto
  have vd: "\<forall>e\<in>set (dict_entries ?d). valid (de_key e)" using v' arg_cong [OF m, of set_mset] by auto
  have ud: "uniq_keys (cmp_of (d_type d)) (dict_entries ?d)"
    using uniq_keys_mset [OF cmp_equiv v', of "dict_entries ?d"] m un g'(2) by simp
  have hc: "unat (bucket_idx (get_ht d tbl) (hashFunction (d_type d) (de_key e))) = idx" if "e \<in> set chain" for e
  proof -
    have "e \<in> set new \<or> e \<in># rest" using that arg_cong [OF new, of set_mset] by auto
    moreover have "e \<in> set (ht_table (get_ht d tbl) ! idx)" if "e \<in># rest"
      using that arg_cong [OF old, of set_mset] by auto
    ultimately show ?thesis using h good_bucket(2) [OF g b] g'(2) by auto
  qed
  have "length chain = length new + size rest" "length (ht_table (get_ht d tbl) ! idx) = length old + size rest"
    using arg_cong [OF new, of size] arg_cong [OF old, of size] by auto
  then have "dict_ok valid ?d" using u r by (intro put_bucket_ok [OF g'(1) b hc _ _ ud vd]) auto
  then show "good ?d" using g'(2) by (simp add: good_def)
qed

lemma set_val_at_ok:
  assumes "good d" "valid key" "place_ok d key p"
  shows "\<exists>d'. set_val_at d p v = Some d' \<and> good d' \<and> iterators d' = iterators d \<and> dictSize d' = dictSize d \<and>
         (\<forall>k. valid k \<longrightarrow> dict_lookup d' k = (if cmp_of ty k key then Some (dictSetVal d v) else dict_lookup d k))"
proof -
  obtain tbl idx q where p: "p = (tbl, idx, q)" by (cases p)
  define c where "c = ht_table (get_ht d tbl) ! idx"
  define e where "e = c ! q"
  define e' where "e' = e\<lparr>de_val := dictSetVal d v\<rparr>"
  define rest where "rest = take q c @ drop (Suc q) c"
  have b: "bucket_ok d tbl idx" "q < length c" "cmp_of ty key (de_key e)"
    using assms(1,3) by (auto simp: p place_ok_def e_def c_def good_def)
  have l: "idx < length (ht_table (get_ht d tbl))" using b(1) assms(1) bucket_ok_length by (auto simp: good_def)
  have e: "e \<in> set c" "e \<in> set (dict_entries d)" "unat (bucket_idx (get_ht d tbl) (hashFunction ty (de_key e))) = idx"
    using good_bucket [OF assms(1) b(1), of e] b(2) by (auto simp: e_def c_def)
  define es where "es = remove1 e (dict_entries d)"
  have m: "mset (e # es) = mset (dict_entries d)" using e(2) by (simp add: es_def)
  have un: "uniq_keys (cmp_of ty) (e # es)"
    using uniq_keys_mset [OF cmp_equiv, of "dict_entries d"] m good_entries [OF assms(1)] by simp
  define d' where "d' = put_bucket d tbl idx (c[q := e']) (ht_used (get_ht d tbl))"
  have c1: "mset (c[q := e']) = mset [e'] + mset rest" "mset c = mset [e] + mset rest"
    using b(2) id_take_nth_drop [OF b(2)] by (simp_all add: upd_conv_take_nth_drop rest_def e_def) (metis mset_append mset.simps(2) union_mset_add_mset_right)
  have ne: "tbl = 0 \<Longrightarrow> dictIsRehashing d \<Longrightarrow> ht_table (ht0 d) ! idx \<noteq> []"
    using b(2) by (auto simp: c_def get_ht_def)
  have un': "uniq_keys (cmp_of ty) ([e'] @ es)" using un by (simp add: uniq_keys_def e'_def)
  note pb = put_bucket_good [OF assms(1) b(1) c1(1) c1(2) [unfolded c_def] _ _ ne _ un',
      of "ht_used (get_ht d tbl)"]
  have g: "good d'" "mset ([e'] @ es) = mset (dict_entries d')" unfolding d'_def
    using e(3) m good_entries(2) [OF assms(1) e(2)] by (intro pb; simp add: e'_def)+
  have s: "set_val_at d p v = Some d'"
  proof -
    have "get_entry d p = Some e" using b l by (simp add: p get_entry_def rd_ok c_def e_def)
    moreover have "put_entry d p e' = Some d'"
      using b l by (simp add: p put_entry_def rd_ok wr_ok c_def d'_def put_bucket_def)
    ultimately show ?thesis by (simp add: set_val_at_def e'_def)
  qed
  have sz: "dictSize d' = dictSize d"
    by (simp add: d'_def put_bucket_def put_ht_def get_ht_def dictSize_def)
  have "dict_lookup d' k = (if cmp_of ty k key then Some (dictSetVal d v) else dict_lookup d k)" if k: "valid k" for k
    using lookup_perm [OF g(1,2) k] lookup_perm [OF assms(1) m k] cmp_eq [OF assms(2) _ k b(3)]
      good_entries(2) [OF assms(1) e(2)] by (simp add: e'_def)
  with s g sz show ?thesis by (auto simp: d'_def)
qed

end

context dictType_contract
begin

lemma p_dictKeyIndex_ok:
  assumes "good d" "valid key" "dictSize d \<le> 2 ^ 30"
  shows "\<exists>d'. good d' \<and> same_content d d' \<and>
         (if dict_lookup d key \<noteq> None then p_dictKeyIndex can_resize d key = Some (d', -1)
          else \<exists>idx. p_dictKeyIndex can_resize d key = Some (d', int idx) \<and>
               bucket_ok d' (if dictIsRehashing d' then 1 else 0) idx \<and>
               idx = unat (bucket_idx (get_ht d' (if dictIsRehashing d' then 1 else 0)) (hashFunction ty key)))"
proof -
  have "ht_used (ht0 d) \<le> 2 ^ 30" using assms(3) by (simp add: dictSize_def)
  then obtain d' where d': "p_dictExpandIfNeeded can_resize d = (d', True)" "dict_ok valid d'" "same_content d d'"
    "ht_size (ht0 d') \<noteq> 0"
    using p_dictExpandIfNeeded_ok [of valid d] assms(1) unfolding good_def by blast
  have g: "good d'" by (rule good_same [OF assms(1) d'(2,3)])
  define tbl where "tbl = (if dictIsRehashing d' then 1 else 0 :: nat)"
  have nz: "ht_size (get_ht d' tbl) \<noteq> 0" using g d'(4) by (auto simp: tbl_def get_ht_def good_def dict_ok_def)
  have b: "bucket_ok d' tbl (unat (bucket_idx (get_ht d' tbl) (hashFunction ty key)))"
    by (rule table_index [OF g nz]) (auto simp: tbl_def)
  have ht: "ht_ok (hashFunction ty) (get_ht d' tbl)" using g by (auto simp: good_def dict_ok_def get_ht_def)
  obtain r where r: "find_in_tables d' key (dictHashKey d' key) = Some r"
    "case r of None \<Rightarrow> dict_lookup d' key = None | Some p \<Rightarrow> place_ok d' key p"
    using find_in_tables_ok [OF g assms(2) d'(4)] by blast
  have ty: "d_type d' = ty" using g by (simp add: good_def)
  have lk: "dict_lookup d' key = dict_lookup d key" by (rule good_same_lookup [OF assms(1) g d'(3) assms(2)])
  show ?thesis
  proof (cases r)
    case None
    then have "p_dictKeyIndex can_resize d key =
        Some (d', int (unat (bucket_idx (get_ht d' tbl) (hashFunction ty key))))"
      using d'(1) r(1) sint_bucket_idx [OF ht nz] by (simp add: p_dictKeyIndex_def Let_def tbl_def dictHashKey_def ty)
    with None r lk b g d'(3) show ?thesis by (auto simp: tbl_def [symmetric])
  next
    case (Some p)
    then have "dict_lookup d key \<noteq> None" using place_lookup [OF g assms(2), of p] r(2) lk by auto
    moreover have "p_dictKeyIndex can_resize d key = Some (d', -1)"
      using d'(1) r(1) Some by (cases p) (simp add: p_dictKeyIndex_def Let_def)
    ultimately show ?thesis using g d'(3) by auto
  qed
qed

lemma bucket_insert_ok:
  assumes "good d" "valid key" "dict_lookup d key = None" "cmp_of ty key kd" "valid kd"
    and "tbl = (if dictIsRehashing d then 1 else 0)" "bucket_ok d tbl idx"
    and "idx = unat (bucket_idx (get_ht d tbl) (hashFunction ty key))"
    and d': "d' = put_bucket d tbl idx (\<lparr>de_key = kd, de_val = v\<rparr> # ht_table (get_ht d tbl) ! idx)
                   (ht_used (get_ht d tbl) + 1)"
  shows "good d'" "place_ok d' key (tbl, idx, 0)" "dictSize d' = dictSize d + 1"
    and "\<forall>k. valid k \<longrightarrow> dict_lookup d' k = (if cmp_of ty k key then Some v else dict_lookup d k)"
proof -
  define e where "e = \<lparr>de_key = kd, de_val = v\<rparr>"
  have ty: "d_type d = ty" using assms(1) by (simp add: good_def)
  have nk: "\<not> cmp_of ty kd (de_key x)" if "x \<in> set (dict_entries d)" for x
  proof
    assume "cmp_of ty kd (de_key x)"
    then have "cmp_of ty key (de_key x)"
      using cmp_trans [OF assms(2,5) _ assms(4)] good_entries(2) [OF assms(1) that] by blast
    then show False using assms(3) that by (simp add: dict_lookup_None ty)
  qed
  then have un: "uniq_keys (cmp_of ty) ([e] @ dict_entries d)"
    using good_entries(1) [OF assms(1)] by (simp add: e_def uniq_keys_def)
  have h: "unat (bucket_idx (get_ht d tbl) (hashFunction ty kd)) = idx"
    using cmp_hash [OF assms(2,5,4)] assms(8) by simp
  have rr: "tbl = 0 \<Longrightarrow> dictIsRehashing d \<Longrightarrow> ht_table (ht0 d) ! idx \<noteq> []" using assms(6) by simp
  note pb = put_bucket_good [OF assms(1,7) _ _ _ _ rr _ un, where old = "[]" and
      rest = "mset (ht_table (get_ht d tbl) ! idx)"]
  have g: "good d'" "mset ([e] @ dict_entries d) = mset (dict_entries d')"
    unfolding d' using h assms(5) by (intro pb; simp add: e_def)+
  show "good d'" by (rule g)
  have "idx < length (ht_table (get_ht d tbl))" using assms(1,7) bucket_ok_length by (auto simp: good_def)
  then have t: "ht_table (get_ht d' tbl) ! idx = e # ht_table (get_ht d tbl) ! idx"
    by (simp add: d' put_bucket_def put_ht_def get_ht_def e_def split: if_splits)
  have "bucket_ok d' tbl idx" using assms(7) by (auto simp: bucket_ok_def d' get_ht_def split: if_splits)
  then show "place_ok d' key (tbl, idx, 0)"
    using assms(4) ty by (simp add: place_ok_def t e_def) (simp add: d')
  show "dictSize d' = dictSize d + 1"
    by (simp add: d' put_bucket_def put_ht_def get_ht_def dictSize_def)
  show "\<forall>k. valid k \<longrightarrow> dict_lookup d' k = (if cmp_of ty k key then Some v else dict_lookup d k)"
    using lookup_perm [OF g] lookup_perm [OF assms(1) refl] cmp_eq [OF assms(2,5) _ assms(4)] by (simp add: e_def)
qed

lemma dictAddRaw_ok:
  assumes "good d" "valid key" "dictSize d \<le> 2 ^ 30"
  shows "\<exists>d'. good d' \<and> iterators d' = iterators d \<and>
     (if dict_lookup d key \<noteq> None
      then dictAddRaw can_resize v d key = Some (d', None) \<and> same_content d d'
      else \<exists>p. dictAddRaw can_resize v d key = Some (d', Some p) \<and> place_ok d' key p \<and>
           dictSize d' = dictSize d + 1 \<and>
           (\<forall>k. valid k \<longrightarrow> dict_lookup d' k = (if cmp_of ty k key then Some v else dict_lookup d k)))"
proof -
  obtain d1 where d1: "rehash_first d = Some d1" "good d1" "same_content d d1"
    using rehash_first_ok [OF assms(1)] by blast
  have s1: "dictSize d1 = dictSize d" using same_content_size d1 assms(1) by (auto simp: good_def)
  obtain d2 where d2: "good d2" "same_content d1 d2"
    "if dict_lookup d1 key \<noteq> None then p_dictKeyIndex can_resize d1 key = Some (d2, -1)
     else \<exists>idx. p_dictKeyIndex can_resize d1 key = Some (d2, int idx) \<and>
          bucket_ok d2 (if dictIsRehashing d2 then 1 else 0) idx \<and>
          idx = unat (bucket_idx (get_ht d2 (if dictIsRehashing d2 then 1 else 0)) (hashFunction ty key))"
    using p_dictKeyIndex_ok [OF d1(2) assms(2), of can_resize] assms(3) s1 by auto
  have sc: "same_content d d2" by (rule same_content_trans [OF d1(3) d2(2)])
  have lk: "dict_lookup d1 k = dict_lookup d k" "dict_lookup d2 k = dict_lookup d k" if "valid k" for k
    using good_same_lookup [OF assms(1) d1(2,3) that] good_same_lookup [OF assms(1) d2(1) sc that] by auto
  have it: "iterators d2 = iterators d" using sc by (simp add: same_content_def)
  show ?thesis
  proof (cases "dict_lookup d key = None")
    case False
    then have "dictAddRaw can_resize v d key = Some (d2, None)"
      using d1(1) d2(3) lk [OF assms(2)] by (simp add: dictAddRaw_def)
    with False d2(1) sc it show ?thesis by auto
  next
    case True
    define tbl where "tbl = (if dictIsRehashing d2 then 1 else 0 :: nat)"
    obtain idx where idx: "p_dictKeyIndex can_resize d1 key = Some (d2, int idx)" "bucket_ok d2 tbl idx"
      "idx = unat (bucket_idx (get_ht d2 tbl) (hashFunction ty key))"
      using d2(3) True lk [OF assms(2)] by (auto simp: tbl_def)
    define d' where "d' = put_bucket d2 tbl idx (\<lparr>de_key = dup_of ty key, de_val = v\<rparr> #
        ht_table (get_ht d2 tbl) ! idx) (ht_used (get_ht d2 tbl) + 1)"
    have l: "idx < length (ht_table (get_ht d2 tbl))" using idx(2) d2(1) bucket_ok_length by (auto simp: good_def)
    have dk: "dictSetKey d2 key = dup_of ty key" using d2(1) by (simp add: dictSetKey_def dup_of_def good_def)
    have "dictAddRaw can_resize v d key = Some (d', Some (tbl, idx, 0))"
      using d1(1) idx(1) l by (simp add: dictAddRaw_def Let_def tbl_def [symmetric] rd_ok wr_ok d'_def put_bucket_def dk)
    moreover have "dict_lookup d2 key = None" using lk [OF assms(2)] True by simp
    note bi = bucket_insert_ok [OF d2(1) assms(2) this _ _ tbl_def idx(2,3) d'_def]
    have "dictSize d2 = dictSize d" using same_content_size [OF _ _ sc] assms(1) d2(1) by (auto simp: good_def)
    ultimately show ?thesis using bi dup_ok [OF assms(2)] True it lk by (intro exI [of _ d']) (simp add: d'_def)
  qed
qed

lemma dictAdd_ok:
  assumes "good d" "valid key" "dictSize d \<le> 2 ^ 30"
  shows "\<exists>d'. dictAdd can_resize junk d key v = Some (d', dict_lookup d key = None) \<and> good d' \<and>
     iterators d' = iterators d \<and>
     dictSize d' = (if dict_lookup d key = None then dictSize d + 1 else dictSize d) \<and>
     (\<forall>k. valid k \<longrightarrow> dict_lookup d' k =
        (if cmp_of ty k key \<and> dict_lookup d key = None then Some (dictSetVal d v) else dict_lookup d k))"
proof (cases "dict_lookup d key = None")
  case False
  then obtain d' where d': "good d'" "dictAddRaw can_resize junk d key = Some (d', None)" "same_content d d'"
    using dictAddRaw_ok [OF assms, of can_resize junk] by auto
  have "iterators d' = iterators d" using d'(3) by (simp add: same_content_def)
  moreover have "dictSize d' = dictSize d" using same_content_size [OF _ _ d'(3)] assms(1) d'(1) by (auto simp: good_def)
  ultimately show ?thesis
    using False d' good_same_lookup [OF assms(1) d'(1,3)] by (auto simp: dictAdd_def)
next
  case True
  then obtain d1 p where d1: "good d1" "dictAddRaw can_resize junk d key = Some (d1, Some p)" "place_ok d1 key p"
    "dictSize d1 = dictSize d + 1" "iterators d1 = iterators d"
    "\<And>k. valid k \<Longrightarrow> dict_lookup d1 k = (if cmp_of ty k key then Some junk else dict_lookup d k)"
    using dictAddRaw_ok [OF assms, of can_resize junk] by auto
  obtain d' where d': "set_val_at d1 p v = Some d'" "good d'" "iterators d' = iterators d1" "dictSize d' = dictSize d1"
    "\<And>k. valid k \<Longrightarrow> dict_lookup d' k = (if cmp_of ty k key then Some (dictSetVal d1 v) else dict_lookup d1 k)"
    using set_val_at_ok [OF d1(1) assms(2) d1(3)] by blast
  have "dictSetVal d1 v = dictSetVal d v" using d1(1) assms(1) by (simp add: dictSetVal_def good_def)
  with True d1 d' show ?thesis by (auto simp: dictAdd_def)
qed

lemma dictReplace_ok:
  assumes "good d" "valid key" "dictSize d \<le> 2 ^ 30"
  shows "\<exists>d'. dictReplace can_resize junk d key v = Some (d', dict_lookup d key = None) \<and> good d' \<and>
     iterators d' = iterators d \<and>
     dictSize d' = (if dict_lookup d key = None then dictSize d + 1 else dictSize d) \<and>
     (\<forall>k. valid k \<longrightarrow> dict_lookup d' k = (if cmp_of ty k key then Some (dictSetVal d v) else dict_lookup d k))"
proof -
  obtain d1 where d1: "dictAdd can_resize junk d key v = Some (d1, dict_lookup d key = None)" "good d1"
     "iterators d1 = iterators d" "dictSize d1 = (if dict_lookup d key = None then dictSize d + 1 else dictSize d)"
     "\<And>k. valid k \<Longrightarrow> dict_lookup d1 k =
        (if cmp_of ty k key \<and> dict_lookup d key = None then Some (dictSetVal d v) else dict_lookup d k)"
    using dictAdd_ok [OF assms] by blast
  show ?thesis
  proof (cases "dict_lookup d key = None")
    case True
    with d1 show ?thesis by (auto simp: dictReplace_def)
  next
    case False
    obtain d2 r where d2: "dictFind d1 key = Some (d2, r)" "good d2" "same_content d1 d2"
      "case r of None \<Rightarrow> dict_lookup d1 key = None | Some p \<Rightarrow> place_ok d2 key p"
      using dictFind_ok [OF d1(2) assms(2)] by blast
    have "r \<noteq> None" using d2(4) d1(5) [OF assms(2)] False by (cases r) auto
    then obtain p where p: "r = Some p" "place_ok d2 key p" using d2(4) by auto
    obtain d' where d': "set_val_at d2 p v = Some d'" "good d'" "iterators d' = iterators d2" "dictSize d' = dictSize d2"
      "\<And>k. valid k \<Longrightarrow> dict_lookup d' k = (if cmp_of ty k key then Some (dictSetVal d2 v) else dict_lookup d2 k)"
      using set_val_at_ok [OF d2(2) assms(2) p(2)] by blast
    have "dictSetVal d2 v = dictSetVal d v" using d2(2) assms(1) by (simp add: dictSetVal_def good_def)
    moreover have "iterators d2 = iterators d" using d2(3) d1(3) by (simp add: same_content_def)
    moreover have "dictSize d2 = dictSize d1" using same_content_size [OF _ _ d2(3)] d1(2) d2(2) by (auto simp: good_def)
    moreover have "dict_lookup d2 k = dict_lookup d k" if "valid k" for k
      using good_same_lookup [OF d1(2) d2(2,3) that] d1(5) [OF that] False by simp
    ultimately show ?thesis using False d1 d2(1) p(1) d' by (auto simp: dictReplace_def)
  qed
qed

end

context dictType_contract
begin

lemma bucket_delete_ok:
  assumes "good d" "valid key" "place_ok d key (tbl, idx, q)"
    and c: "c = ht_table (get_ht d tbl) ! idx"
    and d': "d' = put_bucket d tbl idx (take q c @ drop (q + 1) c) (ht_used (get_ht d tbl) - 1)"
  shows "good d'" "dictSize d' + 1 = dictSize d" "mset (c ! q # dict_entries d') = mset (dict_entries d)"
    and "\<forall>k. valid k \<longrightarrow> dict_lookup d' k = (if cmp_of ty k key then None else dict_lookup d k)"
proof -
  define e where "e = c ! q"
  have b: "bucket_ok d tbl idx" "q < length c" "cmp_of ty key (de_key e)"
    using assms(1,3) by (auto simp: place_ok_def e_def c good_def)
  have e: "e \<in> set c" "e \<in> set (dict_entries d)" using good_bucket [OF assms(1) b(1), of e] b(2) by (auto simp: e_def c)
  define es where "es = remove1 e (dict_entries d)"
  have m: "mset (e # es) = mset (dict_entries d)" using e(2) by (simp add: es_def)
  have un: "uniq_keys (cmp_of ty) (e # es)"
    using uniq_keys_mset [OF cmp_equiv, of "dict_entries d"] m good_entries [OF assms(1)] by simp
  then have un': "uniq_keys (cmp_of ty) ([] @ es)" by (simp add: uniq_keys_def)
  have c1: "mset c = mset [e] + mset (take q c @ drop (q + 1) c)"
    using b(2) id_take_nth_drop [OF b(2)] by (simp add: e_def) (metis mset_append mset.simps(2) union_mset_add_mset_right)
  have ht: "ht_ok (hashFunction ty) (get_ht d tbl)" using assms(1) by (auto simp: good_def dict_ok_def get_ht_def)
  have l: "idx < length (ht_table (get_ht d tbl))" using b(1) assms(1) bucket_ok_length by (auto simp: good_def)
  have u: "ht_used (get_ht d tbl) \<ge> 1"
    using ht_ok_used [OF ht] set_bucket [OF l, of e] e(1) by (cases "concat (ht_table (get_ht d tbl))") (auto simp: c)
  have ne: "tbl = 0 \<Longrightarrow> dictIsRehashing d \<Longrightarrow> ht_table (ht0 d) ! idx \<noteq> []"
    using b(2) by (auto simp: c get_ht_def)
  have vn: "\<And>x. x \<in> set ([] :: ('k, 'v) dictEntry list) \<Longrightarrow> valid (de_key x)" by simp
  have g: "good d'" "mset ([] @ es) = mset (dict_entries d')" unfolding d'
    using u m put_bucket_good [OF assms(1) b(1) _ c1 [unfolded c] _ _ ne _ un' vn,
      where chain = "take q c @ drop (q + 1) c" and u = "ht_used (get_ht d tbl) - 1"]
    by (simp_all add: c)
  show "good d'" by (rule g)
  show "mset (c ! q # dict_entries d') = mset (dict_entries d)" using g(2) m by (simp add: e_def)
  show "dictSize d' + 1 = dictSize d"
    using u by (auto simp: d' put_bucket_def put_ht_def get_ht_def dictSize_def split: if_splits)
  have nk: "find (\<lambda>x. cmp_of ty k (de_key x)) es = None" if "valid k" "cmp_of ty k (de_key e)" for k
  proof -
    have "\<not> cmp_of ty k (de_key x)" if x: "x \<in> set es" for x
    proof
      assume "cmp_of ty k (de_key x)"
      moreover have "x \<in> set (dict_entries d)" using x set_remove1_subset [of e "dict_entries d"] by (auto simp: es_def)
      ultimately have "cmp_of ty (de_key e) (de_key x)"
        using \<open>valid k\<close> \<open>cmp_of ty k (de_key e)\<close> cmp_sym cmp_trans good_entries(2) [OF assms(1)] e(2) by blast
      then show False using un x by (simp add: uniq_keys_def)
    qed
    then show ?thesis by (simp add: find_None_iff)
  qed
  have "dict_lookup d' k = (if cmp_of ty k key then None else dict_lookup d k)" if k: "valid k" for k
    using lookup_perm [OF g(1,2) k] lookup_perm [OF assms(1) m k] cmp_eq [OF assms(2) _ k b(3)]
      good_entries(2) [OF assms(1) e(2)] nk [OF k] by (auto split: if_splits)
  then show "\<forall>k. valid k \<longrightarrow> dict_lookup d' k = (if cmp_of ty k key then None else dict_lookup d k)" by blast
qed

lemma no_table_empty:
  assumes "good d" "ht_size (ht0 d) = 0"
  shows "dict_entries d = []"
proof -
  have ht: "ht_ok (hashFunction ty) (ht0 d)" "ht_ok (hashFunction ty) (ht1 d)" "ht_size (ht1 d) = 0"
    using assms by (auto simp: good_def dict_ok_def split: if_splits)
  then show ?thesis using assms(2) by (simp add: dict_entries_def ht_ok_table_nil [OF ht(1), symmetric] ht_ok_table_nil [OF ht(2), symmetric])
qed

lemma dictGenericDelete_ok:
  assumes "good d" "valid key"
  shows "\<exists>d' freed. dictGenericDelete d key nofree = Some (d', dict_lookup d key \<noteq> None, freed) \<and> good d' \<and>
     iterators d' = iterators d \<and>
     dictSize d = (if dict_lookup d key \<noteq> None then dictSize d' + 1 else dictSize d') \<and>
     (if nofree then freed = [] else mset (freed @ dict_entries d') = mset (dict_entries d)) \<and>
     (\<forall>k. valid k \<longrightarrow> dict_lookup d' k = (if cmp_of ty k key then None else dict_lookup d k))"
proof (cases "ht_size (ht0 d) = 0")
  case True
  then show ?thesis using no_table_empty [OF assms(1)] assms(1) by (auto simp: dictGenericDelete_def dict_lookup_def)
next
  case False
  then obtain d1 where d1: "rehash_first d = Some d1" "good d1" "same_content d d1" "ht_size (ht0 d1) \<noteq> 0"
    using rehash_first_ok [OF assms(1)] by blast
  obtain r where r: "find_in_tables d1 key (dictHashKey d1 key) = Some r"
    "case r of None \<Rightarrow> dict_lookup d1 key = None | Some p \<Rightarrow> place_ok d1 key p"
    using find_in_tables_ok [OF d1(2) assms(2) d1(4)] by blast
  have lk: "dict_lookup d1 k = dict_lookup d k" if "valid k" for k
    by (rule good_same_lookup [OF assms(1) d1(2,3) that])
  have sz: "dictSize d1 = dictSize d" using same_content_size [OF _ _ d1(3)] assms(1) d1(2) by (auto simp: good_def)
  have it: "iterators d1 = iterators d" "mset (dict_entries d1) = mset (dict_entries d)"
    using d1(3) by (auto simp: same_content_def)
  show ?thesis
  proof (cases r)
    case None
    then have n: "dict_lookup d key = None" using r(2) lk [OF assms(2)] by simp
    have "dict_lookup d k = None" if k: "valid k" "cmp_of ty k key" for k
    proof -
      have "d_type d = ty" using assms(1) by (simp add: good_def)
      moreover have "\<not> cmp_of ty k (de_key e)" if "e \<in> set (dict_entries d)" for e
        using cmp_trans [OF assms(2) k(1) good_entries(2) [OF assms(1) that] cmp_sym [OF k(1) assms(2) k(2)]]
          n that \<open>d_type d = ty\<close> by (auto simp: dict_lookup_None)
      ultimately show ?thesis by (simp add: dict_lookup_None)
    qed
    then show ?thesis using False d1 r(1) None n lk it sz by (auto simp: dictGenericDelete_def Let_def)
  next
    case (Some p)
    obtain tbl idx q where p: "p = (tbl, idx, q)" by (cases p)
    have pl: "place_ok d1 key (tbl, idx, q)" using r(2) Some p by simp
    define c where "c = ht_table (get_ht d1 tbl) ! idx"
    define d' where "d' = put_bucket d1 tbl idx (take q c @ drop (q + 1) c) (ht_used (get_ht d1 tbl) - 1)"
    note bd = bucket_delete_ok [OF d1(2) assms(2) pl c_def d'_def]
    have "bucket_ok d1 tbl idx" "q < length c" using pl by (auto simp: place_ok_def c_def)
    moreover have "idx < length (ht_table (get_ht d1 tbl))"
      using bucket_ok_length [OF _ calculation(1)] d1(2) by (auto simp: good_def)
    ultimately have "dictGenericDelete d key nofree = Some (d', True, if nofree then [] else [c ! q])"
      using False d1(1) r(1) Some p
      by (simp add: dictGenericDelete_def Let_def rd_ok wr_ok c_def d'_def put_bucket_def)
    moreover have "dict_lookup d key \<noteq> None"
      using place_lookup [OF d1(2) assms(2) pl] lk [OF assms(2)] by auto
    moreover have "iterators d' = iterators d" using it by (simp add: d'_def)
    ultimately show ?thesis using bd it(2) lk sz by auto
  qed
qed

lemma dictDelete_ok:
  assumes "good d" "valid key"
  shows "\<exists>d'. dictDelete d key = Some (d', dict_lookup d key \<noteq> None) \<and> good d' \<and>
     iterators d' = iterators d \<and>
     dictSize d = (if dict_lookup d key \<noteq> None then dictSize d' + 1 else dictSize d') \<and>
     (\<forall>k. valid k \<longrightarrow> dict_lookup d' k = (if cmp_of ty k key then None else dict_lookup d k))"
  using dictGenericDelete_ok [OF assms, of False] by (auto simp: dictDelete_def)

lemma dictDeleteNoFree_ok:
  assumes "good d" "valid key"
  shows "\<exists>d'. dictDeleteNoFree d key = Some (d', dict_lookup d key \<noteq> None) \<and> good d' \<and>
     iterators d' = iterators d \<and>
     dictSize d = (if dict_lookup d key \<noteq> None then dictSize d' + 1 else dictSize d') \<and>
     (\<forall>k. valid k \<longrightarrow> dict_lookup d' k = (if cmp_of ty k key then None else dict_lookup d k))"
  using dictGenericDelete_ok [OF assms, of True] by (auto simp: dictDeleteNoFree_def)

end

lemma dictCreate_ok [simp]: "dict_ok valid (dictCreate ty)" "d_type (dictCreate ty) = ty"
  by (simp_all add: dict_ok_def dictCreate_def p_dictInit_def dictIsRehashing_def dict_entries_def uniq_keys_def)

lemma dictCreate_lookup [simp]: "dict_lookup (dictCreate ty) k = None" "dictSize (dictCreate ty) = 0"
  by (simp_all add: dict_lookup_def dict_entries_def dictCreate_def p_dictInit_def dictSize_def)

text \<open>Clearing frees every entry, in bucket order.\<close>

lemma p_dictClear_loop_ok:
  assumes "length (ht_table t) = ht_size t" "i \<le> ht_size t" "u = length (concat (drop i (ht_table t)))"
  shows "p_dictClear_loop t i u freed = Some (freed @ concat (drop i (ht_table t)))"
  using assms
proof (induction "ht_size t - i" arbitrary: i u freed)
  case (Suc m)
  have i: "i < ht_size t" using Suc.hyps(2) by simp
  then have d: "drop i (ht_table t) = ht_table t ! i # drop (Suc i) (ht_table t)"
    using Suc.prems(1) by (intro Cons_nth_drop_Suc [symmetric]) simp
  show ?case
  proof (cases "u = 0")
    case True
    with Suc.prems show ?thesis by (subst p_dictClear_loop.simps) simp
  next
    case False
    have "p_dictClear_loop t i u freed =
        p_dictClear_loop t (i + 1) (u - length (ht_table t ! i)) (freed @ ht_table t ! i)"
      using Suc.prems(1) i False by (subst p_dictClear_loop.simps) (simp add: rd_ok)
    also have "\<dots> = Some ((freed @ ht_table t ! i) @ concat (drop (i + 1) (ht_table t)))"
      using Suc.prems d i Suc.hyps(2) by (intro Suc.hyps(1)) auto
    finally show ?thesis by (simp add: d)
  qed
qed (subst p_dictClear_loop.simps, simp)

lemma p_dictClear_ok: "ht_ok hash t \<Longrightarrow> p_dictClear t = Some (p_dictReset, concat (ht_table t))"
  using p_dictClear_loop_ok [of t 0] by (simp add: p_dictClear_def ht_ok_def)

lemma dictEmpty_entries:
  assumes "dict_ok valid d"
  shows "dictEmpty d = Some (dictCreate (d_type d), dict_entries d)"
proof -
  have "p_dictClear (ht0 d) = Some (p_dictReset, concat (ht_table (ht0 d)))"
    "p_dictClear (ht1 d) = Some (p_dictReset, concat (ht_table (ht1 d)))"
    using assms p_dictClear_ok by (auto simp: dict_ok_def)
  then show ?thesis by (simp add: dictEmpty_def dictCreate_def p_dictInit_def dict_entries_def)
qed

lemma dictRelease_entries: "dict_ok valid d \<Longrightarrow> dictRelease d = Some (dict_entries d)"
  using p_dictClear_ok [of "hashFunction (d_type d)" "ht0 d"] p_dictClear_ok [of "hashFunction (d_type d)" "ht1 d"]
  by (simp add: dictRelease_def dict_ok_def dict_entries_def)

end
