(* ===== verification/Object.thy ===== *)
theory Object
  imports Util Dict
begin

text \<open>
  \<open>object.c\<close>: string objects, raw or encoded as an integer, and the key functions of the
  dictionary types of \<open>redis.c\<close>. A raw string is the bytes of its sds (the free space behind
  them, which only \<open>sdsRemoveFreeSpace\<close> changes, does not appear); the field \<open>lru\<close> is not
  read by these functions. \<open>None\<close> is a failed assertion, a panic or an access outside a buffer.
\<close>

section \<open>String objects\<close>

datatype encoded = REDIS_ENCODING_RAW "byte list" | REDIS_ENCODING_INT u64

record robj =
  o_ptr :: encoded
  o_refcount :: int

definition createStringObject :: "byte list \<Rightarrow> robj" where
  "createStringObject s = \<lparr>o_ptr = REDIS_ENCODING_RAW s, o_refcount = 1\<rparr>"

definition incrRefCount :: "robj \<Rightarrow> robj" where
  "incrRefCount ob = ob\<lparr>o_refcount := o_refcount ob + 1\<rparr>"

text \<open>\<open>decrRefCount\<close>: \<open>None\<close> is the panic, \<open>Some None\<close> the freed object.\<close>

definition decrRefCount :: "robj \<Rightarrow> robj option option" where
  "decrRefCount ob =
     (if o_refcount ob \<le> 0 then None
      else if o_refcount ob = 1 then Some None
      else Some (Some (ob\<lparr>o_refcount := o_refcount ob - 1\<rparr>)))"

abbreviation REDIS_SHARED_INTEGERS :: int where "REDIS_SHARED_INTEGERS \<equiv> 10000"

text \<open>\<open>shared\<close> is the table \<open>shared.integers\<close>; \<open>long\<close> and \<open>long long\<close> have 64 bits, so the
  branch for values outside \<open>long\<close> is not reached.\<close>

definition createStringObjectFromLongLong :: "(int \<Rightarrow> robj) \<Rightarrow> u64 \<Rightarrow> robj" where
  "createStringObjectFromLongLong shared v =
     (if sint v \<ge> 0 \<and> sint v < REDIS_SHARED_INTEGERS then incrRefCount (shared (sint v))
      else \<lparr>o_ptr = REDIS_ENCODING_INT v, o_refcount = 1\<rparr>)"

definition dupStringObject :: "robj \<Rightarrow> robj option" where
  "dupStringObject ob =
     (case o_ptr ob of REDIS_ENCODING_RAW s \<Rightarrow> Some (createStringObject s) | _ \<Rightarrow> None)"

definition isObjectRepresentableAsLongLong :: "robj \<Rightarrow> u64 option" where
  "isObjectRepresentableAsLongLong ob =
     (case o_ptr ob of REDIS_ENCODING_INT v \<Rightarrow> Some v | REDIS_ENCODING_RAW s \<Rightarrow> string2ll s)"

text \<open>\<open>use_shared\<close> is the condition on \<open>server.maxmemory\<close> and its policy.\<close>

definition tryObjectEncoding :: "bool \<Rightarrow> (int \<Rightarrow> robj) \<Rightarrow> robj \<Rightarrow> robj" where
  "tryObjectEncoding use_shared shared ob =
     (case o_ptr ob of
        REDIS_ENCODING_INT v \<Rightarrow> ob
      | REDIS_ENCODING_RAW s \<Rightarrow>
          if o_refcount ob > 1 then ob
          else if length s > 21 then ob
          else (case string2l s of
                  None \<Rightarrow> ob
                | Some v \<Rightarrow>
                    if use_shared \<and> sint v \<ge> 0 \<and> sint v < REDIS_SHARED_INTEGERS
                    then incrRefCount (shared (sint v))
                    else ob\<lparr>o_ptr := REDIS_ENCODING_INT v\<rparr>))"

text \<open>A buffer of \<open>n\<close> bytes on the stack, with what was there before.\<close>

definition stackbuf :: "(nat \<Rightarrow> byte) \<Rightarrow> nat \<Rightarrow> byte list" where
  "stackbuf junk n = map junk [0..<n]"

definition getDecodedObject :: "(nat \<Rightarrow> byte) \<Rightarrow> robj \<Rightarrow> robj option" where
  "getDecodedObject junk ob =
     (case o_ptr ob of
        REDIS_ENCODING_RAW s \<Rightarrow> Some (incrRefCount ob)
      | REDIS_ENCODING_INT v \<Rightarrow> do {
          (buf, len) \<leftarrow> ll2string (stackbuf junk 32) 32 v;
          n \<leftarrow> strlen buf;
          Some (createStringObject (take n buf))
        })"

definition string_of_arg :: "(nat \<Rightarrow> byte) \<Rightarrow> robj \<Rightarrow> byte list option" where
  "string_of_arg junk ob =
     (case o_ptr ob of
        REDIS_ENCODING_INT v \<Rightarrow> do {
          (buf, len) \<leftarrow> ll2string (stackbuf junk 128) 128 v;
          Some (take (unat len) buf)
        }
      | REDIS_ENCODING_RAW s \<Rightarrow> Some s)"

text \<open>\<open>compareStringObjectsWithFlags\<close>: \<open>same\<close> is the test \<open>a == b\<close> on the pointers,
  \<open>strcoll\<close> the collation of the C library. The length difference is cut to an \<open>int\<close>.\<close>

definition compareStringObjectsWithFlags ::
    "(byte list \<Rightarrow> byte list \<Rightarrow> int) \<Rightarrow> (nat \<Rightarrow> byte) \<Rightarrow> (nat \<Rightarrow> byte) \<Rightarrow> bool \<Rightarrow> robj \<Rightarrow> robj \<Rightarrow> bool \<Rightarrow> int option" where
  "compareStringObjectsWithFlags strcoll junka junkb same a b coll =
     (if same then Some 0
      else do {
        astr \<leftarrow> string_of_arg junka a;
        bstr \<leftarrow> string_of_arg junkb b;
        if coll then Some (strcoll astr bstr)
        else
          let minlen = (if length astr < length bstr then length astr else length bstr);
              cmp = memcmp (take minlen astr) (take minlen bstr)
          in if cmp = 0 then Some (sint (of_nat (length astr) - of_nat (length bstr) :: u32))
             else Some cmp
      })"

definition compareStringObjects :: "(nat \<Rightarrow> byte) \<Rightarrow> (nat \<Rightarrow> byte) \<Rightarrow> bool \<Rightarrow> robj \<Rightarrow> robj \<Rightarrow> int option" where
  "compareStringObjects junka junkb same a b =
     compareStringObjectsWithFlags (\<lambda>_ _. 0) junka junkb same a b False"

definition collateStringObjects ::
    "(byte list \<Rightarrow> byte list \<Rightarrow> int) \<Rightarrow> (nat \<Rightarrow> byte) \<Rightarrow> (nat \<Rightarrow> byte) \<Rightarrow> bool \<Rightarrow> robj \<Rightarrow> robj \<Rightarrow> int option" where
  "collateStringObjects strcoll junka junkb same a b =
     compareStringObjectsWithFlags strcoll junka junkb same a b True"

definition equalStringObjects :: "(nat \<Rightarrow> byte) \<Rightarrow> (nat \<Rightarrow> byte) \<Rightarrow> bool \<Rightarrow> robj \<Rightarrow> robj \<Rightarrow> bool option" where
  "equalStringObjects junka junkb same a b =
     (case (o_ptr a, o_ptr b) of
        (REDIS_ENCODING_INT v, REDIS_ENCODING_INT w) \<Rightarrow> Some (v = w)
      | _ \<Rightarrow> map_option (\<lambda>c. c = 0) (compareStringObjects junka junkb same a b))"

definition stringObjectLen :: "(nat \<Rightarrow> byte) \<Rightarrow> robj \<Rightarrow> nat option" where
  "stringObjectLen junk ob =
     (case o_ptr ob of
        REDIS_ENCODING_RAW s \<Rightarrow> Some (length s)
      | REDIS_ENCODING_INT v \<Rightarrow> do { (buf, len) \<leftarrow> ll2string (stackbuf junk 32) 32 v; Some (unat len) })"

section \<open>Reading an integer\<close>

text \<open>\<open>strtoll\<close> of the C library in base 10 on a NUL-terminated string: white space, an optional
  sign, digits; the value, the rest, and whether the value is out of range. With no digits the
  rest is the whole string.\<close>

definition strtoll :: "byte list \<Rightarrow> int \<times> byte list \<times> bool" where
  "strtoll s =
     (let p = dropWhile isspace s;
          neg = (case p of c # _ \<Rightarrow> c = 45 | [] \<Rightarrow> False);
          p = (case p of c # q \<Rightarrow> if c = 45 \<or> c = 43 then q else p | [] \<Rightarrow> []);
          ds = takeWhile isdigit p;
          n = int (undec 0 ds);
          n = (if neg then - n else n)
      in if ds = [] then (0, s, False)
         else if n < - (2 ^ 63) then (- (2 ^ 63), dropWhile isdigit p, True)
         else if n > 2 ^ 63 - 1 then (2 ^ 63 - 1, dropWhile isdigit p, True)
         else (n, dropWhile isdigit p, False))"

definition getLongLongFromObject :: "robj option \<Rightarrow> u64 option option" where
  "getLongLongFromObject ob =
     (case ob of
        None \<Rightarrow> Some (Some 0)
      | Some ob \<Rightarrow>
          (case o_ptr ob of
             REDIS_ENCODING_INT v \<Rightarrow> Some (Some v)
           | REDIS_ENCODING_RAW s \<Rightarrow>
               (let (n, eptr, erange) = strtoll (s @ [0])
                in do {
                  c0 \<leftarrow> rd (s @ [0]) 0;
                  e0 \<leftarrow> rd eptr 0;
                  if isspace c0 \<or> e0 \<noteq> 0 \<or> erange then Some None
                  else Some (Some (word_of_int n))
                })))"

section \<open>Keys of dictionaries\<close>

definition dictSdsKeyCompare :: "byte list \<Rightarrow> byte list \<Rightarrow> bool" where
  "dictSdsKeyCompare key1 key2 = (if length key1 \<noteq> length key2 then False else memcmp key1 key2 = 0)"

definition dictSdsKeyCaseCompare :: "byte list \<Rightarrow> byte list \<Rightarrow> bool" where
  "dictSdsKeyCaseCompare key1 key2 = (strcasecmp (key1 @ [0]) (key2 @ [0]) = 0)"

definition dictSdsHash :: "u32 \<Rightarrow> byte list \<Rightarrow> u32" where
  "dictSdsHash seed key = dictGenHashFunction seed key"

definition dictSdsCaseHash :: "u32 \<Rightarrow> byte list \<Rightarrow> u32" where
  "dictSdsCaseHash seed key = dictGenCaseHashFunction seed key"

text \<open>On objects. \<open>dictObjKeyCompare\<close> and \<open>dictObjHash\<close> read \<open>ptr\<close> as an sds, and are
  used with raw objects only.\<close>

definition sds_of :: "robj \<Rightarrow> byte list" where
  "sds_of ob = (case o_ptr ob of REDIS_ENCODING_RAW s \<Rightarrow> s | REDIS_ENCODING_INT v \<Rightarrow> [])"

definition dictObjKeyCompare :: "robj \<Rightarrow> robj \<Rightarrow> bool" where
  "dictObjKeyCompare o1 o2 = dictSdsKeyCompare (sds_of o1) (sds_of o2)"

definition dictObjHash :: "u32 \<Rightarrow> robj \<Rightarrow> u32" where
  "dictObjHash seed ob = dictGenHashFunction seed (sds_of ob)"

text \<open>A missing result of \<open>getDecodedObject\<close> would be a panic; it does not occur.\<close>

definition dictEncObjKeyCompare :: "(nat \<Rightarrow> byte) \<Rightarrow> robj \<Rightarrow> robj \<Rightarrow> bool option" where
  "dictEncObjKeyCompare junk o1 o2 =
     (case (o_ptr o1, o_ptr o2) of
        (REDIS_ENCODING_INT v, REDIS_ENCODING_INT w) \<Rightarrow> Some (v = w)
      | _ \<Rightarrow> do {
          o1 \<leftarrow> getDecodedObject junk o1;
          o2 \<leftarrow> getDecodedObject junk o2;
          Some (dictSdsKeyCompare (sds_of o1) (sds_of o2))
        })"

definition dictEncObjHash :: "(nat \<Rightarrow> byte) \<Rightarrow> u32 \<Rightarrow> robj \<Rightarrow> u32 option" where
  "dictEncObjHash junk seed ob =
     (case o_ptr ob of
        REDIS_ENCODING_RAW s \<Rightarrow> Some (dictGenHashFunction seed s)
      | REDIS_ENCODING_INT v \<Rightarrow> do {
          (buf, len) \<leftarrow> ll2string (stackbuf junk 32) 32 v;
          Some (dictGenHashFunction seed (take (unat len) buf))
        })"

text \<open>The tables of functions. A result of the encoded-object functions is always there
  (\<open>dictEncObjKeyCompare_eq\<close> and \<open>dictEncObjHash_eq\<close> below).\<close>

definition setDictType :: "(nat \<Rightarrow> byte) \<Rightarrow> u32 \<Rightarrow> (robj, 'v) dictType" where
  "setDictType junk seed = \<lparr>hashFunction = \<lambda>key. the (dictEncObjHash junk seed key), keyDup = None, valDup = None,
     keyCompare = Some (\<lambda>key1 key2. the (dictEncObjKeyCompare junk key1 key2))\<rparr>"

definition zsetDictType :: "(nat \<Rightarrow> byte) \<Rightarrow> u32 \<Rightarrow> (robj, 'v) dictType" where
  "zsetDictType junk seed = \<lparr>hashFunction = \<lambda>key. the (dictEncObjHash junk seed key), keyDup = None, valDup = None,
     keyCompare = Some (\<lambda>key1 key2. the (dictEncObjKeyCompare junk key1 key2))\<rparr>"

definition hashDictType :: "(nat \<Rightarrow> byte) \<Rightarrow> u32 \<Rightarrow> (robj, 'v) dictType" where
  "hashDictType junk seed = \<lparr>hashFunction = \<lambda>key. the (dictEncObjHash junk seed key), keyDup = None, valDup = None,
     keyCompare = Some (\<lambda>key1 key2. the (dictEncObjKeyCompare junk key1 key2))\<rparr>"

definition dbDictType :: "u32 \<Rightarrow> (byte list, 'v) dictType" where
  "dbDictType seed = \<lparr>hashFunction = dictSdsHash seed, keyDup = None, valDup = None,
     keyCompare = Some dictSdsKeyCompare\<rparr>"

definition keyptrDictType :: "u32 \<Rightarrow> (byte list, 'v) dictType" where
  "keyptrDictType seed = \<lparr>hashFunction = dictSdsHash seed, keyDup = None, valDup = None,
     keyCompare = Some dictSdsKeyCompare\<rparr>"

definition shaScriptObjectDictType :: "u32 \<Rightarrow> (byte list, 'v) dictType" where
  "shaScriptObjectDictType seed = \<lparr>hashFunction = dictSdsCaseHash seed, keyDup = None, valDup = None,
     keyCompare = Some dictSdsKeyCaseCompare\<rparr>"

definition commandTableDictType :: "u32 \<Rightarrow> (byte list, 'v) dictType" where
  "commandTableDictType seed = \<lparr>hashFunction = dictSdsCaseHash seed, keyDup = None, valDup = None,
     keyCompare = Some dictSdsKeyCaseCompare\<rparr>"

definition replScriptCacheDictType :: "u32 \<Rightarrow> (byte list, 'v) dictType" where
  "replScriptCacheDictType seed = \<lparr>hashFunction = dictSdsCaseHash seed, keyDup = None, valDup = None,
     keyCompare = Some dictSdsKeyCaseCompare\<rparr>"

definition keylistDictType :: "u32 \<Rightarrow> (robj, 'v) dictType" where
  "keylistDictType seed = \<lparr>hashFunction = dictObjHash seed, keyDup = None, valDup = None,
     keyCompare = Some dictObjKeyCompare\<rparr>"

section \<open>The string of an object\<close>

definition obj_string :: "robj \<Rightarrow> byte list" where
  "obj_string ob = (case o_ptr ob of REDIS_ENCODING_RAW s \<Rightarrow> s | REDIS_ENCODING_INT v \<Rightarrow> sdec (sint v))"

lemma length_stackbuf [simp]: "length (stackbuf junk n) = n"
  by (simp add: stackbuf_def)

lemma obj_string_simps:
  "o_ptr ob = REDIS_ENCODING_RAW s \<Longrightarrow> obj_string ob = s"
  "o_ptr ob = REDIS_ENCODING_INT v \<Longrightarrow> obj_string ob = sdec (sint v)"
  by (simp_all add: obj_string_def)

lemma sdec_inj: "sdec (sint v) = sdec (sint w) \<longleftrightarrow> v = (w :: u64)"
  by (metis option.inject string2ll_iff)

lemma sdec_nonzero: "c \<in> set (sdec x) \<Longrightarrow> c \<noteq> 0"
proof -
  have "c \<in> set (dec n) \<Longrightarrow> c \<noteq> 0" for n using dec_isdigit [of n] by (auto simp: list_all_iff)
  then show "c \<in> set (sdec x) \<Longrightarrow> c \<noteq> 0" by (auto simp: sdec_def split: if_splits)
qed

lemma unat_length_sdec: "unat (of_nat (length (sdec (sint (v :: u64)))) :: u32) = length (sdec (sint v))"
  using length_sdec [of v] by (simp add: unsigned_of_nat take_bit_nat_eq_self)

lemma ll2string_stackbuf:
  assumes "32 \<le> n"
  shows "ll2string (stackbuf junk n) n v =
    Some (sdec (sint v) @ [0] @ drop (length (sdec (sint v)) + 1) (stackbuf junk n), of_nat (length (sdec (sint v))))"
  using assms length_sdec [of v] by (simp add: ll2string_sdec)

lemma string_of_arg_string: "string_of_arg junk ob = Some (obj_string ob)"
  by (simp add: string_of_arg_def obj_string_def ll2string_stackbuf unat_length_sdec split: encoded.split)

lemma getDecodedObject_string:
  "\<exists>ob'. getDecodedObject junk ob = Some ob' \<and> o_ptr ob' = REDIS_ENCODING_RAW (obj_string ob)"
proof (cases "o_ptr ob")
  case (REDIS_ENCODING_INT v)
  define r where "r = drop (Suc (length (sdec (sint v)))) (stackbuf junk 32)"
  have "takeWhile (\<lambda>c. c \<noteq> 0) (sdec (sint v) @ 0 # r) = sdec (sint v)"
    using sdec_nonzero by (simp add: takeWhile_append2)
  then show ?thesis
    using REDIS_ENCODING_INT ll2string_stackbuf [of 32 junk v]
    by (simp add: getDecodedObject_def r_def [symmetric] strlen_def createStringObject_def obj_string_def)
qed (simp add: getDecodedObject_def incrRefCount_def obj_string_def)

lemma dictSdsKeyCompare_eq: "dictSdsKeyCompare a b \<longleftrightarrow> a = b"
  by (auto simp: dictSdsKeyCompare_def memcmp_eq)

lemma dictEncObjKeyCompare_eq: "dictEncObjKeyCompare junk a b = Some (obj_string a = obj_string b)"
  using getDecodedObject_string [of junk a] getDecodedObject_string [of junk b]
  by (auto simp: dictEncObjKeyCompare_def dictSdsKeyCompare_eq sds_of_def sdec_inj obj_string_def split: encoded.split)

lemma dictEncObjHash_eq: "dictEncObjHash junk seed ob = Some (dictGenHashFunction seed (obj_string ob))"
  by (simp add: dictEncObjHash_def obj_string_def ll2string_stackbuf unat_length_sdec split: encoded.split)

text \<open>The case-insensitive hash reads the string through \<open>tolower\<close> only.\<close>

lemma dictGenCaseHashFunction_tolower:
  "map tolower a = map tolower b \<Longrightarrow> dictGenCaseHashFunction seed a = dictGenCaseHashFunction seed b"
proof -
  have "map tolower a = map tolower b \<Longrightarrow> dictGenCaseHashFunction_loop h a = dictGenCaseHashFunction_loop h b" for h
  proof (induction a arbitrary: b h)
    case (Cons c a)
    then obtain c' b' where "b = c' # b'" "tolower c = tolower c'" "map tolower a = map tolower b'" by auto
    with Cons.IH show ?case by simp
  qed simp
  then show "map tolower a = map tolower b \<Longrightarrow> ?thesis" by (simp add: dictGenCaseHashFunction_def)
qed

section \<open>The dictionary types meet their contract\<close>

lemma enc_type_contract:
  assumes "hashFunction ty = (\<lambda>key. the (dictEncObjHash junk seed key))" "keyDup ty = None"
    "keyCompare ty = Some (\<lambda>key1 key2. the (dictEncObjKeyCompare junk key1 key2))"
  shows "dictType_contract ty (\<lambda>_. True)"
  using assms
  by unfold_locales (auto simp: cmp_equiv_def cmp_of_def dup_of_def dictEncObjKeyCompare_eq dictEncObjHash_eq)

lemma sds_type_contract:
  assumes "hashFunction ty = dictSdsHash seed" "keyDup ty = None" "keyCompare ty = Some dictSdsKeyCompare"
  shows "dictType_contract ty (\<lambda>_. True)"
  using assms by unfold_locales (auto simp: cmp_equiv_def cmp_of_def dup_of_def dictSdsKeyCompare_eq)

lemma case_type_contract:
  assumes "hashFunction ty = dictSdsCaseHash seed" "keyDup ty = None" "keyCompare ty = Some dictSdsKeyCaseCompare"
  shows "dictType_contract ty (\<lambda>key. 0 \<notin> set key)"
  using assms
  by unfold_locales (auto simp: cmp_equiv_def cmp_of_def dup_of_def dictSdsKeyCaseCompare_def strcasecmp_eq
      dictSdsCaseHash_def intro: dictGenCaseHashFunction_tolower)

interpretation set_dict: dictType_contract "setDictType junk seed" "\<lambda>_. True" for junk seed
  by (rule enc_type_contract) (simp_all add: setDictType_def)

interpretation zset_dict: dictType_contract "zsetDictType junk seed" "\<lambda>_. True" for junk seed
  by (rule enc_type_contract) (simp_all add: zsetDictType_def)

interpretation hash_dict: dictType_contract "hashDictType junk seed" "\<lambda>_. True" for junk seed
  by (rule enc_type_contract) (simp_all add: hashDictType_def)

interpretation db_dict: dictType_contract "dbDictType seed" "\<lambda>_. True" for seed
  by (rule sds_type_contract) (simp_all add: dbDictType_def)

interpretation keyptr_dict: dictType_contract "keyptrDictType seed" "\<lambda>_. True" for seed
  by (rule sds_type_contract) (simp_all add: keyptrDictType_def)

interpretation command_dict: dictType_contract "commandTableDictType seed" "\<lambda>key. 0 \<notin> set key" for seed
  by (rule case_type_contract) (simp_all add: commandTableDictType_def)

interpretation script_dict: dictType_contract "shaScriptObjectDictType seed" "\<lambda>key. 0 \<notin> set key" for seed
  by (rule case_type_contract) (simp_all add: shaScriptObjectDictType_def)

interpretation replscript_dict: dictType_contract "replScriptCacheDictType seed" "\<lambda>key. 0 \<notin> set key" for seed
  by (rule case_type_contract) (simp_all add: replScriptCacheDictType_def)

interpretation keylist_dict: dictType_contract "keylistDictType seed" "\<lambda>_. True" for seed
  by unfold_locales (auto simp: cmp_equiv_def cmp_of_def dup_of_def keylistDictType_def dictObjKeyCompare_def
      dictObjHash_def dictSdsKeyCompare_eq)

section \<open>Encodings do not change strings\<close>

text \<open>\<open>shared.integers\<close> as \<open>createSharedObjects\<close> fills it: the integer \<open>i\<close> at place \<open>i\<close>.\<close>

definition shared_ok :: "(int \<Rightarrow> robj) \<Rightarrow> bool" where
  "shared_ok shared \<longleftrightarrow> (\<forall>i\<in>{0..<REDIS_SHARED_INTEGERS}. o_ptr (shared i) = REDIS_ENCODING_INT (word_of_int i))"

lemma string2l_iff: "string2l s = Some v \<longleftrightarrow> s = sdec (sint v)"
proof -
  have "string2l s = string2ll s"
  proof (cases "string2ll s")
    case (Some w)
    have "- (2 ^ 63) \<le> sint w" "sint w < 2 ^ 63"
      using sint_greater_eq [of w] sint_less [of w] by simp_all
    with Some show ?thesis by (simp add: string2l_def)
  qed (simp add: string2l_def)
  then show ?thesis by (simp add: string2ll_iff)
qed

lemma tryObjectEncoding_cases:
  assumes "shared_ok shared"
  shows "o_ptr (tryObjectEncoding use_shared shared ob) =
     (case o_ptr ob of
        REDIS_ENCODING_INT v \<Rightarrow> REDIS_ENCODING_INT v
      | REDIS_ENCODING_RAW s \<Rightarrow>
          (case string2ll s of
             Some v \<Rightarrow> if o_refcount ob \<le> 1 then REDIS_ENCODING_INT v else REDIS_ENCODING_RAW s
           | None \<Rightarrow> REDIS_ENCODING_RAW s))"
proof (cases "o_ptr ob")
  case (REDIS_ENCODING_RAW s)
  show ?thesis
  proof (cases "string2ll s")
    case None
    then have "string2l s = None" by (simp add: string2l_def)
    with None REDIS_ENCODING_RAW show ?thesis by (simp add: tryObjectEncoding_def)
  next
    case (Some v)
    then have s: "s = sdec (sint v)" by (simp add: string2ll_iff)
    then have "string2l s = Some v" "length s \<le> 20" using length_sdec [of v] by (simp_all add: string2l_iff)
    moreover have "o_ptr (shared (sint v)) = REDIS_ENCODING_INT v" if "0 \<le> sint v" "sint v < REDIS_SHARED_INTEGERS"
      using assms that by (simp add: shared_ok_def)
    ultimately show ?thesis using Some REDIS_ENCODING_RAW by (simp add: tryObjectEncoding_def incrRefCount_def)
  qed
qed (simp add: tryObjectEncoding_def)

lemma tryObjectEncoding_string:
  assumes "shared_ok shared"
  shows "obj_string (tryObjectEncoding use_shared shared ob) = obj_string ob"
  unfolding obj_string_def tryObjectEncoding_cases [OF assms]
  by (auto simp: string2ll_iff split: encoded.split option.split)

lemma compareStringObjects_lex:
  assumes "same \<longrightarrow> a = b" "length (obj_string a) < 2 ^ 31" "length (obj_string b) < 2 ^ 31"
  shows "\<exists>c. compareStringObjects junka junkb same a b = Some c \<and>
     (c = 0 \<longleftrightarrow> obj_string a = obj_string b) \<and> (c < 0 \<longleftrightarrow> ord_class.lexordp (obj_string a) (obj_string b))"
proof (cases same)
  case True
  then show ?thesis
    using assms(1) lexordp_irreflexive' [of "obj_string b"]
    by (simp add: compareStringObjects_def compareStringObjectsWithFlags_def)
next
  case False
  define n where "n = min (length (obj_string a)) (length (obj_string b))"
  define m where "m = memcmp (take n (obj_string a)) (take n (obj_string b))"
  have m: "m = -1 \<or> m = 0 \<or> m = 1" unfolding m_def by (rule memcmp_range)
  have "compareStringObjects junka junkb same a b =
      Some (if m = 0 then int (length (obj_string a)) - int (length (obj_string b)) else m)"
    using False sint_length_diff [OF assms(2,3)]
    by (simp add: compareStringObjects_def compareStringObjectsWithFlags_def string_of_arg_string Let_def
        m_def n_def min_def)
  then show ?thesis
    using lexordp_memcmp [OF n_def, folded m_def] m by auto
qed

lemma equalStringObjects_eq:
  assumes "same \<longrightarrow> a = b" "length (obj_string a) < 2 ^ 31" "length (obj_string b) < 2 ^ 31"
  shows "equalStringObjects junka junkb same a b = Some (obj_string a = obj_string b)"
proof -
  obtain c where "compareStringObjects junka junkb same a b = Some c" "c = 0 \<longleftrightarrow> obj_string a = obj_string b"
    using compareStringObjects_lex [OF assms] by blast
  then show ?thesis
    by (auto simp: equalStringObjects_def obj_string_def sdec_inj split: encoded.splits)
qed

section \<open>Integers in strings\<close>

lemma takeWhile_digits:
  assumes "list_all isdigit ds"
  shows "takeWhile isdigit (ds @ [0]) = ds" "dropWhile isdigit (ds @ [0]) = [0]"
  using assms by (induction ds) auto

lemma strtoll_digits:
  assumes "ds \<noteq> []" "list_all isdigit ds" "int (undec 0 ds) < 2 ^ 63"
  shows "strtoll (ds @ [0]) = (int (undec 0 ds), [0], False)"
proof -
  obtain c cs where ds: "ds = c # cs" using assms(1) by (cases ds) auto
  then have c: "isdigit c" using assms(2) by simp
  then have "\<not> isspace c" "c \<noteq> 45" "c \<noteq> 43" by (auto simp: isspace_def) (auto simp: word_le_nat_alt)
  then show ?thesis
    using takeWhile_digits [OF assms(2)] assms(3) unfolding ds by (simp add: strtoll_def Let_def)
qed

lemma strtoll_minus:
  assumes "ds \<noteq> []" "list_all isdigit ds" "int (undec 0 ds) \<le> 2 ^ 63"
  shows "strtoll (45 # ds @ [0]) = (- int (undec 0 ds), [0], False)"
  using takeWhile_digits [OF assms(2)] assms by (simp add: strtoll_def Let_def isspace_def)

lemma getLongLongFromObject_canonical:
  assumes "obj_string ob = sdec (sint v)"
  shows "getLongLongFromObject (Some ob) = Some (Some v)"
proof (cases "o_ptr ob")
  case (REDIS_ENCODING_RAW s)
  have s: "s = sdec (sint v)" using assms REDIS_ENCODING_RAW by (simp add: obj_string_def)
  have b: "- (2 ^ 63) \<le> sint v" "sint v < 2 ^ 63"
    using sint_greater_eq [of v] sint_less [of v] by simp_all
  have "strtoll (s @ [0]) = (sint v, [0], False)"
  proof (cases "sint v < 0")
    case True
    then show ?thesis using strtoll_minus [of "dec (nat (- sint v))"] b dec_isdigit
      by (simp add: s sdec_def undec_dec)
  next
    case False
    then show ?thesis using strtoll_digits [of "dec (nat (sint v))"] b dec_isdigit
      by (simp add: s sdec_def undec_dec)
  qed
  moreover have "\<exists>c r. s = c # r \<and> (isdigit c \<or> c = 45)"
  proof (cases "sint v < 0")
    case False
    obtain c r where "dec (nat (sint v)) = c # r" using dec_nonempty [of "nat (sint v)"] by (cases "dec (nat (sint v))") auto
    then show ?thesis using dec_isdigit [of "nat (sint v)"] False by (simp add: s sdec_def)
  qed (simp add: s sdec_def)
  then obtain c r where "s = c # r" "isdigit c \<or> c = 45" by blast
  moreover have "\<not> isspace c" using calculation(3) by (auto simp: isspace_def) (auto simp: word_le_nat_alt)
  ultimately show ?thesis using REDIS_ENCODING_RAW by (simp add: getLongLongFromObject_def rd_ok)
next
  case (REDIS_ENCODING_INT w)
  with assms show ?thesis by (simp add: obj_string_def sdec_inj getLongLongFromObject_def)
qed

section \<open>Properties\<close>

text \<open>C19: encoding a string object never changes the string it stands for, uses the integer encoding
  exactly for the canonical spellings of 64-bit integers when the object is not shared, and
  \<open>getDecodedObject\<close> gives the string back as a raw object.\<close>

theorem object_encoding:
  assumes "shared_ok shared"
  shows "obj_string (tryObjectEncoding use_shared shared ob) = obj_string ob \<and>
    (o_refcount ob \<le> 1 \<longrightarrow>
      (\<forall>v. o_ptr (tryObjectEncoding use_shared shared ob) = REDIS_ENCODING_INT v \<longleftrightarrow> obj_string ob = sdec (sint v))) \<and>
    (\<exists>ob'. getDecodedObject junk (tryObjectEncoding use_shared shared ob) = Some ob' \<and>
           o_ptr ob' = REDIS_ENCODING_RAW (obj_string ob))"
proof -
  have e: "obj_string (tryObjectEncoding use_shared shared ob) = obj_string ob"
    by (rule tryObjectEncoding_string [OF assms])
  moreover have "o_ptr (tryObjectEncoding use_shared shared ob) = REDIS_ENCODING_INT v \<longleftrightarrow> obj_string ob = sdec (sint v)"
    if "o_refcount ob \<le> 1" for v
  proof (cases "o_ptr ob")
    case (REDIS_ENCODING_RAW s)
    then show ?thesis
      using that string2ll_iff [of s v]
      by (auto simp: tryObjectEncoding_cases [OF assms] obj_string_def split: option.split)
  qed (auto simp: tryObjectEncoding_cases [OF assms] obj_string_def sdec_inj)
  ultimately show ?thesis using getDecodedObject_string by metis
qed

theorem object_encoding_witness:
  "obj_string (tryObjectEncoding True (\<lambda>i. \<lparr>o_ptr = REDIS_ENCODING_INT (word_of_int i), o_refcount = 1\<rparr>)
     (createStringObject [45, 49, 50])) = [45, 49, 50]"
proof -
  have "shared_ok (\<lambda>i. \<lparr>o_ptr = REDIS_ENCODING_INT (word_of_int i), o_refcount = 1\<rparr>)" by (simp add: shared_ok_def)
  from object_encoding [OF this, of True "createStringObject [45, 49, 50]"] show ?thesis
    by (simp add: createStringObject_def obj_string_def)
qed

text \<open>C20: comparison of string objects is the lexicographic comparison of their bytes, whatever their
  encodings, and \<open>equalStringObjects\<close> is equality of the strings.\<close>

theorem object_compare:
  assumes "same \<longrightarrow> a = b" "length (obj_string a) < 2 ^ 31" "length (obj_string b) < 2 ^ 31"
  shows "(\<exists>c. compareStringObjects junka junkb same a b = Some c \<and>
      (c = 0 \<longleftrightarrow> obj_string a = obj_string b) \<and> (c < 0 \<longleftrightarrow> ord_class.lexordp (obj_string a) (obj_string b))) \<and>
    equalStringObjects junka junkb same a b = Some (obj_string a = obj_string b)"
  using compareStringObjects_lex [OF assms] equalStringObjects_eq [OF assms] by blast

theorem object_compare_witness:
  "equalStringObjects (\<lambda>_. 7) (\<lambda>_. 8) False (createStringObject [55]) \<lparr>o_ptr = REDIS_ENCODING_INT 7, o_refcount = 1\<rparr> =
    Some True"
proof -
  have "sdec 7 = [55]" by (simp add: sdec_def dec_small)
  with object_compare [of False "createStringObject [55]" "\<lparr>o_ptr = REDIS_ENCODING_INT 7, o_refcount = 1\<rparr>" "\<lambda>_. 7" "\<lambda>_. 8"]
  show ?thesis by (simp add: createStringObject_def obj_string_def)
qed



end
