(* ===== verification/Dict_Iter.thy ===== *)
theory Dict_Iter
  imports Dict
begin

text \<open>
  The iterators of \<open>dict.c\<close>, and \<open>dictGetRandomKey\<close>. A pointer to an entry is the chain that
  starts at it, and the null pointer is the empty chain. The addresses of the two bucket arrays,
  which the fingerprint of an unsafe iterator reads, are the argument \<open>ptrs\<close>.
\<close>

section \<open>Iterators\<close>

definition fingerprint_mix :: "u64 \<Rightarrow> u64 \<Rightarrow> u64" where
  "fingerprint_mix hash i =
     (let hash = hash + i;
          hash = NOT hash + push_bit 21 hash;
          hash = hash XOR signed_drop_bit 24 hash;
          hash = (hash + push_bit 3 hash) + push_bit 8 hash;
          hash = hash XOR signed_drop_bit 14 hash;
          hash = (hash + push_bit 2 hash) + push_bit 4 hash;
          hash = hash XOR signed_drop_bit 28 hash;
          hash = hash + push_bit 31 hash
      in hash)"

definition dictFingerprint :: "u64 \<times> u64 \<Rightarrow> ('k, 'v) dict \<Rightarrow> u64" where
  "dictFingerprint ptrs d =
     foldl fingerprint_mix 0
       [fst ptrs, of_nat (ht_size (ht0 d)), of_nat (ht_used (ht0 d)),
        snd ptrs, of_nat (ht_size (ht1 d)), of_nat (ht_used (ht1 d))]"

record ('k, 'v) dictIterator =
  it_index :: int
  it_table :: nat
  it_safe :: bool
  it_entry :: "('k, 'v) dictEntry list"
  it_nextEntry :: "('k, 'v) dictEntry list"
  it_fingerprint :: u64

text \<open>\<open>fp\<close> is the uninitialised fingerprint field.\<close>

definition dictGetIterator :: "u64 \<Rightarrow> ('k, 'v) dictIterator" where
  "dictGetIterator fp = \<lparr>it_index = -1, it_table = 0, it_safe = False, it_entry = [], it_nextEntry = [],
     it_fingerprint = fp\<rparr>"

definition dictGetSafeIterator :: "u64 \<Rightarrow> ('k, 'v) dictIterator" where
  "dictGetSafeIterator fp = (dictGetIterator fp)\<lparr>it_safe := True\<rparr>"

text \<open>The first visit of \<open>dictNext\<close>: count the safe iterator or take the fingerprint.\<close>

definition dictNext_start ::
    "u64 \<times> u64 \<Rightarrow> ('k, 'v) dict \<Rightarrow> ('k, 'v) dictIterator \<Rightarrow> ('k, 'v) dict \<times> ('k, 'v) dictIterator" where
  "dictNext_start ptrs d iter =
     (if it_index iter = -1 \<and> it_table iter = 0 then
        if it_safe iter then (d\<lparr>iterators := iterators d + 1\<rparr>, iter)
        else (d, iter\<lparr>it_fingerprint := dictFingerprint ptrs d\<rparr>)
      else (d, iter))"

text \<open>The upper half of the loop body: the pointer \<open>iter->entry\<close> moves on, to the next bucket or
  along the chain; the flag is the \<open>break\<close>.\<close>

definition dictNext_move ::
    "u64 \<times> u64 \<Rightarrow> ('k, 'v) dict \<Rightarrow> ('k, 'v) dictIterator \<Rightarrow>
     (('k, 'v) dict \<times> ('k, 'v) dictIterator \<times> bool) option" where
  "dictNext_move ptrs d iter =
     (if it_entry iter = [] then
        let (d, iter) = dictNext_start ptrs d iter;
            iter = iter\<lparr>it_index := it_index iter + 1\<rparr>;
            last = (it_index iter \<ge> int (ht_size (get_ht d (it_table iter))))
        in if last \<and> \<not> (dictIsRehashing d \<and> it_table iter = 0) then Some (d, iter, True)
           else
             let iter = (if last then iter\<lparr>it_table := it_table iter + 1, it_index := 0\<rparr> else iter)
             in if it_index iter < 0 then None
                else map_option (\<lambda>he. (d, iter\<lparr>it_entry := he\<rparr>, False))
                       (rd (ht_table (get_ht d (it_table iter))) (nat (it_index iter)))
      else Some (d, iter\<lparr>it_entry := it_nextEntry iter\<rparr>, False))"

definition iter_measure :: "('k, 'v) dict \<Rightarrow> ('k, 'v) dictIterator \<Rightarrow> nat" where
  "iter_measure d iter = (if it_entry iter = [] then 0 else 1) +
     2 * (if it_table iter = 0 then nat (int (length (ht_table (ht0 d))) - it_index iter) + length (ht_table (ht1 d)) + 1
          else nat (int (length (ht_table (ht1 d))) - it_index iter))"

lemma dictNext_start_simps:
  assumes "dictNext_start ptrs d iter = (d', iter')"
  shows "ht0 d' = ht0 d" "ht1 d' = ht1 d" "dictIsRehashing d' = dictIsRehashing d" "d_type d' = d_type d"
    "it_index iter' = it_index iter" "it_table iter' = it_table iter" "it_entry iter' = it_entry iter"
    "it_nextEntry iter' = it_nextEntry iter" "it_safe iter' = it_safe iter" "get_ht d' = get_ht d"
  using assms by (auto simp: dictNext_start_def dictIsRehashing_def get_ht_def fun_eq_iff split: if_splits)

text \<open>The outcomes of a move with a null \<open>iter->entry\<close>: the end, the first bucket of the second
  table, or the next bucket.\<close>

lemma dictNext_move_cases:
  assumes "it_entry iter = []" "dictNext_start ptrs d iter = (d1, iter1)"
  shows "dictNext_move ptrs d iter =
    (if it_index iter + 1 \<ge> int (ht_size (get_ht d (it_table iter))) then
       if dictIsRehashing d \<and> it_table iter = 0 then
         map_option (\<lambda>he. (d1, iter1\<lparr>it_table := 1, it_index := 0, it_entry := he\<rparr>, False)) (rd (ht_table (ht1 d)) 0)
       else Some (d1, iter1\<lparr>it_index := it_index iter + 1\<rparr>, True)
     else if it_index iter + 1 < 0 then None
     else map_option (\<lambda>he. (d1, iter1\<lparr>it_index := it_index iter + 1, it_entry := he\<rparr>, False))
            (rd (ht_table (get_ht d (it_table iter))) (nat (it_index iter + 1))))"
  using assms(1) by (simp add: dictNext_move_def assms(2) dictNext_start_simps [OF assms(2)] Let_def get_ht_simps get_ht_simps(2) [simplified])

lemma dictNext_move_measure:
  assumes "dictNext_move ptrs d iter = Some (d', iter', False)" "it_entry iter' = []"
  shows "iter_measure d' iter' < iter_measure d iter"
proof (cases "it_entry iter = []")
  case True
  obtain d1 iter1 where s: "dictNext_start ptrs d iter = (d1, iter1)" by fastforce
  show ?thesis
    using assms dictNext_start_simps [OF s] True unfolding dictNext_move_cases [OF True s]
    by (auto simp: iter_measure_def rd_def get_ht_def split: if_splits)
qed (use assms in \<open>auto simp: dictNext_move_def iter_measure_def\<close>)

function dictNext ::
    "u64 \<times> u64 \<Rightarrow> ('k, 'v) dict \<Rightarrow> ('k, 'v) dictIterator \<Rightarrow>
     (('k, 'v) dict \<times> ('k, 'v) dictIterator \<times> ('k, 'v) dictEntry option) option" where
  "dictNext ptrs d iter =
     (case dictNext_move ptrs d iter of
        None \<Rightarrow> None
      | Some (d', iter', brk) \<Rightarrow>
          if brk then Some (d', iter', None)
          else if it_entry iter' \<noteq> [] then
            Some (d', iter'\<lparr>it_nextEntry := tl (it_entry iter')\<rparr>, Some (hd (it_entry iter')))
          else dictNext ptrs d' iter')"
  by pat_completeness auto
termination
  by (relation "measure (\<lambda>(ptrs, d, iter). iter_measure d iter)") (auto dest: dictNext_move_measure)

declare dictNext.simps [simp del]

definition dictReleaseIterator ::
    "u64 \<times> u64 \<Rightarrow> ('k, 'v) dict \<Rightarrow> ('k, 'v) dictIterator \<Rightarrow> ('k, 'v) dict option" where
  "dictReleaseIterator ptrs d iter =
     (if \<not> (it_index iter = -1 \<and> it_table iter = 0) then
        if it_safe iter then Some (d\<lparr>iterators := iterators d - 1\<rparr>)
        else if it_fingerprint iter = dictFingerprint ptrs d then Some d
        else None
      else Some d)"

section \<open>What an iterator returns\<close>

text \<open>The entries of the buckets behind the one at the iterator, the entries it has still to
  return, and when it is inside the tables.\<close>

definition iter_behind :: "('k, 'v) dict \<Rightarrow> ('k, 'v) dictIterator \<Rightarrow> ('k, 'v) dictEntry list" where
  "iter_behind d iter =
     concat (drop (nat (it_index iter + 1)) (ht_table (get_ht d (it_table iter)))) @
     (if it_table iter = 0 \<and> dictIsRehashing d then concat (ht_table (ht1 d)) else [])"

definition iter_rest :: "('k, 'v) dict \<Rightarrow> ('k, 'v) dictIterator \<Rightarrow> ('k, 'v) dictEntry list" where
  "iter_rest d iter = (if it_entry iter = [] then [] else it_nextEntry iter) @ iter_behind d iter"

definition iter_in :: "('k, 'v) dict \<Rightarrow> ('k, 'v) dictIterator \<Rightarrow> ('k, 'v) dictEntry list \<Rightarrow> bool" where
  "iter_in d iter suffix \<longleftrightarrow>
     it_index iter \<ge> 0 \<and> bucket_ok d (it_table iter) (nat (it_index iter)) \<and>
     (\<exists>pre. ht_table (get_ht d (it_table iter)) ! nat (it_index iter) = pre @ suffix)"

definition iter_ok :: "('k, 'v) dict \<Rightarrow> ('k, 'v) dictIterator \<Rightarrow> bool" where
  "iter_ok d iter \<longleftrightarrow>
     (if it_entry iter \<noteq> [] then iter_in d iter (it_nextEntry iter)
      else it_index iter \<ge> 0 \<and> bucket_ok d (it_table iter) (nat (it_index iter)) \<or> it_index iter = -1 \<and> it_table iter = 0)"

text \<open>What the first move records.\<close>

definition iter_started ::
    "u64 \<times> u64 \<Rightarrow> ('k, 'v) dict \<Rightarrow> ('k, 'v) dictIterator \<Rightarrow> ('k, 'v) dict \<Rightarrow> ('k, 'v) dictIterator \<Rightarrow> bool" where
  "iter_started ptrs d iter d' iter' \<longleftrightarrow>
     d' = fst (dictNext_start ptrs d iter) \<and> it_index iter' \<ge> 0 \<and>
     it_fingerprint iter' = it_fingerprint (snd (dictNext_start ptrs d iter)) \<and> it_safe iter' = it_safe iter"

lemma dict_ok_bucket0:
  assumes "dict_ok valid d" "dictIsRehashing d"
  shows "bucket_ok d 1 0" "0 < length (ht_table (ht1 d))"
  using assms by (auto simp: bucket_ok_def dict_ok_def get_ht_def ht_ok_def)

lemma dictNext_move_ok:
  assumes "dict_ok valid d" "iter_ok d iter"
  shows "\<exists>d' iter' brk. dictNext_move ptrs d iter = Some (d', iter', brk) \<and> iter_started ptrs d iter d' iter' \<and>
     (if brk then iter_rest d iter = []
      else iter_in d' iter' (it_entry iter') \<and> iter_rest d iter = it_entry iter' @ iter_behind d' iter')"
proof (cases "it_entry iter = []")
  case False
  then have "iter_in d iter (it_nextEntry iter)" "it_index iter \<noteq> -1" "it_index iter \<ge> 0"
    using assms(2) by (auto simp: iter_ok_def iter_in_def)
  with False show ?thesis
    by (auto simp: dictNext_move_def iter_started_def iter_rest_def dictNext_start_def iter_in_def iter_behind_def)
next
  case True
  obtain d1 iter1 where s: "dictNext_start ptrs d iter = (d1, iter1)" by fastforce
  note ss = dictNext_start_simps [OF s] and mc = dictNext_move_cases [OF True s]
  define t where "t = get_ht d (it_table iter)"
  have idx: "it_index iter \<ge> -1" and tb: "it_table iter \<le> 1" "it_table iter = 1 \<longrightarrow> dictIsRehashing d"
    using assms(2) True by (auto simp: iter_ok_def bucket_ok_def)
  have l: "length (ht_table t) = ht_size t" "length (ht_table (ht1 d)) = ht_size (ht1 d)"
    using assms(1) by (auto simp: t_def get_ht_def dict_ok_def ht_ok_length)
  have rest: "iter_rest d iter = iter_behind d iter" using True by (simp add: iter_rest_def)
  consider (last) "it_index iter + 1 \<ge> int (ht_size t)" "\<not> (dictIsRehashing d \<and> it_table iter = 0)"
    | (switch) "it_index iter + 1 \<ge> int (ht_size t)" "dictIsRehashing d" "it_table iter = 0"
    | (bucket) "it_index iter + 1 < int (ht_size t)" by linarith
  then show ?thesis
  proof cases
    case last
    have "iter_behind d iter = []" using last l(1) by (auto simp: iter_behind_def t_def)
    moreover have "dictNext_move ptrs d iter = Some (d1, iter1\<lparr>it_index := it_index iter + 1\<rparr>, True)"
      unfolding mc using last by (auto simp: t_def)
    ultimately show ?thesis using idx ss s rest by (auto simp: iter_started_def)
  next
    case switch
    have z: "0 < length (ht_table (ht1 d))" by (rule dict_ok_bucket0(2) [OF assms(1) switch(2)])
    define iter' where "iter' = iter1\<lparr>it_table := 1, it_index := 0, it_entry := ht_table (ht1 d) ! 0\<rparr>"
    have "dictNext_move ptrs d iter = Some (d1, iter', False)"
      using mc switch z by (simp add: t_def rd_ok iter'_def)
    moreover have "iter_started ptrs d iter d1 iter'" using s ss by (simp add: iter_started_def iter'_def)
    moreover have "iter_in d1 iter' (it_entry iter')"
      using switch(2) z l(2) ss by (auto simp: iter_in_def iter'_def bucket_ok_def get_ht_def)
    moreover have "concat (ht_table (ht1 d)) = ht_table (ht1 d) ! 0 @ concat (drop 1 (ht_table (ht1 d)))"
      using z by (cases "ht_table (ht1 d)") auto
    then have "iter_rest d iter = it_entry iter' @ iter_behind d1 iter'"
      using switch l(1) ss rest by (simp add: iter_behind_def iter'_def t_def get_ht_def)
    ultimately show ?thesis by auto
  next
    case bucket
    define i where "i = nat (it_index iter + 1)"
    have i: "i < length (ht_table t)" "it_index iter + 1 = int i" "nat (int i + 1) = Suc i"
      using bucket idx l(1) by (auto simp: i_def)
    define iter' where "iter' = iter1\<lparr>it_index := int i, it_entry := ht_table t ! i\<rparr>"
    have "dictNext_move ptrs d iter = Some (d1, iter', False)"
      using mc bucket idx i by (simp add: t_def rd_ok iter'_def)
    moreover have "iter_started ptrs d iter d1 iter'" using s ss by (simp add: iter_started_def iter'_def)
    moreover have "iter_in d1 iter' (it_entry iter')"
      using tb i l(1) ss by (auto simp: iter_in_def iter'_def bucket_ok_def t_def)
    moreover have "iter_rest d iter = it_entry iter' @ iter_behind d1 iter'"
      using i ss rest Cons_nth_drop_Suc [OF i(1)]
      by (simp add: iter_behind_def iter'_def t_def [symmetric]) (metis concat.simps(2))
    ultimately show ?thesis by auto
  qed
qed

lemma iter_started_trans:
  assumes "iter_started ptrs d iter d1 iter1" "iter_started ptrs d1 iter1 d' iter'"
  shows "iter_started ptrs d iter d' iter'"
  using assms by (auto simp: iter_started_def dictNext_start_def)

lemma iter_started_dict:
  assumes "iter_started ptrs d iter d' iter'"
  shows "d' = d \<or> d' = d\<lparr>iterators := iterators d + 1\<rparr>" "ht0 d' = ht0 d" "ht1 d' = ht1 d"
    "dictIsRehashing d' = dictIsRehashing d" "d_type d' = d_type d" "dict_ok valid d' = dict_ok valid d"
  using assms by (auto simp: iter_started_def dictNext_start_def dictIsRehashing_def dict_ok_def dict_entries_def)

lemma dictNext_ok:
  assumes "dict_ok valid d" "iter_ok d iter"
  shows "\<exists>d' iter'. iter_started ptrs d iter d' iter' \<and>
     (case iter_rest d iter of
        [] \<Rightarrow> dictNext ptrs d iter = Some (d', iter', None)
      | e # es \<Rightarrow> dictNext ptrs d iter = Some (d', iter', Some e) \<and> iter_rest d' iter' = es \<and>
                 iter_in d' iter' (e # it_nextEntry iter') \<and> it_entry iter' \<noteq> [])"
  using assms
proof (induction ptrs d iter rule: dictNext.induct)
  case (1 ptrs d iter)
  obtain d1 iter1 brk where m: "dictNext_move ptrs d iter = Some (d1, iter1, brk)" "iter_started ptrs d iter d1 iter1"
     "if brk then iter_rest d iter = []
      else iter_in d1 iter1 (it_entry iter1) \<and> iter_rest d iter = it_entry iter1 @ iter_behind d1 iter1"
    using dictNext_move_ok [OF "1.prems"] by blast
  consider "brk" | e es where "\<not> brk" "it_entry iter1 = e # es" | "\<not> brk" "it_entry iter1 = []"
    by (cases "it_entry iter1") auto
  then show ?case
  proof cases
    case 1
    with m show ?thesis by (subst dictNext.simps) auto
  next
    case 2
    define iter' where "iter' = iter1\<lparr>it_nextEntry := es\<rparr>"
    have "dictNext ptrs d iter = Some (d1, iter', Some e)" using m 2 by (subst dictNext.simps) (simp add: iter'_def)
    moreover have "iter_started ptrs d iter d1 iter'" using m(2) by (simp add: iter_started_def iter'_def)
    moreover have "iter_rest d1 iter' = es @ iter_behind d1 iter1"
      using 2 by (simp add: iter_rest_def iter'_def iter_behind_def)
    moreover have "iter_in d1 iter' (e # it_nextEntry iter')" "it_entry iter' \<noteq> []"
      using m(3) 2 by (auto simp: iter'_def iter_in_def)
    ultimately show ?thesis using m(3) 2 by (intro exI [of _ d1] exI [of _ iter']) simp
  next
    case 3
    have "iter_ok d1 iter1" using m(3) 3 by (simp add: iter_ok_def iter_in_def)
    moreover have "dict_ok valid d1" using iter_started_dict(6) [OF m(2)] "1.prems"(1) by simp
    ultimately obtain d' iter' where ih: "iter_started ptrs d1 iter1 d' iter'"
     "case iter_rest d1 iter1 of
        [] \<Rightarrow> dictNext ptrs d1 iter1 = Some (d', iter', None)
      | e # es \<Rightarrow> dictNext ptrs d1 iter1 = Some (d', iter', Some e) \<and> iter_rest d' iter' = es \<and>
                 iter_in d' iter' (e # it_nextEntry iter') \<and> it_entry iter' \<noteq> []"
      using "1.IH" [OF m(1) refl refl] 3 by auto
    have "dictNext ptrs d iter = dictNext ptrs d1 iter1" using m(1) 3 by (subst dictNext.simps) simp
    moreover have "iter_rest d iter = iter_rest d1 iter1" using m(3) 3 by (simp add: iter_rest_def)
    ultimately show ?thesis using ih(2) iter_started_trans [OF m(2) ih(1)] by (cases "iter_rest d1 iter1") auto
  qed
qed

section \<open>A loop that deletes while it iterates\<close>

text \<open>The loop \<open>while ((de = dictNext(di)) != NULL)\<close> of the callers, which may delete the entry
  it is at; \<open>fuel\<close> bounds the number of rounds. The result lists the entries in the order in which
  they were returned.\<close>

fun iter_loop ::
    "nat \<Rightarrow> (('k, 'v) dictEntry \<Rightarrow> bool) \<Rightarrow> u64 \<times> u64 \<Rightarrow> ('k, 'v) dict \<Rightarrow> ('k, 'v) dictIterator \<Rightarrow>
     (('k, 'v) dict \<times> ('k, 'v) dictIterator \<times> ('k, 'v) dictEntry list) option" where
  "iter_loop 0 del ptrs d iter = None"
| "iter_loop (Suc fuel) del ptrs d iter = do {
     (d, iter, de) \<leftarrow> dictNext ptrs d iter;
     case de of
       None \<Rightarrow> Some (d, iter, [])
     | Some e \<Rightarrow> do {
         d \<leftarrow> (if del e then map_option fst (dictDelete d (de_key e)) else Some d);
         (d, iter, visited) \<leftarrow> iter_loop fuel del ptrs d iter;
         Some (d, iter, e # visited)
       }
   }"

lemma uniq_keys_concat:
  assumes "uniq_keys cmp (concat tb)" "i < length tb" "tb ! i = pre @ e # suf" "x \<in> set pre"
  shows "\<not> cmp (de_key x) (de_key e)"
proof -
  have "concat tb = concat (take i tb) @ (pre @ e # suf) @ concat (drop (Suc i) tb)"
    using arg_cong [OF id_take_nth_drop [OF assms(2)], of concat] assms(3) by simp
  then have "uniq_keys cmp (pre @ e # suf)" using assms(1) by (simp add: uniq_keys_def sorted_wrt_append)
  then show ?thesis using assms(4) by (auto simp: uniq_keys_def sorted_wrt_append)
qed

lemma he_find_append:
  assumes "\<And>x. x \<in> set pre \<Longrightarrow> \<not> cmp_of (d_type d) key (de_key x)" "cmp_of (d_type d) key (de_key e)"
  shows "he_find d key (pre @ e # suf) = Some (length pre)"
  using assms by (induction pre) (auto simp: dictCompareKeys_cmp)

context dictType_contract
begin

lemma good_no_match:
  assumes "good d" "bucket_ok d tbl idx" "ht_table (get_ht d tbl) ! idx = pre @ e # suf"
    and "x \<in> set pre \<or> tbl = 1 \<and> x \<in> set (concat (ht_table (ht0 d)))"
  shows "\<not> cmp_of ty (de_key e) (de_key x)"
proof -
  have l: "idx < length (ht_table (get_ht d tbl))" using assms(1,2) bucket_ok_length by (auto simp: good_def)
  have u: "uniq_keys (cmp_of ty) (concat (ht_table (ht0 d)) @ concat (ht_table (ht1 d)))"
    using good_entries(1) [OF assms(1)] by (simp add: dict_entries_def)
  have tb: "tbl = 0 \<or> tbl = 1" using assms(2) by (auto simp: bucket_ok_def)
  have e: "e \<in> set (concat (ht_table (get_ht d tbl)))" using set_bucket [OF l, of e] assms(3) by simp
  have x: "\<not> cmp_of ty (de_key x) (de_key e)" "x \<in> set (dict_entries d)"
  proof -
    have "uniq_keys (cmp_of ty) (concat (ht_table (get_ht d tbl)))"
      using u tb by (auto simp: uniq_keys_def sorted_wrt_append get_ht_def)
    then show "\<not> cmp_of ty (de_key x) (de_key e)"
      using assms(4) uniq_keys_concat [OF _ l assms(3)] u e
      by (auto simp: uniq_keys_def sorted_wrt_append get_ht_def)
    show "x \<in> set (dict_entries d)"
      using assms(4) good_bucket(1) [OF assms(1,2), of x] assms(3) by (auto simp: dict_entries_def)
  qed
  have "e \<in> set (dict_entries d)" using e tb by (auto simp: dict_entries_def get_ht_def)
  then show ?thesis using x cmp_sym good_entries(2) [OF assms(1)] by blast
qed

lemma delete_current:
  assumes "good d" "iterators d \<noteq> 0" "bucket_ok d tbl idx" "ht_table (get_ht d tbl) ! idx = pre @ e # suf"
  shows "dictDelete d (de_key e) = Some (put_bucket d tbl idx (pre @ suf) (ht_used (get_ht d tbl) - 1), True)"
proof -
  have ty: "d_type d = ty" using assms(1) by (simp add: good_def)
  have l: "idx < length (ht_table (get_ht d tbl))" using assms(1,3) bucket_ok_length by (auto simp: good_def)
  have b: "e \<in> set (dict_entries d)" "unat (bucket_idx (get_ht d tbl) (dictHashKey d (de_key e))) = idx"
    using good_bucket [OF assms(1,3), of e] assms(4) ty by (auto simp: dictHashKey_def)
  have v: "cmp_of ty (de_key e) (de_key e)" using cmp_refl good_entries(2) [OF assms(1) b(1)] by blast
  have nz: "ht_size (ht0 d) \<noteq> 0" using assms(1,3) by (auto simp: good_def dict_ok_def bucket_ok_def get_ht_def split: if_splits)
  have here: "find_in_table d (de_key e) (dictHashKey d (de_key e)) tbl = Some (Some (tbl, idx, length pre))"
    using b(2) l assms(4) he_find_append [of pre d "de_key e" e suf] good_no_match [OF assms(1,3,4)] v ty
    by (simp add: find_in_table_def rd_ok)
  have "find_in_tables d (de_key e) (dictHashKey d (de_key e)) = Some (Some (tbl, idx, length pre))"
  proof (cases "tbl = 0")
    case True
    then show ?thesis using here by (simp add: find_in_tables_def)
  next
    case False
    then have t1: "tbl = 1" "dictIsRehashing d" using assms(3) by (auto simp: bucket_ok_def)
    define i where "i = unat (bucket_idx (ht0 d) (dictHashKey d (de_key e)))"
    have "bucket_ok d 0 i" unfolding i_def using table_index [OF assms(1), of 0] nz by (simp add: get_ht_simps)
    then have i: "i < length (ht_table (ht0 d))" using bucket_ok_length [of valid d 0 i] assms(1) by (simp add: good_def get_ht_simps)
    have "he_find d (de_key e) (ht_table (ht0 d) ! i) = None"
      using good_no_match [OF assms(1,3,4)] t1(1) set_bucket [OF i] ty by (auto simp: he_find_None)
    then have "find_in_table d (de_key e) (dictHashKey d (de_key e)) 0 = Some None"
      using i by (simp add: find_in_table_def get_ht_simps i_def [symmetric] rd_ok)
    then show ?thesis using here t1 by (simp add: find_in_tables_def)
  qed
  then show ?thesis
    using assms(2,4) nz l
    by (auto simp: dictDelete_def dictGenericDelete_def p_dictRehashStep_def rd_ok wr_ok put_bucket_def Let_def)
qed

text \<open>Deleting the entry the iterator has returned keeps the iterator in place.\<close>

lemma delete_at_iter:
  assumes "good d" "iterators d \<noteq> 0" "iter_in d iter (e # it_nextEntry iter)" "it_entry iter \<noteq> []"
  shows "\<exists>d'. dictDelete d (de_key e) = Some (d', True) \<and> good d' \<and> iter_ok d' iter \<and>
         iter_rest d' iter = iter_rest d iter \<and> iterators d' = iterators d \<and>
         mset (e # dict_entries d') = mset (dict_entries d)"
proof -
  define idx where "idx = nat (it_index iter)"
  obtain pre where b: "it_index iter = int idx" "bucket_ok d (it_table iter) idx"
    "ht_table (get_ht d (it_table iter)) ! idx = pre @ e # it_nextEntry iter"
    using assms(3) by (auto simp: iter_in_def idx_def)
  define d' where "d' = put_bucket d (it_table iter) idx (pre @ it_nextEntry iter) (ht_used (get_ht d (it_table iter)) - 1)"
  have del: "dictDelete d (de_key e) = Some (d', True)"
    unfolding d'_def by (rule delete_current [OF assms(1,2) b(2,3)])
  have v: "valid (de_key e)"
    using good_bucket(1) [OF assms(1) b(2), of e] b(3) good_entries(2) [OF assms(1)] by simp
  have g: "good d'" using dictDelete_ok [OF assms(1) v] del by auto
  have l: "idx < length (ht_table (get_ht d (it_table iter)))" using assms(1) b(2) bucket_ok_length by (auto simp: good_def)
  have t: "ht_table (get_ht d' (it_table iter)) = (ht_table (get_ht d (it_table iter)))[idx := pre @ it_nextEntry iter]"
    by (simp add: d'_def put_bucket_def put_ht_def get_ht_def)
  have bk: "bucket_ok d' (it_table iter) idx" using b(2) by (auto simp: bucket_ok_def d'_def get_ht_def split: if_splits)
  have "iter_ok d' iter" using assms(4) b(1) bk l by (simp add: iter_ok_def iter_in_def t)
  moreover have "iter_behind d' iter = iter_behind d iter"
  proof -
    have "ht_table (ht1 d') = ht_table (ht1 d)" if "it_table iter = 0"
      using that by (simp add: d'_def put_bucket_def put_ht_def)
    moreover have "dictIsRehashing d' = dictIsRehashing d" by (simp add: d'_def)
    ultimately show ?thesis by (auto simp: iter_behind_def t b(1) nat_add_distrib)
  qed
  moreover have "mset (e # dict_entries d') = mset (dict_entries d)"
  proof -
    have "mset (dict_entries d') + mset (pre @ e # it_nextEntry iter) =
        mset (dict_entries d) + mset (pre @ it_nextEntry iter)"
      using put_bucket_mset [OF _ b(2), of valid "pre @ it_nextEntry iter"] assms(1) b(3) by (simp add: d'_def good_def)
    then have "add_mset e (mset (dict_entries d')) + mset (pre @ it_nextEntry iter) =
        mset (dict_entries d) + mset (pre @ it_nextEntry iter)" by simp
    then show ?thesis by (simp only: add_right_cancel mset.simps)
  qed
  ultimately show ?thesis using del g by (auto simp: iter_rest_def d'_def)
qed

lemma iter_loop_ok:
  assumes "good d" "iter_ok d iter" "it_safe iter \<or> (\<forall>e. \<not> del e)" "length (iter_rest d iter) < fuel"
    and "it_safe iter \<longrightarrow> iterators (fst (dictNext_start ptrs d iter)) > 0"
  shows "\<exists>d' iter'. iter_loop fuel del ptrs d iter = Some (d', iter', iter_rest d iter) \<and> good d' \<and>
     it_index iter' \<ge> 0 \<and> it_safe iter' = it_safe iter \<and>
     iterators d' = iterators (fst (dictNext_start ptrs d iter)) \<and>
     mset (filter del (iter_rest d iter) @ dict_entries d') = mset (dict_entries d) \<and>
     (\<not> it_safe iter \<longrightarrow> d' = d \<and> it_fingerprint iter' = it_fingerprint (snd (dictNext_start ptrs d iter)))"
  using assms
proof (induction fuel arbitrary: d iter)
  case (Suc fuel)
  have "dict_ok valid d" using Suc.prems(1) by (simp add: good_def)
  then obtain d1 iter1 where n: "iter_started ptrs d iter d1 iter1"
     "case iter_rest d iter of
        [] \<Rightarrow> dictNext ptrs d iter = Some (d1, iter1, None)
      | e # es \<Rightarrow> dictNext ptrs d iter = Some (d1, iter1, Some e) \<and> iter_rest d1 iter1 = es \<and>
                 iter_in d1 iter1 (e # it_nextEntry iter1) \<and> it_entry iter1 \<noteq> []"
    using dictNext_ok [OF _ Suc.prems(2), of valid ptrs] by blast
  have g1: "good d1" using Suc.prems(1) iter_started_dict(5,6) [OF n(1)] by (simp add: good_def)
  have e1: "dict_entries d1 = dict_entries d" using iter_started_dict(2,3) [OF n(1)] by (simp add: dict_entries_def)
  have st: "d1 = fst (dictNext_start ptrs d iter)" "it_index iter1 \<ge> 0" "it_safe iter1 = it_safe iter"
     "it_fingerprint iter1 = it_fingerprint (snd (dictNext_start ptrs d iter))"
    using n(1) by (auto simp: iter_started_def)
  have us: "d1 = d" if "\<not> it_safe iter" using that st(1) by (auto simp: dictNext_start_def)
  show ?case
  proof (cases "iter_rest d iter")
    case Nil
    with n(2) g1 e1 st us show ?thesis by auto
  next
    case (Cons e es)
    with n(2) have nx: "dictNext ptrs d iter = Some (d1, iter1, Some e)" "iter_rest d1 iter1 = es"
      "iter_in d1 iter1 (e # it_nextEntry iter1)" "it_entry iter1 \<noteq> []" by auto
    have again: "dictNext_start ptrs d2 iter1 = (d2, iter1)" for d2 :: "('k, 'v) dict"
      using st(2) by (simp add: dictNext_start_def)
    obtain d2 where d2: "(if del e then map_option fst (dictDelete d1 (de_key e)) else Some d1) = Some d2"
      "good d2" "iter_ok d2 iter1" "iter_rest d2 iter1 = es" "iterators d2 = iterators d1"
      "mset (filter del [e] @ dict_entries d2) = mset (dict_entries d1)" "\<not> it_safe iter \<longrightarrow> d2 = d1"
    proof (cases "del e")
      case True
      then have "iterators d1 \<noteq> 0" using Suc.prems(3,5) st(1) by auto
      with True that Suc.prems(3) show ?thesis using delete_at_iter [OF g1 _ nx(3,4)] nx(2) by fastforce
    next
      case False
      have "iter_ok d1 iter1" using nx(3,4) by (auto simp: iter_ok_def iter_in_def)
      with False that g1 nx(2) show ?thesis by simp
    qed
    obtain d' iter' where ih: "iter_loop fuel del ptrs d2 iter1 = Some (d', iter', es)" "good d'"
      "it_index iter' \<ge> 0" "it_safe iter' = it_safe iter" "iterators d' = iterators d1"
      "mset (filter del es @ dict_entries d') = mset (dict_entries d2)"
      "\<not> it_safe iter \<longrightarrow> d' = d2 \<and> it_fingerprint iter' = it_fingerprint iter1"
      using Suc.IH [OF d2(2,3)] Suc.prems(3-5) d2(4,5) st(1,3) Cons by (auto simp: again)
    have "iter_loop (Suc fuel) del ptrs d iter = Some (d', iter', e # es)"
      using nx(1) d2(1) ih(1) by (cases "del e") auto
    moreover have "mset (filter del (e # es) @ dict_entries d') = mset (dict_entries d)"
      using ih(6) d2(6) e1 by auto
    ultimately show ?thesis using Cons ih d2(7) st us by auto
  qed
qed simp

end

section \<open>Random entries\<close>

text \<open>\<open>dictGetRandomKey\<close> with the results of the calls of \<open>random()\<close> as a list; \<open>None\<close> when they run
  out. The loop over random buckets, and the choice in the chain.\<close>

fun random_bucket ::
    "(nat \<Rightarrow> ('k, 'v) dictEntry list option) \<Rightarrow> nat list \<Rightarrow> (('k, 'v) dictEntry list \<times> nat list) option" where
  "random_bucket pick [] = None"
| "random_bucket pick (r # rs) = do {
     he \<leftarrow> pick r;
     if he = [] then random_bucket pick rs else Some (he, rs)
   }"

definition random_pick :: "('k, 'v) dict \<Rightarrow> nat \<Rightarrow> ('k, 'v) dictEntry list option" where
  "random_pick d r =
     (if dictIsRehashing d then
        let h = unat (of_nat (r mod (ht_size (ht0 d) + ht_size (ht1 d))) :: u32)
        in if h \<ge> ht_size (ht0 d) then rd (ht_table (ht1 d)) (h - ht_size (ht0 d))
           else rd (ht_table (ht0 d)) h
      else rd (ht_table (ht0 d)) (unat (ucast (of_nat r AND ht_sizemask (ht0 d)) :: u32)))"

definition dictGetRandomKey ::
    "('k, 'v) dict \<Rightarrow> nat list \<Rightarrow> (('k, 'v) dict \<times> ('k, 'v) dictEntry option) option" where
  "dictGetRandomKey d rs =
     (if dictSize d = 0 then Some (d, None)
      else do {
        d \<leftarrow> rehash_first d;
        (orighe, rs) \<leftarrow> random_bucket (random_pick d) rs;
        r \<leftarrow> rd rs 0;
        he \<leftarrow> rd orighe (r mod length orighe);
        Some (d, Some he)
      })"

lemma random_bucket_Some:
  "random_bucket pick rs = Some (he, rs') \<Longrightarrow> he \<noteq> [] \<and> (\<exists>r\<in>set rs. pick r = Some he)"
  by (induction rs) (auto split: bind_splits if_splits)

lemma rd_SomeD: "rd b i = Some x \<Longrightarrow> i < length b \<and> x = b ! i"
  by (simp add: rd_def split: if_splits)

lemma random_pick_entries:
  assumes "random_pick d r = Some he" "e \<in> set he"
  shows "e \<in> set (dict_entries d)"
  using assms set_bucket [of _ "ht_table (ht0 d)" e] set_bucket [of _ "ht_table (ht1 d)" e]
  by (auto simp: random_pick_def dict_entries_def Let_def dest!: rd_SomeD split: if_splits)

text \<open>Every bucket in use is picked by some value.\<close>

lemma random_pick_bucket:
  assumes "dict_ok valid d" "bucket_ok d tbl idx"
  shows "\<exists>r. random_pick d r = Some (ht_table (get_ht d tbl) ! idx)"
proof -
  have ht: "ht_ok (hashFunction (d_type d)) (ht0 d)" "ht_ok (hashFunction (d_type d)) (ht1 d)"
    using assms(1) by (auto simp: dict_ok_def)
  have l: "length (ht_table (ht0 d)) = ht_size (ht0 d)" "length (ht_table (ht1 d)) = ht_size (ht1 d)"
    using ht ht_ok_length by auto
  have b: "tbl = 0 \<and> idx < ht_size (ht0 d) \<or> tbl = 1 \<and> dictIsRehashing d \<and> idx < ht_size (ht1 d)"
    using assms(2) by (auto simp: bucket_ok_def get_ht_def split: if_splits)
  show ?thesis
  proof (cases "dictIsRehashing d")
    case True
    then have nz: "ht_size (ht0 d) \<noteq> 0" "ht_size (ht1 d) \<noteq> 0" using assms(1) by (auto simp: dict_ok_def)
    define r where "r = (if tbl = 0 then idx else ht_size (ht0 d) + idx)"
    have "ht_size (ht0 d) \<le> 2 ^ 31" "ht_size (ht1 d) \<le> 2 ^ 31"
      using bucket_idx_bound(2) [OF ht(1) nz(1)] bucket_idx_bound(2) [OF ht(2) nz(2)] by auto
    moreover have r: "r < ht_size (ht0 d) + ht_size (ht1 d)" using b by (auto simp: r_def)
    ultimately have "r < 2 ^ 32" by simp
    then have "unat (of_nat r :: u32) = r" by (simp add: unsigned_of_nat take_bit_nat_eq_self)
    then have "random_pick d r = Some (ht_table (get_ht d tbl) ! idx)"
      using True r b l by (auto simp: random_pick_def Let_def get_ht_def r_def rd_ok)
    then show ?thesis ..
  next
    case False
    then have i: "tbl = 0" "idx < ht_size (ht0 d)" using b by auto
    then obtain k where k: "k \<le> 31" "ht_size (ht0 d) = 2 ^ k" "ht_sizemask (ht0 d) = mask k"
      using ht(1) by (auto simp: ht_ok_def mask_eq_exp_minus_1)
    have "idx < 2 ^ 31" using i(2) k power_increasing [of k 31 "2 :: nat"] by simp
    then have "unat (of_nat idx AND mask k :: u64) = idx"
      using i(2) k by (simp add: take_bit_eq_mask [symmetric] unsigned_take_bit_eq unsigned_of_nat take_bit_nat_eq_self)
    then have "unat (ucast (of_nat idx AND mask k :: u64) :: u32) = idx"
      using \<open>idx < 2 ^ 31\<close> by (simp add: unsigned_ucast_eq take_bit_nat_eq_self)
    then have "random_pick d idx = Some (ht_table (get_ht d tbl) ! idx)"
      using False i k l by (simp add: random_pick_def get_ht_simps rd_ok)
    then show ?thesis ..
  qed
qed

lemma entries_bucket:
  assumes "dict_ok valid d" "e \<in> set (dict_entries d)"
  shows "\<exists>tbl idx. bucket_ok d tbl idx \<and> e \<in> set (ht_table (get_ht d tbl) ! idx)"
proof -
  have l: "length (ht_table (ht0 d)) = ht_size (ht0 d)" "length (ht_table (ht1 d)) = ht_size (ht1 d)"
    using assms(1) ht_ok_length by (auto simp: dict_ok_def)
  consider i where "i < ht_size (ht0 d)" "e \<in> set (ht_table (ht0 d) ! i)"
    | i where "i < ht_size (ht1 d)" "e \<in> set (ht_table (ht1 d) ! i)"
    using assms(2) l by (auto simp: dict_entries_def in_set_conv_nth [of _ "ht_table _"])
  then show ?thesis
  proof cases
    case (1 i)
    then have "bucket_ok d 0 i \<and> e \<in> set (ht_table (get_ht d 0) ! i)" by (simp add: bucket_ok_def get_ht_simps)
    then show ?thesis by blast
  next
    case (2 i)
    then have "dictIsRehashing d" using assms(1) by (auto simp: dict_ok_def split: if_splits)
    with 2 have "bucket_ok d 1 i \<and> e \<in> set (ht_table (get_ht d 1) ! i)"
      unfolding bucket_ok_def get_ht_simps by simp
    then show ?thesis by blast
  qed
qed

context dictType_contract
begin

lemma dictGetRandomKey_ok:
  assumes "good d" "dictGetRandomKey d rs = Some (d', r)"
  shows "good d' \<and> same_content d d' \<and>
    (case r of None \<Rightarrow> dictSize d = 0 | Some e \<Rightarrow> e \<in> set (dict_entries d))"
proof (cases "dictSize d = 0")
  case False
  obtain d1 where d1: "rehash_first d = Some d1" "good d1" "same_content d d1"
    using rehash_first_ok [OF assms(1)] by blast
  from assms(2) False d1(1) obtain he rs' x e where s: "random_bucket (random_pick d1) rs = Some (he, rs')"
    "rd he (x mod length he) = Some e" "d' = d1" "r = Some e"
    by (auto simp: dictGetRandomKey_def split: bind_splits) metis
  have "e \<in> set he" using s(2) by (auto dest!: rd_SomeD)
  then have "e \<in> set (dict_entries d1)" using random_bucket_Some [OF s(1)] random_pick_entries by blast
  then show ?thesis using d1 s(3,4) same_content_set [OF d1(3)] by simp
qed (use assms in \<open>simp add: dictGetRandomKey_def\<close>)

lemma dictGetRandomKey_any:
  assumes "good d" "e \<in> set (dict_entries d)"
  shows "\<exists>r1 r2 d'. dictGetRandomKey d [r1, r2] = Some (d', Some e)"
proof -
  obtain d1 where d1: "rehash_first d = Some d1" "good d1" "same_content d d1"
    using rehash_first_ok [OF assms(1)] by blast
  have ok: "dict_ok valid d1" using d1(2) by (simp add: good_def)
  have "dictSize d \<noteq> 0" using assms dictSize_entries [of valid d] by (auto simp: good_def)
  have "e \<in> set (dict_entries d1)" using assms(2) same_content_set [OF d1(3)] by simp
  then obtain tbl idx where b: "bucket_ok d1 tbl idx" "e \<in> set (ht_table (get_ht d1 tbl) ! idx)"
    using entries_bucket [OF ok] by blast
  obtain r1 where r1: "random_pick d1 r1 = Some (ht_table (get_ht d1 tbl) ! idx)"
    using random_pick_bucket [OF ok b(1)] by blast
  obtain r2 where r2: "r2 < length (ht_table (get_ht d1 tbl) ! idx)" "ht_table (get_ht d1 tbl) ! idx ! r2 = e"
    using b(2) by (auto simp: in_set_conv_nth)
  have "dictGetRandomKey d [r1, r2] = Some (d1, Some e)"
    using \<open>dictSize d \<noteq> 0\<close> d1(1) r1 r2 by (auto simp: dictGetRandomKey_def rd_ok)
  then show ?thesis by blast
qed

end

end
