(* ===== verification/Dict_Scan.thy ===== *)
theory Dict_Scan
  imports Dict
begin

text \<open>
  \<open>dictScan\<close> of \<open>dict.c\<close>: the cursor of the \<open>SCAN\<close> commands, which increments the reversed bits of
  a bucket index and keeps no state between calls. The entries handed to the callback \<open>fn\<close> are the
  second component of the result.
\<close>

section \<open>Definitions\<close>

function rev_loop :: "nat \<Rightarrow> u64 \<Rightarrow> u64 \<Rightarrow> u64" where
  "rev_loop s m v =
     (let s = s div 2
      in if s > 0 then
           let m = m XOR push_bit s m
           in rev_loop s m ((drop_bit s v AND m) OR (push_bit s v AND NOT m))
         else v)"
  by pat_completeness auto
termination
  by (relation "measure (\<lambda>(s, m, v). s)") auto

declare rev_loop.simps [simp del]

definition rev_ulong :: "u64 \<Rightarrow> u64" where
  "rev_ulong v = rev_loop 64 (NOT 0) v"

text \<open>The \<open>do ... while\<close> loop over the larger table.\<close>

partial_function (option) dictScan_loop ::
    "('k, 'v) dictEntry list list \<Rightarrow> u64 \<Rightarrow> u64 \<Rightarrow> u64 \<Rightarrow> (u64 \<times> ('k, 'v) dictEntry list) option" where
  "dictScan_loop tb m0 m1 v = do {
     de \<leftarrow> rd tb (unat (v AND m1));
     let v = (((v OR m0) + 1) AND NOT m0) OR (v AND m0);
     if v AND (m0 XOR m1) \<noteq> 0 then do {
       (v, es) \<leftarrow> dictScan_loop tb m0 m1 v;
       Some (v, de @ es)
     }
     else Some (v, de)
   }"

definition dictScan :: "('k, 'v) dict \<Rightarrow> u64 \<Rightarrow> (u64 \<times> ('k, 'v) dictEntry list) option" where
  "dictScan d v =
     (if dictSize d = 0 then Some (0, [])
      else do {
        (m0, v, es) \<leftarrow>
          (if \<not> dictIsRehashing d then do {
             let t0 = ht0 d;
             let m0 = ht_sizemask t0;
             de \<leftarrow> rd (ht_table t0) (unat (v AND m0));
             Some (m0, v, de)
           }
           else do {
             let (t0, t1) = (if ht_size (ht0 d) > ht_size (ht1 d) then (ht1 d, ht0 d) else (ht0 d, ht1 d));
             let m0 = ht_sizemask t0;
             let m1 = ht_sizemask t1;
             de \<leftarrow> rd (ht_table t0) (unat (v AND m0));
             (v, es) \<leftarrow> dictScan_loop (ht_table t1) m0 m1 v;
             Some (m0, v, de @ es)
           });
        let v = v OR NOT m0;
        let v = rev_ulong v;
        let v = v + 1;
        let v = rev_ulong v;
        Some (v, es)
      })"

section \<open>Bit reversal\<close>

definition swap_step :: "nat \<Rightarrow> u64 \<Rightarrow> u64 \<Rightarrow> u64" where
  "swap_step s m v = (drop_bit s v AND m) OR (push_bit s v AND NOT m)"

lemma rev_loop_swap:
  assumes "s div 2 = s'" "0 < s'" "m XOR push_bit s' m = m'"
  shows "rev_loop s m v = rev_loop s' m' (swap_step s' m' v)"
  using assms by (subst rev_loop.simps) (simp add: swap_step_def Let_def)

lemma rev_ulong_steps:
  "rev_ulong v = swap_step 1 0x5555555555555555 (swap_step 2 0x3333333333333333
     (swap_step 4 0x0F0F0F0F0F0F0F0F (swap_step 8 0x00FF00FF00FF00FF
     (swap_step 16 0x0000FFFF0000FFFF (swap_step 32 0x00000000FFFFFFFF v)))))"
proof -
  have "rev_ulong v = rev_loop 32 0x00000000FFFFFFFF (swap_step 32 0x00000000FFFFFFFF v)"
    unfolding rev_ulong_def by (rule rev_loop_swap) (simp_all add: mask_numeral)
  also have "\<dots> = rev_loop 16 0x0000FFFF0000FFFF (swap_step 16 0x0000FFFF0000FFFF (swap_step 32 0x00000000FFFFFFFF v))"
    by (rule rev_loop_swap) simp_all
  also have "\<dots> = rev_loop 8 0x00FF00FF00FF00FF (swap_step 8 0x00FF00FF00FF00FF
     (swap_step 16 0x0000FFFF0000FFFF (swap_step 32 0x00000000FFFFFFFF v)))"
    by (rule rev_loop_swap) simp_all
  also have "\<dots> = rev_loop 4 0x0F0F0F0F0F0F0F0F (swap_step 4 0x0F0F0F0F0F0F0F0F (swap_step 8 0x00FF00FF00FF00FF
     (swap_step 16 0x0000FFFF0000FFFF (swap_step 32 0x00000000FFFFFFFF v))))"
    by (rule rev_loop_swap) simp_all
  also have "\<dots> = rev_loop 2 0x3333333333333333 (swap_step 2 0x3333333333333333
     (swap_step 4 0x0F0F0F0F0F0F0F0F (swap_step 8 0x00FF00FF00FF00FF
     (swap_step 16 0x0000FFFF0000FFFF (swap_step 32 0x00000000FFFFFFFF v)))))"
    by (rule rev_loop_swap) simp_all
  also have "\<dots> = rev_loop 1 0x5555555555555555 (swap_step 1 0x5555555555555555 (swap_step 2 0x3333333333333333
     (swap_step 4 0x0F0F0F0F0F0F0F0F (swap_step 8 0x00FF00FF00FF00FF
     (swap_step 16 0x0000FFFF0000FFFF (swap_step 32 0x00000000FFFFFFFF v))))))"
    by (rule rev_loop_swap) simp_all
  finally show ?thesis by (simp add: rev_loop.simps)
qed

lemma bit_swap_step:
  "i < 64 \<Longrightarrow> bit (swap_step s m v) i = (if bit m i then bit v (i + s) else s \<le> i \<and> bit v (i - s))"
  by (auto simp: swap_step_def bit_simps add.commute)

lemma all_less_64: "(\<forall>i<64::nat. P i) \<longleftrightarrow> list_all P [0..<64]"
  by (auto simp: list_all_iff)

lemma bit_rev_ulong:
  assumes "i < 64"
  shows "bit (rev_ulong v) i = bit v (63 - i)"
proof -
  have "\<forall>i<64. bit (rev_ulong v) i = bit v (63 - i)"
    unfolding all_less_64 by (simp add: upt_conv_Cons rev_ulong_steps bit_swap_step numeral_2_eq_2 numeral_3_eq_3)
  with assms show ?thesis by blast
qed


lemma rev_ulong_rev_ulong [simp]: "rev_ulong (rev_ulong v) = v"
  by (rule bit_word_eqI) (simp add: bit_rev_ulong)

abbreviation revn :: "u64 \<Rightarrow> nat" where
  "revn v \<equiv> unat (rev_ulong v)"

lemma rev_ulong_0 [simp]: "rev_ulong 0 = 0"
  by (rule bit_word_eqI) (simp add: bit_rev_ulong)

lemma revn_inj: "revn v = revn w \<longleftrightarrow> v = w"
  by (metis rev_ulong_rev_ulong word_unat_eq_iff)

lemma unat_bits:
  fixes w :: u64
  shows "unat (drop_bit n w) = unat w div 2 ^ n" "unat (take_bit n w) = unat w mod 2 ^ n"
    "unat (push_bit n w) = unat w * 2 ^ n mod 2 ^ 64" "unat (w + 1) = (unat w + 1) mod 2 ^ 64"
  by (simp_all add: unat_drop_bit_eq unsigned_take_bit_eq unsigned_push_bit_eq unat_word_ariths
      drop_bit_eq_div [where ?'a = nat] take_bit_eq_mod [where ?'a = nat] push_bit_eq_mult [where ?'a = nat])

text \<open>The high \<open>k\<close> bits of a reversed cursor are its low \<open>k\<close> bits.\<close>

lemma rev_block:
  assumes "k \<le> 64"
  shows "revn v div 2 ^ (64 - k) = revn w div 2 ^ (64 - k) \<longleftrightarrow> take_bit k v = take_bit k w"
proof -
  have "drop_bit (64 - k) (rev_ulong v) = drop_bit (64 - k) (rev_ulong w) \<longleftrightarrow> take_bit k v = take_bit k w"
  proof
    assume a: "drop_bit (64 - k) (rev_ulong v) = drop_bit (64 - k) (rev_ulong w)"
    show "take_bit k v = take_bit k w"
    proof (rule bit_word_eqI)
      fix i assume "i < LENGTH(64)"
      show "bit (take_bit k v) i = bit (take_bit k w) i"
      proof (cases "i < k")
        case True
        then have "bit (drop_bit (64 - k) (rev_ulong v)) (k - 1 - i) = bit (drop_bit (64 - k) (rev_ulong w)) (k - 1 - i)"
          using a by simp
        with True assms show ?thesis by (simp add: bit_take_bit_iff bit_drop_bit_eq bit_rev_ulong)
      qed (simp add: bit_take_bit_iff)
    qed
  next
    assume a: "take_bit k v = take_bit k w"
    show "drop_bit (64 - k) (rev_ulong v) = drop_bit (64 - k) (rev_ulong w)"
    proof (rule bit_word_eqI)
      fix i assume "i < LENGTH(64)"
      show "bit (drop_bit (64 - k) (rev_ulong v)) i = bit (drop_bit (64 - k) (rev_ulong w)) i"
      proof (cases "i < k")
        case True
        then have "bit (take_bit k v) (k - 1 - i) = bit (take_bit k w) (k - 1 - i)" using a by simp
        with True assms show ?thesis by (simp add: bit_take_bit_iff bit_drop_bit_eq bit_rev_ulong)
      next
        case False
        then have "64 \<le> 64 - k + i" using assms by simp
        then have "\<not> bit (rev_ulong v) (64 - k + i)" "\<not> bit (rev_ulong w) (64 - k + i)"
          by (auto dest: bit_imp_le_length)
        then show ?thesis by (simp add: bit_drop_bit_eq)
      qed
    qed
  qed
  then show ?thesis by (simp add: word_unat_eq_iff unat_bits)
qed

lemma or_mask_inc: "(x OR mask k) + 1 = push_bit k (drop_bit k x + 1 :: u64)"
proof -
  have "x OR mask k = push_bit k (drop_bit k x) OR mask k"
    by (rule bit_word_eqI) (auto simp: bit_simps)
  also have "\<dots> = push_bit k (drop_bit k x) + mask k"
    by (rule disjunctive_add_eq_or [symmetric], rule bit_word_eqI) (auto simp: bit_simps)
  finally show ?thesis by (simp add: mask_eq_exp_minus_1 push_bit_eq_mult algebra_simps)
qed

text \<open>The cursor after a step: the end of the block of the cursor, in reversed order.\<close>

lemma scan_next:
  assumes "k \<le> 64"
  shows "revn (rev_ulong (rev_ulong (v OR NOT (mask k)) + 1)) = (revn v div 2 ^ (64 - k) + 1) * 2 ^ (64 - k) mod 2 ^ 64"
proof -
  have "rev_ulong (v OR NOT (mask k)) = rev_ulong v OR mask (64 - k)"
    by (rule bit_word_eqI) (use assms in \<open>auto simp: bit_simps bit_rev_ulong\<close>)
  then have "rev_ulong (v OR NOT (mask k)) + 1 = push_bit (64 - k) (drop_bit (64 - k) (rev_ulong v) + 1)"
    by (simp add: or_mask_inc)
  moreover have "unat (push_bit (64 - k) (drop_bit (64 - k) (rev_ulong v) + 1)) =
      (revn v div 2 ^ (64 - k) + 1) * 2 ^ (64 - k) mod 2 ^ 64"
    by (simp only: unat_bits mod_mult_left_eq)
  ultimately show ?thesis by simp
qed

section \<open>The inner loop\<close>

lemma scan_inc:
  assumes "k \<le> l" "l < 64"
    and v': "v' = (((v OR mask k) + 1) AND NOT (mask k)) OR (v AND mask k :: u64)"
  shows "unat v' mod 2 ^ k = unat v mod 2 ^ k"
    "unat v' div 2 ^ k mod 2 ^ (l - k) = (unat v div 2 ^ k mod 2 ^ (l - k) + 1) mod 2 ^ (l - k)"
proof -
  have t: "take_bit k v' = take_bit k v"
    unfolding v' or_mask_inc by (rule bit_word_eqI) (auto simp: bit_simps)
  from arg_cong [OF t, of unat] show "unat v' mod 2 ^ k = unat v mod 2 ^ k"
    by (simp only: unat_bits)
  have "take_bit (l - k) (drop_bit k v') = take_bit (l - k) (drop_bit k v + 1)"
    unfolding v' or_mask_inc by (rule bit_word_eqI) (use assms(1,2) in \<open>auto simp: bit_simps\<close>)
  from arg_cong [OF this, of unat]
  have "unat v' div 2 ^ k mod 2 ^ (l - k) = (unat v div 2 ^ k + 1) mod 2 ^ 64 mod 2 ^ (l - k)"
    by (simp only: unat_bits)
  also have "\<dots> = (unat v div 2 ^ k + 1) mod 2 ^ (l - k)"
    using assms(2) by (intro mod_mod_cancel le_imp_power_dvd) simp
  finally show "unat v' div 2 ^ k mod 2 ^ (l - k) = (unat v div 2 ^ k mod 2 ^ (l - k) + 1) mod 2 ^ (l - k)"
    by (simp only: mod_add_left_eq)
qed

lemma scan_diff:
  assumes "k \<le> l" "l < 64"
  shows "(v AND (mask k XOR mask l)) = (0 :: u64) \<longleftrightarrow> unat v div 2 ^ k mod 2 ^ (l - k) = 0"
    and "unat (v AND mask l) = unat v div 2 ^ k mod 2 ^ (l - k) * 2 ^ k + unat v mod 2 ^ k"
proof -
  have "v AND (mask k XOR mask l) = push_bit k (take_bit (l - k) (drop_bit k v))"
    by (rule bit_word_eqI) (use assms in \<open>auto simp: bit_simps\<close>)
  moreover have "push_bit k (take_bit (l - k) (drop_bit k v)) = 0 \<longleftrightarrow> take_bit (l - k) (drop_bit k v) = 0"
  proof -
    have "drop_bit k (push_bit k (take_bit (l - k) (drop_bit k v))) = take_bit (l - k) (drop_bit k v)"
      by (rule bit_word_eqI) (use assms in \<open>auto simp: bit_simps\<close>)
    then show ?thesis by (metis drop_bit_of_0 push_bit_of_0)
  qed
  moreover have "unat (take_bit (l - k) (drop_bit k v)) = unat v div 2 ^ k mod 2 ^ (l - k)"
    by (simp only: unat_bits)
  ultimately show "(v AND (mask k XOR mask l)) = 0 \<longleftrightarrow> unat v div 2 ^ k mod 2 ^ (l - k) = 0"
    by (metis unsigned_0 word_unat_eq_iff)
  have "unat (v AND mask l) = unat v mod 2 ^ l"
    by (simp only: take_bit_eq_mask [symmetric] unat_bits)
  also have "\<dots> = unat v mod (2 ^ k * 2 ^ (l - k))" using assms by (simp add: power_add [symmetric])
  finally show "unat (v AND mask l) = unat v div 2 ^ k mod 2 ^ (l - k) * 2 ^ k + unat v mod 2 ^ k"
    by (simp add: mod_mult2_eq)
qed

lemma dictScan_loop_ok:
  fixes v :: u64
  assumes "k \<le> l" "l < 64" "length tb = 2 ^ l"
  shows "\<exists>v'. dictScan_loop tb (mask k) (mask l) v =
     Some (v', concat (map (\<lambda>j. tb ! (j * 2 ^ k + unat v mod 2 ^ k)) [unat v div 2 ^ k mod 2 ^ (l - k)..<2 ^ (l - k)])) \<and>
     unat v' mod 2 ^ k = unat v mod 2 ^ k"
proof (induction "2 ^ (l - k) - unat v div 2 ^ k mod 2 ^ (l - k)" arbitrary: v rule: less_induct)
  case less
  define j where "j = unat v div 2 ^ k mod 2 ^ (l - k)"
  define v1 where "v1 = (((v OR mask k) + 1) AND NOT (mask k)) OR (v AND mask k)"
  note inc = scan_inc [OF assms(1,2) v1_def, folded j_def]
  have j: "j < 2 ^ (l - k)" by (simp add: j_def)
  have "unat (v AND mask l) = unat v mod 2 ^ l" by (simp only: take_bit_eq_mask [symmetric] unat_bits)
  then have "unat (v AND mask l) < length tb" by (simp add: assms(3))
  then have rd: "rd tb (unat (v AND mask l)) = Some (tb ! (j * 2 ^ k + unat v mod 2 ^ k))"
    by (simp only: rd_ok scan_diff(2) [OF assms(1,2)] j_def)
  have up: "[j..<2 ^ (l - k)] = j # [j + 1..<2 ^ (l - k)]" using j by (simp add: upt_conv_Cons)
  show ?case
  proof (cases "j + 1 < 2 ^ (l - k)")
    case True
    then have m: "unat v1 div 2 ^ k mod 2 ^ (l - k) = j + 1" using inc(2) by simp
    have "2 ^ (l - k) - unat v1 div 2 ^ k mod 2 ^ (l - k) < 2 ^ (l - k) - j" using m j by simp
    from less.hyps [of v1, folded j_def, OF this] obtain v' where v':
      "dictScan_loop tb (mask k) (mask l) v1 =
         Some (v', concat (map (\<lambda>j. tb ! (j * 2 ^ k + unat v mod 2 ^ k)) [j + 1..<2 ^ (l - k)]))"
      "unat v' mod 2 ^ k = unat v mod 2 ^ k"
      by (auto simp: m inc(1))
    have "v1 AND (mask k XOR mask l) \<noteq> 0" using scan_diff(1) [OF assms(1,2), of v1] m by simp
    with v' rd show ?thesis
      unfolding j_def [symmetric] up
      by (subst dictScan_loop.simps) (simp add: v1_def [symmetric] Let_def)
  next
    case False
    then have e: "j + 1 = 2 ^ (l - k)" using j by simp
    then have "unat v1 div 2 ^ k mod 2 ^ (l - k) = 0" using inc(2) by simp
    then have "v1 AND (mask k XOR mask l) = 0" using scan_diff(1) [OF assms(1,2), of v1] by simp
    with e rd inc(1) show ?thesis
      unfolding j_def [symmetric] up
      by (subst dictScan_loop.simps) (simp add: v1_def [symmetric] Let_def)
  qed
qed

section \<open>What a scan returns\<close>

text \<open>A table of \<open>2 ^ k\<close> buckets, and the smaller of the tables of a dictionary.\<close>

lemma ht_ok_mask:
  assumes "ht_ok hash t" "ht_size t \<noteq> 0"
  obtains k where "k \<le> 31" "ht_size t = 2 ^ k" "ht_sizemask t = mask k" "length (ht_table t) = 2 ^ k"
  using assms by (auto simp: ht_ok_def mask_eq_exp_minus_1)

definition scan_size :: "('k, 'v) dict \<Rightarrow> nat" where
  "scan_size d = (if dictIsRehashing d then min (ht_size (ht0 d)) (ht_size (ht1 d)) else ht_size (ht0 d))"

text \<open>When a call visits all the buckets of the larger table that it has to: the cursor has no bit
  between the two masks.\<close>

definition scan_aligned :: "('k, 'v) dict \<Rightarrow> u64 \<Rightarrow> bool" where
  "scan_aligned d v \<longleftrightarrow> (dictIsRehashing d \<longrightarrow> v AND (ht_sizemask (ht0 d) XOR ht_sizemask (ht1 d)) = 0)"

lemma bucket_idx_nat:
  assumes "ht_sizemask t = mask k" "k \<le> 31"
  shows "unat (bucket_idx t h) = unat h mod 2 ^ k"
proof -
  have "unat (bucket_idx t h) = unat (take_bit k (ucast h :: u64)) mod 2 ^ 32"
    by (simp add: bucket_idx_def assms(1) take_bit_eq_mask [symmetric] unsigned_ucast_eq)
      (simp add: take_bit_eq_mod [where ?'a = nat])
  also have "unat (take_bit k (ucast h :: u64)) = unat h mod 2 ^ k" by (simp add: unat_bits unat_ucast_up)
  also have "unat h mod 2 ^ k mod 2 ^ 32 = unat h mod 2 ^ k"
  proof (rule mod_less)
    have "unat h mod 2 ^ k < 2 ^ k" by simp
    also have "(2 :: nat) ^ k \<le> 2 ^ 32" using assms(2) by (intro power_increasing) auto
    finally show "unat h mod 2 ^ k < 2 ^ 32" .
  qed
  finally show ?thesis .
qed

lemma in_table_bucket:
  assumes "ht_ok hash t" "ht_sizemask t = mask k" "k \<le> 31" "e \<in> set (concat (ht_table t))"
  shows "e \<in> set (ht_table t ! (unat (hash (de_key e)) mod 2 ^ k))"
proof -
  obtain i where i: "i < ht_size t" "e \<in> set (ht_table t ! i)"
    using assms(4) ht_ok_length [OF assms(1)] by (auto simp: in_set_conv_nth [of _ "ht_table t"])
  then show ?thesis using ht_ok_hash [OF assms(1) i] bucket_idx_nat [OF assms(2,3)] by simp
qed

lemma nat_mod_split:
  assumes "(k :: nat) \<le> l"
  shows "(x :: nat) mod 2 ^ l = x mod 2 ^ l div 2 ^ k * 2 ^ k + x mod 2 ^ k" "x mod 2 ^ l div 2 ^ k < 2 ^ (l - k)"
proof -
  have "x mod 2 ^ l mod 2 ^ k = x mod 2 ^ k" using assms by (intro mod_mod_cancel) (simp add: le_imp_power_dvd)
  then show "x mod 2 ^ l = x mod 2 ^ l div 2 ^ k * 2 ^ k + x mod 2 ^ k" by (metis div_mult_mod_eq)
  have "x mod 2 ^ l < 2 ^ (l - k) * 2 ^ k" using assms by (simp add: power_add [symmetric])
  then show "x mod 2 ^ l div 2 ^ k < 2 ^ (l - k)" by (simp add: less_mult_imp_div_less)
qed

text \<open>The visit of the two tables of a rehash, the smaller first.\<close>

lemma scan_two_tables:
  assumes "ht_ok hash ts" "ht_size ts = 2 ^ k" "ht_sizemask ts = mask k" "ht_ok hash tL" "ht_size tL = 2 ^ l"
    "ht_sizemask tL = mask l" "k \<le> l" "l \<le> 31"
  shows "\<exists>v' es. rd (ht_table ts) (unat (v AND mask k)) = Some (ht_table ts ! (unat v mod 2 ^ k)) \<and>
     dictScan_loop (ht_table tL) (mask k) (mask l) v = Some (v', es) \<and> unat v' mod 2 ^ k = unat v mod 2 ^ k \<and>
     set es \<subseteq> set (concat (ht_table tL)) \<and>
     (v AND (mask k XOR mask l) = 0 \<longrightarrow>
       (\<forall>e\<in>set (concat (ht_table tL)). unat (hash (de_key e)) mod 2 ^ k = unat v mod 2 ^ k \<longrightarrow> e \<in> set es))"
proof -
  define m where "m = unat v div 2 ^ k mod 2 ^ (l - k)"
  define r where "r = unat v mod 2 ^ k"
  define es where "es = concat (map (\<lambda>j. ht_table tL ! (j * 2 ^ k + r)) [m..<2 ^ (l - k)])"
  have len: "length (ht_table ts) = 2 ^ k" "length (ht_table tL) = 2 ^ l" using assms ht_ok_length by metis+
  have "unat (v AND mask k) = r" by (simp only: take_bit_eq_mask [symmetric] unat_bits r_def)
  then have rd: "rd (ht_table ts) (unat (v AND mask k)) = Some (ht_table ts ! r)"
    using len(1) by (simp add: rd_ok r_def)
  obtain v' where v': "dictScan_loop (ht_table tL) (mask k) (mask l) v = Some (v', es)" "unat v' mod 2 ^ k = r"
    using dictScan_loop_ok [OF assms(7) _ len(2), of v] assms(8) by (auto simp: es_def m_def r_def)
  have "j * 2 ^ k + r < 2 ^ l" if "j < 2 ^ (l - k)" for j
  proof -
    have "j * 2 ^ k + r < (j + 1) * 2 ^ k" by (simp add: r_def)
    also have "\<dots> \<le> 2 ^ (l - k) * 2 ^ k" using that by (intro mult_right_mono) auto
    finally show ?thesis using assms(7) by (simp add: power_add [symmetric])
  qed
  then have "\<And>j. j < 2 ^ (l - k) \<Longrightarrow> ht_table tL ! (j * 2 ^ k + r) \<in> set (ht_table tL)" using len(2) by simp
  then have sub: "set es \<subseteq> set (concat (ht_table tL))" by (fastforce simp: es_def)
  have "e \<in> set es" if a: "v AND (mask k XOR mask l) = 0" and e: "e \<in> set (concat (ht_table tL))"
    "unat (hash (de_key e)) mod 2 ^ k = r" for e
  proof -
    define i where "i = unat (hash (de_key e)) mod 2 ^ l"
    have "m = 0" using scan_diff(1) [OF assms(7), of v] a assms(8) by (simp add: m_def)
    moreover have "i = i div 2 ^ k * 2 ^ k + r" "i div 2 ^ k < 2 ^ (l - k)"
      using nat_mod_split [OF assms(7), of "unat (hash (de_key e))"] e(2) by (simp_all add: i_def)
    moreover have "e \<in> set (ht_table tL ! i)"
      unfolding i_def by (rule in_table_bucket [OF assms(4,6,8) e(1)])
    ultimately show ?thesis unfolding es_def by (auto intro!: bexI [of _ "i div 2 ^ k"])
  qed
  with rd v' sub show ?thesis unfolding r_def by blast
qed

lemma scan_next_low:
  assumes "k \<le> 64" "unat w mod 2 ^ k = unat v mod 2 ^ k"
  shows "revn (rev_ulong (rev_ulong (w OR NOT (mask k)) + 1)) = (revn v div 2 ^ (64 - k) + 1) * 2 ^ (64 - k) mod 2 ^ 64"
proof -
  have "take_bit k w = take_bit k v" using assms(2) by (simp add: word_unat_eq_iff unat_bits)
  then have "revn w div 2 ^ (64 - k) = revn v div 2 ^ (64 - k)" using rev_block [OF assms(1)] by simp
  then show ?thesis using scan_next [OF assms(1), of w] by simp
qed

text \<open>What one call does: it returns, it moves the reversed cursor to the end of its block, and from
  an aligned cursor it emits the entries whose hash has the low bits of the cursor.\<close>

definition scan_covers :: "('k, 'v) dict \<Rightarrow> nat \<Rightarrow> u64 \<Rightarrow> ('k, 'v) dictEntry list \<Rightarrow> bool" where
  "scan_covers d k v es \<longleftrightarrow> (\<forall>e\<in>set (dict_entries d).
     unat (hashFunction (d_type d) (de_key e)) mod 2 ^ k = unat v mod 2 ^ k \<longrightarrow> e \<in> set es)"

lemma scan_covers_tables:
  assumes "\<forall>e\<in>set (concat (ht_table tL)). unat (hashFunction (d_type d) (de_key e)) mod 2 ^ k = unat v mod 2 ^ k \<longrightarrow> e \<in> set es"
    and "ht_ok (hashFunction (d_type d)) ts" "ht_sizemask ts = mask k" "k \<le> 31"
    and "set (dict_entries d) = set (concat (ht_table ts)) \<union> set (concat (ht_table tL))"
  shows "scan_covers d k v (ht_table ts ! (unat v mod 2 ^ k) @ es)"
  unfolding scan_covers_def
proof (intro ballI impI)
  fix e assume e: "e \<in> set (dict_entries d)" "unat (hashFunction (d_type d) (de_key e)) mod 2 ^ k = unat v mod 2 ^ k"
  then consider "e \<in> set (concat (ht_table ts))" | "e \<in> set (concat (ht_table tL))" using assms(5) by blast
  then show "e \<in> set (ht_table ts ! (unat v mod 2 ^ k) @ es)"
  proof cases
    case 1
    then show ?thesis using in_table_bucket [OF assms(2-4) 1] e(2) by simp
  qed (use assms(1) e(2) in auto)
qed

lemma dictScan_rehash:
  assumes "dict_ok valid d" "dictSize d \<noteq> 0" "dictIsRehashing d"
    and t: "(ts, tL) = (if ht_size (ht0 d) > ht_size (ht1 d) then (ht1 d, ht0 d) else (ht0 d, ht1 d))"
  shows "\<exists>k v' es. k \<le> 31 \<and> scan_size d = 2 ^ k \<and> dictScan d v = Some (v', es) \<and>
    revn v' = (revn v div 2 ^ (64 - k) + 1) * 2 ^ (64 - k) mod 2 ^ 64 \<and>
    set es \<subseteq> set (dict_entries d) \<and> (scan_aligned d v \<longrightarrow> scan_covers d k v es)"
proof -
  have ok: "ht_ok (hashFunction (d_type d)) ts" "ht_ok (hashFunction (d_type d)) tL" "ht_size ts \<noteq> 0" "ht_size tL \<noteq> 0"
    using assms(1,3) t by (auto simp: dict_ok_def split: if_splits)
  obtain k where k: "k \<le> 31" "ht_size ts = 2 ^ k" "ht_sizemask ts = mask k" "length (ht_table ts) = 2 ^ k"
    by (rule ht_ok_mask [OF ok(1,3)])
  obtain l where l: "l \<le> 31" "ht_size tL = 2 ^ l" "ht_sizemask tL = mask l" "length (ht_table tL) = 2 ^ l"
    by (rule ht_ok_mask [OF ok(2,4)])
  have "ht_size ts \<le> ht_size tL" using t by (auto split: if_splits)
  then have kl: "k \<le> l" using k(2) l(2) by simp
  obtain w es where s: "rd (ht_table ts) (unat (v AND mask k)) = Some (ht_table ts ! (unat v mod 2 ^ k))"
     "dictScan_loop (ht_table tL) (mask k) (mask l) v = Some (w, es)" "unat w mod 2 ^ k = unat v mod 2 ^ k"
     "set es \<subseteq> set (concat (ht_table tL))"
     "v AND (mask k XOR mask l) = 0 \<longrightarrow>
       (\<forall>e\<in>set (concat (ht_table tL)). unat (hashFunction (d_type d) (de_key e)) mod 2 ^ k = unat v mod 2 ^ k \<longrightarrow> e \<in> set es)"
    using scan_two_tables [OF ok(1) k(2,3) ok(2) l(2,3) kl l(1), of v] by blast
  have en: "set (dict_entries d) = set (concat (ht_table ts)) \<union> set (concat (ht_table tL))"
    using t by (auto simp: dict_entries_def split: if_splits)
  have al: "scan_aligned d v \<longleftrightarrow> v AND (mask k XOR mask l) = 0"
    using t assms(3) k(3) l(3) by (auto simp: scan_aligned_def xor.commute split: if_splits)
  have "dictScan d v = Some (rev_ulong (rev_ulong (w OR NOT (mask k)) + 1), ht_table ts ! (unat v mod 2 ^ k) @ es)"
    using assms(2,3) s(1,2) k(3) l(3) unfolding dictScan_def t [symmetric] by (simp add: Let_def)
  moreover have "set (ht_table ts ! (unat v mod 2 ^ k) @ es) \<subseteq> set (dict_entries d)"
    using en s(4) set_bucket [of "unat v mod 2 ^ k" "ht_table ts"] k(4) by auto
  moreover have "scan_size d = 2 ^ k" using t assms(3) k(2) by (auto simp: scan_size_def min_def split: if_splits)
  moreover have "scan_aligned d v \<longrightarrow> scan_covers d k v (ht_table ts ! (unat v mod 2 ^ k) @ es)"
    using scan_covers_tables [OF _ ok(1) k(3,1) en] s(5) al by simp
  moreover have "k \<le> 64" using k(1) by simp
  ultimately show ?thesis using k(1) scan_next_low [OF _ s(3)] by blast
qed

lemma dictScan_plain:
  assumes "dict_ok valid d" "dictSize d \<noteq> 0" "\<not> dictIsRehashing d"
  shows "\<exists>k v' es. k \<le> 31 \<and> scan_size d = 2 ^ k \<and> dictScan d v = Some (v', es) \<and>
    revn v' = (revn v div 2 ^ (64 - k) + 1) * 2 ^ (64 - k) mod 2 ^ 64 \<and>
    set es \<subseteq> set (dict_entries d) \<and> (scan_aligned d v \<longrightarrow> scan_covers d k v es)"
proof -
  have ok: "ht_ok (hashFunction (d_type d)) (ht0 d)" "ht_ok (hashFunction (d_type d)) (ht1 d)" "ht_size (ht1 d) = 0"
    using assms(1,3) by (auto simp: dict_ok_def)
  have t1: "ht_table (ht1 d) = []" using ht_ok_table_nil [OF ok(2)] ok(3) by simp
  have "ht_size (ht0 d) \<noteq> 0"
    using assms(2) ht_ok_used [OF ok(1)] ht_ok_used [OF ok(2)] ht_ok_table_nil [OF ok(1)] t1 by (auto simp: dictSize_def)
  then obtain k where k: "k \<le> 31" "ht_size (ht0 d) = 2 ^ k" "ht_sizemask (ht0 d) = mask k" "length (ht_table (ht0 d)) = 2 ^ k"
    using ht_ok_mask [OF ok(1)] by blast
  have i: "unat (v AND mask k) = unat v mod 2 ^ k" by (simp only: take_bit_eq_mask [symmetric] unat_bits)
  have "dictScan d v = Some (rev_ulong (rev_ulong (v OR NOT (mask k)) + 1), ht_table (ht0 d) ! (unat v mod 2 ^ k))"
    using assms(2,3) k(3,4) by (simp add: dictScan_def Let_def i rd_ok)
  moreover have "set (ht_table (ht0 d) ! (unat v mod 2 ^ k)) \<subseteq> set (dict_entries d)"
    using set_bucket [of "unat v mod 2 ^ k" "ht_table (ht0 d)"] k(4) by (auto simp: dict_entries_def)
  moreover have "scan_covers d k v (ht_table (ht0 d) ! (unat v mod 2 ^ k) @ [])"
    by (rule scan_covers_tables [OF _ ok(1) k(3,1), of "ht1 d"]) (simp_all add: t1 dict_entries_def)
  moreover have "scan_size d = 2 ^ k" using assms(3) k(2) by (simp add: scan_size_def)
  ultimately show ?thesis using k(1) scan_next [of k v] by auto
qed

lemma dictScan_step:
  assumes "dict_ok valid d" "dictSize d \<noteq> 0"
  shows "\<exists>k v' es. k \<le> 31 \<and> scan_size d = 2 ^ k \<and> dictScan d v = Some (v', es) \<and>
    revn v' = (revn v div 2 ^ (64 - k) + 1) * 2 ^ (64 - k) mod 2 ^ 64 \<and>
    set es \<subseteq> set (dict_entries d) \<and> (scan_aligned d v \<longrightarrow> scan_covers d k v es)"
proof (cases "dictIsRehashing d")
  case True
  obtain ts tL where "(ts, tL) = (if ht_size (ht0 d) > ht_size (ht1 d) then (ht1 d, ht0 d) else (ht0 d, ht1 d))" by (metis surj_pair)
  from dictScan_rehash [OF assms True this] show ?thesis .
qed (rule dictScan_plain [OF assms])

section \<open>A whole scan\<close>

text \<open>The calls of an iteration: each call sees the dictionary as it is at that time.\<close>

fun scan_run :: "('k, 'v) dict list \<Rightarrow> u64 \<Rightarrow> (u64 \<times> ('k, 'v) dictEntry list) option" where
  "scan_run [] v = Some (v, [])"
| "scan_run (d # ds) v = do {
     (v, es) \<leftarrow> dictScan d v;
     (v, es') \<leftarrow> scan_run ds v;
     Some (v, es @ es')
   }"

fun scan_safe :: "('k, 'v) dict list \<Rightarrow> u64 \<Rightarrow> bool" where
  "scan_safe [] v = True"
| "scan_safe (d # ds) v = (scan_aligned d v \<and> (case dictScan d v of None \<Rightarrow> False | Some (v', es) \<Rightarrow> scan_safe ds v'))"

text \<open>A key that is there at every call, with hash \<open>h\<close>, is returned by the time the reversed cursor
  has passed it.\<close>

lemma revn_less: "revn v < 2 ^ 64"
  using unsigned_less [of "rev_ulong v", where ?'a = nat] by simp

lemma block_cover:
  fixes x y n :: nat
  assumes "x < (y div n + 1) * n"
  shows "x < y \<or> x div n = y div n"
proof (cases "x < y")
  case False
  then have "y div n \<le> x div n" by (simp add: div_le_mono)
  moreover have "x div n < y div n + 1" using assms by (simp add: less_mult_imp_div_less)
  ultimately show ?thesis by simp
qed simp

context dictType_contract
begin

lemma scan_emits:
  assumes "good d" "valid key" "dict_lookup d key \<noteq> None" "scan_covers d k v es" "k \<le> 64"
    and "revn (ucast (hashFunction ty key)) div 2 ^ (64 - k) = revn v div 2 ^ (64 - k)"
  shows "\<exists>e\<in>set es. cmp_of ty key (de_key e)"
proof -
  have ty: "d_type d = ty" using assms(1) by (simp add: good_def)
  obtain e where e: "e \<in> set (dict_entries d)" "cmp_of ty key (de_key e)"
    using assms(3) by (auto simp: dict_lookup_None ty)
  have h: "hashFunction ty key = hashFunction ty (de_key e)"
    using cmp_hash [OF assms(2) good_entries(2) [OF assms(1) e(1)] e(2)] .
  have "take_bit k (ucast (hashFunction ty key) :: u64) = take_bit k v" using assms(6) rev_block [OF assms(5)] by simp
  then have "unat (take_bit k (ucast (hashFunction ty key) :: u64)) = unat (take_bit k v)" by simp
  then have "unat (hashFunction (d_type d) (de_key e)) mod 2 ^ k = unat v mod 2 ^ k"
    by (simp add: unat_bits unat_ucast_up h ty)
  with assms(4) e show ?thesis by (auto simp: scan_covers_def)
qed

lemma good_lookup_size: "good d \<Longrightarrow> dict_lookup d key \<noteq> None \<Longrightarrow> dictSize d \<noteq> 0"
  using dictSize_entries [of valid d] by (auto simp: good_def dict_lookup_def)

lemma scan_run_covers:
  assumes "\<And>d. d \<in> set ds \<Longrightarrow> good d \<and> dict_lookup d key \<noteq> None" "valid key" "scan_safe ds v"
    "scan_run ds v = Some (w, es)"
  shows "revn (ucast (hashFunction ty key)) < revn v \<or> (\<exists>e\<in>set es. cmp_of ty key (de_key e)) \<or>
    revn w \<le> revn (ucast (hashFunction ty key)) \<and> (ds \<noteq> [] \<longrightarrow> w \<noteq> 0)"
  using assms
proof (induction ds arbitrary: v es)
  case Nil
  then show ?case by auto
next
  case (Cons d ds)
  define H where "H = revn (ucast (hashFunction ty key))"
  have d: "good d" "dict_lookup d key \<noteq> None" using Cons.prems(1) by auto
  obtain k v1 es1 where s: "k \<le> 31" "dictScan d v = Some (v1, es1)"
    "revn v1 = (revn v div 2 ^ (64 - k) + 1) * 2 ^ (64 - k) mod 2 ^ 64"
    "scan_aligned d v \<longrightarrow> scan_covers d k v es1"
    using dictScan_step [of valid d v] d good_lookup_size [OF d] unfolding good_def by blast
  obtain es2 where r: "scan_run ds v1 = Some (w, es2)" "es = es1 @ es2"
    using Cons.prems(4) s(2) by (auto split: bind_splits)
  have sf: "scan_aligned d v" "scan_safe ds v1" using Cons.prems(3) s(2) by auto
  consider "H < revn v" | "\<not> H < revn v" "H < (revn v div 2 ^ (64 - k) + 1) * 2 ^ (64 - k)"
    | "(revn v div 2 ^ (64 - k) + 1) * 2 ^ (64 - k) \<le> H" by linarith
  then show ?case
  proof cases
    case 1
    then show ?thesis by (simp add: H_def)
  next
    case 2
    then have "H div 2 ^ (64 - k) = revn v div 2 ^ (64 - k)" using block_cover by blast
    with scan_emits [OF d(1) Cons.prems(2) d(2), of k v es1] s(1,4) sf(1) r(2) show ?thesis
      by (auto simp: H_def)
  next
    case 3
    then have "(revn v div 2 ^ (64 - k) + 1) * 2 ^ (64 - k) < 2 ^ 64" using revn_less [of "ucast (hashFunction ty key)"] by (simp add: H_def)
    then have v1: "revn v1 = (revn v div 2 ^ (64 - k) + 1) * 2 ^ (64 - k)" using s(3) by simp
    then have "0 < revn v1" by simp
    then have "v1 \<noteq> 0" by (metis less_irrefl rev_ulong_0 unsigned_0)
    then show ?thesis using Cons.IH [OF _ Cons.prems(2) sf(2) r(1)] Cons.prems(1) 3 v1 r H_def
      by (cases "ds = []") auto
  qed
qed

end

text \<open>A cursor returned by a call has no bit above the smaller table, so that a scan during which
  the tables do not shrink is always aligned.\<close>

lemma scan_cursor_bound:
  assumes "k \<le> 64" "revn v mod 2 ^ (64 - k) = 0"
  shows "take_bit k v = v"
proof (rule bit_word_eqI)
  have t: "take_bit (64 - k) (rev_ulong v) = 0" using assms(2) by (simp add: word_unat_eq_iff unat_bits)
  fix i assume i: "i < LENGTH(64)"
  show "bit (take_bit k v) i = bit v i"
  proof (cases "i < k")
    case False
    have "\<not> bit (take_bit (64 - k) (rev_ulong v)) (63 - i)" using t by simp
    with False i have "\<not> bit v i" by (auto simp: bit_take_bit_iff bit_rev_ulong)
    then show ?thesis by (simp add: bit_take_bit_iff)
  qed (simp add: bit_take_bit_iff)
qed

lemma scan_aligned_small:
  assumes "dict_ok valid d" "unat v < scan_size d"
  shows "scan_aligned d v"
proof (cases "dictIsRehashing d")
  case True
  have ok: "ht_ok (hashFunction (d_type d)) (ht0 d)" "ht_size (ht0 d) \<noteq> 0"
    "ht_ok (hashFunction (d_type d)) (ht1 d)" "ht_size (ht1 d) \<noteq> 0"
    using assms(1) True by (auto simp: dict_ok_def)
  obtain k where k: "k \<le> 31" "ht_size (ht0 d) = 2 ^ k" "ht_sizemask (ht0 d) = mask k" by (rule ht_ok_mask [OF ok(1,2)])
  obtain l where l: "l \<le> 31" "ht_size (ht1 d) = 2 ^ l" "ht_sizemask (ht1 d) = mask l" by (rule ht_ok_mask [OF ok(3,4)])
  have b: "unat v < 2 ^ k" "unat v < 2 ^ l" using assms(2) True k l by (auto simp: scan_size_def)
  have "v AND (mask k XOR mask l) = 0"
  proof (cases "k \<le> l")
    case True
    then show ?thesis using scan_diff(1) [OF True] b l(1) by simp
  next
    case False
    then show ?thesis using scan_diff(1) [of l k v] b k(1) by (simp add: xor.commute)
  qed
  then show ?thesis by (simp add: scan_aligned_def k l)
qed (simp add: scan_aligned_def)

lemma dictScan_small:
  assumes "dict_ok valid d" "dictSize d \<noteq> 0"
  shows "\<exists>v' es. dictScan d v = Some (v', es) \<and> unat v' < scan_size d"
proof -
  obtain k v' es where s: "k \<le> 31" "scan_size d = 2 ^ k" "dictScan d v = Some (v', es)"
    "revn v' = (revn v div 2 ^ (64 - k) + 1) * 2 ^ (64 - k) mod 2 ^ 64"
    using dictScan_step [OF assms, of v] by blast
  have "revn v' mod 2 ^ (64 - k) = (revn v div 2 ^ (64 - k) + 1) * 2 ^ (64 - k) mod 2 ^ (64 - k)"
    unfolding s(4) by (intro mod_mod_cancel le_imp_power_dvd) simp
  then have "take_bit k v' = v'" using scan_cursor_bound [of k v'] s(1) by simp
  then have "unat v' = unat v' mod 2 ^ k" by (metis unat_bits(2))
  then have "unat v' < 2 ^ k" by (metis mod_less_divisor zero_less_power zero_less_numeral)
  with s show ?thesis by auto
qed

lemma scan_safe_growing:
  assumes "\<And>d. d \<in> set ds \<Longrightarrow> dict_ok valid d \<and> dictSize d \<noteq> 0" "sorted (map scan_size ds)"
    and "ds \<noteq> [] \<longrightarrow> unat v < scan_size (hd ds)"
  shows "scan_safe ds v"
  using assms
proof (induction ds arbitrary: v)
  case (Cons d ds)
  obtain v' es where s: "dictScan d v = Some (v', es)" "unat v' < scan_size d"
    using dictScan_small [of valid d v] Cons.prems(1) by auto
  have "ds \<noteq> [] \<longrightarrow> unat v' < scan_size (hd ds)" using s(2) Cons.prems(2) by (cases ds) auto
  then have "scan_safe ds v'" using Cons by auto
  then show ?case using s(1) scan_aligned_small [of valid d v] Cons.prems(1,3) by simp
qed simp

lemma scan_size_pos: "dict_ok valid d \<Longrightarrow> dictSize d \<noteq> 0 \<Longrightarrow> 0 < scan_size d"
  using dictScan_step [of valid d 0] by auto

end
