(* ===== verification/Dict_Props.thy ===== *)
theory Dict_Props
  imports Object Dict_Iter Dict_Scan
begin

text \<open>
  The properties of \<open>dict.c\<close> for every dictionary type that meets its contract, with the types of
  \<open>redis.c\<close> as instances.
\<close>

section \<open>The dictionary is a map\<close>

context dictType_contract
begin

lemma dictResize_ok:
  assumes "good d" "dictSize d \<le> 2 ^ 30"
  shows "\<exists>d' ok. dictResize can_resize d = (d', ok) \<and> ok = (can_resize \<and> \<not> dictIsRehashing d) \<and>
    good d' \<and> same_content d d'"
proof (cases "can_resize \<and> \<not> dictIsRehashing d")
  case True
  define u where "u = ht_used (ht0 d)"
  have u: "u \<le> 2 ^ 30" using assms(2) by (simp add: u_def dictSize_def)
  then have "sint (of_nat u :: u32) = int u"
    using sint_of_int_range [where x = "int u" and ?'a = 32] by simp
  then have "dictResize can_resize d = dictExpand d (if u < 4 then 4 else u)"
    using True by (simp add: dictResize_def u_def [symmetric] Let_def)
  moreover have "dict_ok valid d" using assms(1) by (simp add: good_def)
  ultimately show ?thesis
    using dictExpand_ok [of valid d "if u < 4 then 4 else u"] u True good_same [OF assms(1)] by (auto simp: u_def split: if_splits)
qed (use assms in \<open>auto simp: dictResize_def\<close>)

end

text \<open>C3: \<open>dictAdd\<close> on a well-formed dictionary returns, keeps the invariant, adds the binding when
  the key is new and reports and changes nothing otherwise, in the middle of a rehash or not.\<close>

theorem dict_add:
  assumes "dictType_contract ty valid" "dict_ok valid d" "d_type d = ty" "valid key" "dictSize d \<le> 2 ^ 30"
  shows "\<exists>d'. dictAdd can_resize junk d key v = Some (d', dict_lookup d key = None) \<and> dict_ok valid d' \<and> d_type d' = ty \<and>
     dictSize d' = (if dict_lookup d key = None then dictSize d + 1 else dictSize d) \<and>
     (\<forall>k. valid k \<longrightarrow> dict_lookup d' k =
        (if cmp_of ty k key \<and> dict_lookup d key = None then Some (dictSetVal d v) else dict_lookup d k))"
  using dictType_contract.dictAdd_ok [OF assms(1), of d key can_resize junk v] assms
  by (auto simp: dictType_contract.good_def [OF assms(1)])

theorem dict_add_witness:
  "\<exists>d'. dictAdd True 0 (dictCreate (dbDictType 5381)) [102, 111, 111] (7 :: nat) = Some (d', True) \<and>
    dict_ok (\<lambda>_. True) d' \<and> dict_lookup d' [102, 111, 111] = Some 7 \<and> dict_lookup d' [98, 97, 114] = None"
proof -
  let ?d = "dictCreate (dbDictType 5381 :: (byte list, nat) dictType)"
  have g: "dict_ok (\<lambda>_. True) ?d" "d_type ?d = dbDictType 5381" by simp_all
  have c: "cmp_of (dbDictType 5381 :: (byte list, nat) dictType) a b \<longleftrightarrow> a = b" for a b
    by (simp add: cmp_of_def dbDictType_def dictSdsKeyCompare_eq)
  have "dictSetVal ?d 7 = 7" unfolding dictSetVal_def g(2) by (simp add: dbDictType_def)
  with dict_add [OF db_dict.dictType_contract_axioms g(1,2), where key = "[102, 111, 111]" and can_resize = True and junk = 0 and v = 7] show ?thesis
    by (auto simp: c)
qed

text \<open>C17: \<open>dictReplace\<close> sets the binding of the key, and reports whether the key was new.\<close>

theorem dict_replace:
  assumes "dictType_contract ty valid" "dict_ok valid d" "d_type d = ty" "valid key" "dictSize d \<le> 2 ^ 30"
  shows "\<exists>d'. dictReplace can_resize junk d key v = Some (d', dict_lookup d key = None) \<and> dict_ok valid d' \<and> d_type d' = ty \<and>
     dictSize d' = (if dict_lookup d key = None then dictSize d + 1 else dictSize d) \<and>
     (\<forall>k. valid k \<longrightarrow> dict_lookup d' k = (if cmp_of ty k key then Some (dictSetVal d v) else dict_lookup d k))"
  using dictType_contract.dictReplace_ok [OF assms(1), of d key can_resize junk v] assms
  by (auto simp: dictType_contract.good_def [OF assms(1)])

theorem dict_replace_witness:
  "\<exists>d'. dictReplace False 0 (dictCreate (commandTableDictType 5381)) [71, 69, 84] (3 :: nat) = Some (d', True) \<and>
    dict_lookup d' [103, 101, 116] = Some 3"
proof -
  let ?d = "dictCreate (commandTableDictType 5381 :: (byte list, nat) dictType)"
  have g: "dict_ok (\<lambda>key. 0 \<notin> set key) ?d" "d_type ?d = commandTableDictType 5381" by simp_all
  have c: "cmp_of (commandTableDictType 5381 :: (byte list, nat) dictType) [103, 101, 116] [71, 69, 84]"
    by (simp add: cmp_of_def commandTableDictType_def dictSdsKeyCaseCompare_def strcasecmp_eq tolower_def)
  have "dictSetVal ?d 3 = 3" unfolding dictSetVal_def g(2) by (simp add: commandTableDictType_def)
  with dict_replace [OF command_dict.dictType_contract_axioms g(1,2), where key = "[71, 69, 84]" and can_resize = False and junk = 0 and v = 3] c show ?thesis
    by auto
qed

text \<open>C11: \<open>dictDelete\<close> removes the binding of the key and nothing else, and reports whether there
  was one.\<close>

theorem dict_delete:
  assumes "dictType_contract ty valid" "dict_ok valid d" "d_type d = ty" "valid key"
  shows "\<exists>d'. dictDelete d key = Some (d', dict_lookup d key \<noteq> None) \<and> dict_ok valid d' \<and> d_type d' = ty \<and>
     dictSize d = (if dict_lookup d key \<noteq> None then dictSize d' + 1 else dictSize d') \<and>
     (\<forall>k. valid k \<longrightarrow> dict_lookup d' k = (if cmp_of ty k key then None else dict_lookup d k))"
  using dictType_contract.dictDelete_ok [OF assms(1), of d key] assms
  by (auto simp: dictType_contract.good_def [OF assms(1)])

text \<open>A dictionary of four buckets in the middle of a rehash to eight, used by the witnesses: keys
  are words that hash to themselves.\<close>

definition word_type :: "(u32, nat) dictType" where
  "word_type = \<lparr>hashFunction = (\<lambda>key. key), keyDup = None, valDup = None, keyCompare = None\<rparr>"

definition word_dict :: "(u32, nat) dict" where
  "word_dict = \<lparr>d_type = word_type,
     ht0 = \<lparr>ht_table = [[], [\<lparr>de_key = 5, de_val = 50\<rparr>, \<lparr>de_key = 1, de_val = 10\<rparr>], [], [\<lparr>de_key = 3, de_val = 30\<rparr>]],
            ht_size = 4, ht_sizemask = 3, ht_used = 3\<rparr>,
     ht1 = \<lparr>ht_table = [[], [], [], [], [\<lparr>de_key = 4, de_val = 40\<rparr>], [], [], []],
            ht_size = 8, ht_sizemask = 7, ht_used = 1\<rparr>,
     rehashidx = 1, iterators = 0\<rparr>"

lemma word_type_contract: "dictType_contract word_type (\<lambda>_. True)"
  by unfold_locales (auto simp: word_type_def cmp_equiv_def cmp_of_def dup_of_def)

lemma pow_range: "(4 :: nat) = 2 ^ 2" "(8 :: nat) = 2 ^ 3" "(16 :: nat) = 2 ^ 4"
  by simp_all

lemma all_less_numeral: "(\<forall>i<n. P i) \<longleftrightarrow> list_all P [0..<n]"
  by (auto simp: list_all_iff)

lemma ht_ok_pow:
  assumes "length (ht_table t) = ht_size t" "ht_used t = length (concat (ht_table t))"
    "ht_size t = 2 ^ k" "2 \<le> k" "k \<le> 31" "ht_sizemask t = of_nat (ht_size t) - 1"
    "list_all (\<lambda>i. \<forall>e\<in>set (ht_table t ! i). unat (bucket_idx t (hash (de_key e))) = i) [0..<ht_size t]"
  shows "ht_ok hash t"
  using assms by (auto simp: ht_ok_def list_all_iff)

lemma word_dict_ok: "dict_ok (\<lambda>_. True) word_dict" "d_type word_dict = word_type" "dictSize word_dict = 4"
proof -
  have "ht_ok (hashFunction word_type) (ht0 word_dict)"
    by (rule ht_ok_pow [of _ 2]) (simp_all add: word_dict_def word_type_def bucket_idx_def upt_conv_Cons)
  moreover have "ht_ok (hashFunction word_type) (ht1 word_dict)"
    by (rule ht_ok_pow [of _ 3]) (simp_all add: word_dict_def word_type_def bucket_idx_def upt_conv_Cons)
  ultimately show "dict_ok (\<lambda>_. True) word_dict"
    by (simp add: dict_ok_def word_dict_def dictIsRehashing_def dict_entries_def uniq_keys_def cmp_of_def word_type_def)
qed (simp_all add: word_dict_def dictSize_def)

lemma word_dict_lookup: "dict_lookup word_dict 5 = Some 50" "dict_lookup word_dict 4 = Some 40" "dict_lookup word_dict 7 = None"
  by (simp_all add: dict_lookup_def dict_entries_def word_dict_def cmp_of_def word_type_def)

lemma word_cmp: "cmp_of word_type a b \<longleftrightarrow> a = b"
  by (simp add: cmp_of_def word_type_def)

theorem dict_delete_witness:
  "\<exists>d'. dictDelete word_dict 5 = Some (d', True) \<and> dict_lookup d' 5 = None \<and> dict_lookup d' 4 = Some 40 \<and> dictSize d' = 3"
  using dict_delete [OF word_type_contract word_dict_ok(1,2), where key = 5] word_dict_lookup word_dict_ok(3)
  by (auto simp: word_cmp)

text \<open>C18: \<open>dictFetchValue\<close> returns the value bound to the key, or nothing, and changes no binding.\<close>

theorem dict_fetch:
  assumes "dictType_contract ty valid" "dict_ok valid d" "d_type d = ty" "valid key"
  shows "\<exists>d'. dictFetchValue d key = Some (d', dict_lookup d key) \<and> dict_ok valid d' \<and> d_type d' = ty \<and>
     dictSize d' = dictSize d \<and> (\<forall>k. valid k \<longrightarrow> dict_lookup d' k = dict_lookup d k)"
proof -
  have g: "dictType_contract.good ty valid d" using assms by (simp add: dictType_contract.good_def)
  obtain d' where d': "dictFetchValue d key = Some (d', dict_lookup d key)" "dictType_contract.good ty valid d'"
    "same_content d d'"
    using dictType_contract.dictFetchValue_ok [OF assms(1) g assms(4)] by blast
  then show ?thesis
    using dictType_contract.good_same_lookup [OF assms(1) g d'(2,3)] same_content_size [OF assms(2) _ d'(3)]
    by (auto simp: dictType_contract.good_def [OF assms(1)])
qed

theorem dict_fetch_witness: "\<exists>d'. dictFetchValue word_dict 5 = Some (d', Some 50)"
  using dict_fetch [OF word_type_contract word_dict_ok(1,2), where key = 5] word_dict_lookup by auto

section \<open>Rehashing\<close>

text \<open>C14: a rehash of any number of steps never trips its assertion, keeps the invariant, loses,
  duplicates and changes no entry, and reports whether there is more to do; a call with more steps
  than buckets are left completes it.\<close>

theorem dict_rehash:
  assumes "dictType_contract ty valid" "dict_ok valid d" "d_type d = ty"
  shows "\<exists>d'. dictRehash d n = Some (d', dictIsRehashing d') \<and> dict_ok valid d' \<and> d_type d' = ty \<and>
     mset (dict_entries d') = mset (dict_entries d) \<and>
     (rehashidx d + int n > int (ht_size (ht0 d)) \<longrightarrow> \<not> dictIsRehashing d')"
proof -
  have g: "dictType_contract.good ty valid d" using assms by (simp add: dictType_contract.good_def)
  obtain d' where d': "dictRehash d n = Some (d', dictIsRehashing d')" "dictType_contract.good ty valid d'"
    "same_content d d'" "dictIsRehashing d' \<longrightarrow> dictIsRehashing d"
    using dictType_contract.dictRehash_ok [OF assms(1) g, of n] by blast
  have "\<not> dictIsRehashing d'" if "rehashidx d + int n > int (ht_size (ht0 d))"
    using dictType_contract.dictRehash_completes [OF assms(1) g _ that] d'(1,4) by (cases "dictIsRehashing d") auto
  with d' show ?thesis by (auto simp: dictType_contract.good_def [OF assms(1)] same_content_def)
qed

theorem dict_rehash_witness:
  "\<exists>d'. dictRehash word_dict 4 = Some (d', False) \<and> mset (dict_entries d') = mset (dict_entries word_dict)"
proof -
  have "rehashidx word_dict + int 4 > int (ht_size (ht0 word_dict))" by (simp add: word_dict_def)
  with dict_rehash [OF word_type_contract word_dict_ok(1,2), of 4] show ?thesis by auto
qed

text \<open>The size chosen for a table is the least power of two that is at least 4 and at least the
  size asked for.\<close>

theorem dictNextPower_least:
  assumes "sz \<le> 2 ^ 31"
  shows "\<exists>k. p_dictNextPower sz = 2 ^ k \<and> 4 \<le> p_dictNextPower sz \<and> sz \<le> p_dictNextPower sz \<and>
     (\<forall>j. 4 \<le> (2 :: nat) ^ j \<and> sz \<le> 2 ^ j \<longrightarrow> p_dictNextPower sz \<le> 2 ^ j)"
proof -
  obtain k where k: "k \<in> {2..31}" "p_dictNextPower sz = 2 ^ k" "sz \<le> 2 ^ k" "k = 2 \<or> 2 ^ (k - 1) < sz"
    using p_dictNextPower_pow [OF assms] by blast
  have "k \<le> j" if "4 \<le> (2 :: nat) ^ j" "sz \<le> 2 ^ j" for j
  proof (cases "k = 2")
    case True
    then show ?thesis using that(1) power_le_imp_le_exp [of "2 :: nat" 2 j] by simp
  next
    case False
    then have "(2 :: nat) ^ (k - 1) < 2 ^ j" using k(4) that(2) by linarith
    then show ?thesis by simp
  qed
  moreover have "(4 :: nat) \<le> 2 ^ k" using k(1) power_increasing [of 2 k "2 :: nat"] by simp
  ultimately show ?thesis using k by (auto intro!: exI [of _ k])
qed

theorem dictNextPower_least_witness: "\<exists>k. p_dictNextPower 100 = 2 ^ k \<and> 100 \<le> p_dictNextPower 100"
  using dictNextPower_least [of 100] by auto

text \<open>\<open>dictResize\<close> starts a rehash to a table that fits, or does nothing when resizing is
  disabled or a rehash is running; the bindings stay.\<close>

theorem dict_resize:
  assumes "dictType_contract ty valid" "dict_ok valid d" "d_type d = ty" "dictSize d \<le> 2 ^ 30"
  shows "\<exists>d'. dictResize can_resize d = (d', can_resize \<and> \<not> dictIsRehashing d) \<and> dict_ok valid d' \<and>
     mset (dict_entries d') = mset (dict_entries d)"
  using dictType_contract.dictResize_ok [OF assms(1), of d can_resize] assms
  by (auto simp: dictType_contract.good_def [OF assms(1)] same_content_def)

theorem dict_resize_witness: "\<exists>d'. dictResize True word_dict = (d', False)"
  using dict_resize [OF word_type_contract word_dict_ok(1,2), of True] word_dict_ok(3)
  by (auto simp: word_dict_def dictIsRehashing_def)

text \<open>C22: \<open>dictEmpty\<close> frees every entry exactly once and leaves a fresh dictionary.\<close>

theorem dict_empty:
  assumes "dict_ok valid d"
  shows "dictEmpty d = Some (dictCreate (d_type d), dict_entries d) \<and> dictRelease d = Some (dict_entries d)"
  using dictEmpty_entries [OF assms] dictRelease_entries [OF assms] by simp

theorem dict_empty_witness: "dictRelease word_dict = Some (dict_entries word_dict)"
  using dict_empty [OF word_dict_ok(1)] by simp

section \<open>Iterators\<close>

text \<open>C13: a loop over a safe iterator that deletes any of the entries it is given returns every entry
  exactly once, in table order, and leaves exactly the entries it kept; with no deletions the same
  holds of an unsafe iterator, whose fingerprint check passes. The count of running iterators is
  restored, and no bucket is rehashed away under the iterator.\<close>

theorem dict_iteration:
  assumes "dictType_contract ty valid" "dict_ok valid d" "d_type d = ty" "0 \<le> iterators d" "dictSize d < fuel"
    and "safe \<or> (\<forall>e. \<not> del e)"
    and iter: "iter = (if safe then dictGetSafeIterator fp else dictGetIterator fp)"
  shows "\<exists>d' iter' d''. iter_loop fuel del ptrs d iter = Some (d', iter', dict_entries d) \<and>
     dictReleaseIterator ptrs d' iter' = Some d'' \<and> dict_ok valid d'' \<and> iterators d'' = iterators d \<and>
     mset (filter del (dict_entries d) @ dict_entries d'') = mset (dict_entries d)"
proof -
  have g: "dictType_contract.good ty valid d" using assms by (simp add: dictType_contract.good_def)
  have it: "it_entry iter = []" "it_index iter = -1" "it_table iter = 0" "it_safe iter = safe"
    by (simp_all add: iter dictGetSafeIterator_def dictGetIterator_def)
  have nr: "\<not> dictIsRehashing d \<longrightarrow> ht_table (ht1 d) = []"
    using assms(2) ht_ok_table_nil [of "hashFunction (d_type d)" "ht1 d"] by (auto simp: dict_ok_def)
  have rest: "iter_rest d iter = dict_entries d"
    using nr by (auto simp: iter_rest_def iter_behind_def dict_entries_def it get_ht_simps)
  have "length (iter_rest d iter) < fuel" using assms(5) dictSize_entries [OF assms(2)] rest by simp
  moreover have "iter_ok d iter" by (simp add: iter_ok_def it)
  moreover have "it_safe iter \<or> (\<forall>e. \<not> del e)" using assms(6) it by simp
  moreover have "it_safe iter \<longrightarrow> iterators (fst (dictNext_start ptrs d iter)) > 0"
    using assms(4) by (simp add: dictNext_start_def it)
  ultimately obtain d' iter' where l: "iter_loop fuel del ptrs d iter = Some (d', iter', dict_entries d)"
     "dictType_contract.good ty valid d'" "it_index iter' \<ge> 0" "it_safe iter' = safe"
     "iterators d' = iterators (fst (dictNext_start ptrs d iter))"
     "mset (filter del (dict_entries d) @ dict_entries d') = mset (dict_entries d)"
     "\<not> safe \<longrightarrow> d' = d \<and> it_fingerprint iter' = it_fingerprint (snd (dictNext_start ptrs d iter))"
    using dictType_contract.iter_loop_ok [OF assms(1) g, of iter del fuel ptrs] rest it(4) by auto
  define d'' where "d'' = (if safe then d'\<lparr>iterators := iterators d' - 1\<rparr> else d')"
  have "dictReleaseIterator ptrs d' iter' = Some d''"
    using l(3,4,7) by (auto simp: dictReleaseIterator_def d''_def dictNext_start_def it)
  moreover have "dict_ok valid d''" "dict_entries d'' = dict_entries d'"
    using l(2) by (auto simp: d''_def dictType_contract.good_def [OF assms(1)] dict_ok_def dict_entries_def dictIsRehashing_def)
  moreover have "iterators d'' = iterators d" using l(5,7) by (auto simp: d''_def dictNext_start_def it)
  ultimately show ?thesis using l(1,6) by auto
qed

theorem dict_iteration_witness:
  "\<exists>d' iter' d''. iter_loop 5 (\<lambda>e. de_key e = 1) (0, 0) word_dict (dictGetSafeIterator 0) = Some (d', iter', dict_entries word_dict) \<and>
     dictReleaseIterator (0, 0) d' iter' = Some d'' \<and>
     mset (filter (\<lambda>e. de_key e = 1) (dict_entries word_dict) @ dict_entries d'') = mset (dict_entries word_dict)"
proof -
  have "0 \<le> iterators word_dict" by (simp add: word_dict_def)
  with dict_iteration [OF word_type_contract word_dict_ok(1,2), of 5 True "\<lambda>e. de_key e = 1" "dictGetSafeIterator 0" 0 "(0, 0)"]
    word_dict_ok(3) show ?thesis by auto
qed

text \<open>\<open>dictGetRandomKey\<close> returns only entries of the dictionary, and every entry for some
  results of \<open>random()\<close>.\<close>

theorem dict_random:
  assumes "dictType_contract ty valid" "dict_ok valid d" "d_type d = ty"
  shows "(\<forall>rs d' r. dictGetRandomKey d rs = Some (d', r) \<longrightarrow>
       dict_ok valid d' \<and> mset (dict_entries d') = mset (dict_entries d) \<and>
       (case r of None \<Rightarrow> dictSize d = 0 | Some e \<Rightarrow> e \<in> set (dict_entries d))) \<and>
    (\<forall>e\<in>set (dict_entries d). \<exists>r1 r2 d'. dictGetRandomKey d [r1, r2] = Some (d', Some e))"
proof -
  have g: "dictType_contract.good ty valid d" using assms by (simp add: dictType_contract.good_def)
  show ?thesis
    using dictType_contract.dictGetRandomKey_ok [OF assms(1) g] dictType_contract.dictGetRandomKey_any [OF assms(1) g]
    by (auto simp: dictType_contract.good_def [OF assms(1)] same_content_def)
qed

theorem dict_random_witness: "\<exists>r1 r2 d'. dictGetRandomKey word_dict [r1, r2] = Some (d', Some \<lparr>de_key = 4, de_val = 40\<rparr>)"
  using dict_random [OF word_type_contract word_dict_ok(1,2)]
  by (auto simp: dict_entries_def word_dict_def)

section \<open>Scans\<close>

text \<open>C4: a key that stays in the dictionary during a whole \<open>SCAN\<close> iteration is returned, whatever
  is added, deleted and rehashed between the calls, as long as the smaller table never gets
  smaller.\<close>

theorem dict_scan_complete:
  assumes "dictType_contract ty valid" "valid key"
    and "\<forall>d\<in>set ds. dict_ok valid d \<and> d_type d = ty \<and> dict_lookup d key \<noteq> None"
    and "sorted (map scan_size ds)" "ds \<noteq> []" "scan_run ds 0 = Some (0, es)"
  shows "\<exists>e\<in>set es. cmp_of ty key (de_key e)"
proof -
  have g: "dictType_contract.good ty valid d \<and> dict_lookup d key \<noteq> None" if "d \<in> set ds" for d
    using assms(1,3) that by (simp add: dictType_contract.good_def)
  then have nz: "dict_ok valid d \<and> dictSize d \<noteq> 0" if "d \<in> set ds" for d
    using dictType_contract.good_lookup_size [OF assms(1)] that assms(3) by blast
  have "0 < scan_size (hd ds)" using nz [of "hd ds"] scan_size_pos [of valid "hd ds"] assms(5) by auto
  then have "scan_safe ds 0" using scan_safe_growing [of ds valid 0] nz assms(4) by simp
  from dictType_contract.scan_run_covers [OF assms(1) g assms(2) this assms(6)] assms(5) show ?thesis
    by auto
qed

text \<open>A dictionary of four buckets, for the witness.\<close>

definition four_dict :: "(u32, nat) dict" where
  "four_dict = \<lparr>d_type = word_type,
     ht0 = \<lparr>ht_table = [[], [\<lparr>de_key = 5, de_val = 50\<rparr>], [], []], ht_size = 4, ht_sizemask = 3, ht_used = 1\<rparr>,
     ht1 = p_dictReset, rehashidx = -1, iterators = 0\<rparr>"

lemma four_dict_ok: "dict_ok (\<lambda>_. True) four_dict"
proof -
  have "ht_ok (hashFunction word_type) (ht0 four_dict)"
    by (rule ht_ok_pow [of _ 2]) (simp_all add: four_dict_def word_type_def bucket_idx_def upt_conv_Cons)
  then show ?thesis
    by (simp add: dict_ok_def four_dict_def dictIsRehashing_def dict_entries_def uniq_keys_def)
qed

lemma rev_ulong_value:
  "rev_ulong (rev_ulong (- 4) + 1) = 2" "rev_ulong (rev_ulong (- 2) + 1) = 1"
  "rev_ulong (rev_ulong (- 3) + 1) = 3" "rev_ulong (rev_ulong (- 1) + 1) = 0"
  "rev_ulong (rev_ulong (- 16) + 1) = 8"
proof -
  have "rev_ulong 0xFFFFFFFFFFFFFFFC = 0x3FFFFFFFFFFFFFFF" "rev_ulong 0x4000000000000000 = 2"
    "rev_ulong 0xFFFFFFFFFFFFFFFE = 0x7FFFFFFFFFFFFFFF" "rev_ulong 0x8000000000000000 = 1"
    "rev_ulong 0xFFFFFFFFFFFFFFFD = 0xBFFFFFFFFFFFFFFF" "rev_ulong 0xC000000000000000 = 3"
    "rev_ulong 0xFFFFFFFFFFFFFFFF = 0xFFFFFFFFFFFFFFFF" "rev_ulong 0xFFFFFFFFFFFFFFF0 = 0x0FFFFFFFFFFFFFFF"
    "rev_ulong 0x1000000000000000 = 8"
    by (simp_all add: rev_ulong_steps swap_step_def)
  moreover have "(- 4 :: u64) = 0xFFFFFFFFFFFFFFFC" "(- 2 :: u64) = 0xFFFFFFFFFFFFFFFE" "(- 3 :: u64) = 0xFFFFFFFFFFFFFFFD"
    "(- 1 :: u64) = 0xFFFFFFFFFFFFFFFF" "(- 16 :: u64) = 0xFFFFFFFFFFFFFFF0" by simp_all
  ultimately show "rev_ulong (rev_ulong (- 4) + 1) = 2" "rev_ulong (rev_ulong (- 2) + 1) = 1"
    "rev_ulong (rev_ulong (- 3) + 1) = 3" "rev_ulong (rev_ulong (- 16) + 1) = 8"
    by (simp_all only:) simp_all
  have "rev_ulong (- 1) = - 1" by (rule bit_word_eqI) (simp add: bit_rev_ulong)
  then show "rev_ulong (rev_ulong (- 1) + 1) = 0" by simp
qed

lemma four_dict_scan:
  "dictScan four_dict 0 = Some (2, [])" "dictScan four_dict 2 = Some (1, [])"
  "dictScan four_dict 1 = Some (3, [\<lparr>de_key = 5, de_val = 50\<rparr>])" "dictScan four_dict 3 = Some (0, [])"
  by (simp_all add: dictScan_def four_dict_def dictSize_def dictIsRehashing_def Let_def rd_ok rev_ulong_value)

theorem dict_scan_complete_witness:
  "\<exists>es. scan_run [four_dict, four_dict, four_dict, four_dict] 0 = Some (0, es) \<and> (\<exists>e\<in>set es. de_key e = 5)"
proof -
  have r: "scan_run [four_dict, four_dict, four_dict, four_dict] 0 = Some (0, [\<lparr>de_key = 5, de_val = 50\<rparr>])"
    by (simp add: four_dict_scan)
  have "\<forall>d\<in>set [four_dict, four_dict, four_dict, four_dict].
      dict_ok (\<lambda>_. True) d \<and> d_type d = word_type \<and> dict_lookup d 5 \<noteq> None"
    using four_dict_ok by (simp add: dict_lookup_def dict_entries_def four_dict_def word_cmp)
  from dict_scan_complete [OF word_type_contract TrueI this _ _ r] r show ?thesis by (auto simp: word_cmp)
qed

definition sixteen_dict :: "(u32, nat) dict" where
  "sixteen_dict = \<lparr>d_type = word_type,
     ht0 = \<lparr>ht_table = [[], [], [], [], [\<lparr>de_key = 4, de_val = 40\<rparr>], [], [], [], [], [], [], [], [], [], [], []],
            ht_size = 16, ht_sizemask = 15, ht_used = 1\<rparr>,
     ht1 = p_dictReset, rehashidx = -1, iterators = 0\<rparr>"

definition shrinking_dict :: "(u32, nat) dict" where
  "shrinking_dict = fst (dictResize True sixteen_dict)"

lemma sixteen_dict_ok: "dict_ok (\<lambda>_. True) sixteen_dict"
proof -
  have "ht_ok (hashFunction word_type) (ht0 sixteen_dict)"
    by (rule ht_ok_pow [of _ 4]) (simp_all add: sixteen_dict_def word_type_def bucket_idx_def upt_conv_Cons)
  then show ?thesis
    by (simp add: dict_ok_def sixteen_dict_def dictIsRehashing_def dict_entries_def uniq_keys_def)
qed

lemma shrinking_dict_eq:
  "shrinking_dict = sixteen_dict\<lparr>ht1 := \<lparr>ht_table = [[], [], [], []], ht_size = 4, ht_sizemask = 3, ht_used = 0\<rparr>, rehashidx := 0\<rparr>"
proof -
  have "p_dictNextPower 4 = 4" by (simp add: p_dictNextPower_def p_dictNextPower_loop.simps)
  moreover have "replicate 4 [] = [[], [], [], [] :: (u32, nat) dictEntry list]" by (simp add: eval_nat_numeral)
  ultimately show ?thesis
    by (simp add: shrinking_dict_def sixteen_dict_def dictResize_def dictExpand_def dictIsRehashing_def Let_def)
qed

lemma sixteen_dict_scan:
  "dictScan sixteen_dict 0 = Some (8, [])" "dictScan shrinking_dict 8 = Some (2, [])"
  "dictScan shrinking_dict 2 = Some (1, [])" "dictScan shrinking_dict 1 = Some (3, [])" "dictScan shrinking_dict 3 = Some (0, [])"
  by (simp_all add: dictScan_def sixteen_dict_def shrinking_dict_eq dictSize_def dictIsRehashing_def Let_def rd_ok
      rev_ulong_value dictScan_loop.simps)

lemma shrinking_dict_ok: "dict_ok (\<lambda>_. True) shrinking_dict"
proof -
  have "dictType_contract.good word_type (\<lambda>_. True) sixteen_dict"
    using sixteen_dict_ok by (simp add: dictType_contract.good_def [OF word_type_contract]) (simp add: sixteen_dict_def)
  moreover have "dictSize sixteen_dict \<le> 2 ^ 30" by (simp add: sixteen_dict_def dictSize_def)
  ultimately show ?thesis
    using dictType_contract.dictResize_ok [OF word_type_contract, of sixteen_dict True]
    by (auto simp: shrinking_dict_def dictType_contract.good_def [OF word_type_contract])
qed

text \<open>C23: when a table shrinks during the iteration a key can be missed: from cursor 8 of a table of
  16 buckets that is being rehashed to 4, the loop over the larger table starts at bucket 8 and never
  visits bucket 4. The iteration below ends with cursor 0 and returns nothing, though the key 4 is
  there at each of its calls.\<close>

theorem dict_scan_misses:
  "scan_run [sixteen_dict, shrinking_dict, shrinking_dict, shrinking_dict, shrinking_dict] 0 = Some (0, []) \<and>
   dict_ok (\<lambda>_. True) sixteen_dict \<and> dict_lookup sixteen_dict 4 = Some 40 \<and>
   shrinking_dict = fst (dictResize True sixteen_dict) \<and>
   dict_ok (\<lambda>_. True) shrinking_dict \<and> dict_lookup shrinking_dict 4 = Some 40"
proof -
  have "dict_lookup sixteen_dict 4 = Some 40" "dict_lookup shrinking_dict 4 = Some 40"
    by (simp_all add: dict_lookup_def dict_entries_def shrinking_dict_eq sixteen_dict_def word_cmp)
  then show ?thesis using sixteen_dict_ok shrinking_dict_ok by (simp add: sixteen_dict_scan shrinking_dict_def [symmetric])
qed

end
