(* ===== verification/Sds.thy ===== *)
theory Sds
  imports Util Clib
begin

text \<open>
  \<open>sds.c\<close>: strings with their length and spare room in front of a buffer. \<open>len\<close> and \<open>free\<close> are the
  32-bit fields of \<open>struct sdshdr\<close>, the buffer is the allocated bytes behind them; sizes of type
  \<open>size_t\<close> are naturals. \<open>junk\<close> is what the allocator leaves in fresh memory. \<open>None\<close> is an access
  outside the buffer or a failed assertion; allocation does not fail.
\<close>

section \<open>Strings\<close>

record sds =
  sds_len :: u32
  sds_free :: u32
  sds_buf :: "byte list"

abbreviation SDS_MAX_PREALLOC :: nat where "SDS_MAX_PREALLOC \<equiv> 1024 * 1024"

definition sdslen :: "sds \<Rightarrow> nat" where
  "sdslen s = unat (sds_len s)"

definition sdsavail :: "sds \<Rightarrow> nat" where
  "sdsavail s = unat (sds_free s)"

text \<open>\<open>init\<close> is \<open>NULL\<close> or the bytes at the pointer.\<close>

definition sdsnewlen :: "(nat \<Rightarrow> byte) \<Rightarrow> byte list option \<Rightarrow> nat \<Rightarrow> sds option" where
  "sdsnewlen junk init initlen = do {
     buf \<leftarrow> (case init of
        None \<Rightarrow> Some (replicate (initlen + 1) 0)
      | Some b \<Rightarrow> do { t \<leftarrow> memread b 0 initlen; memwrite (map junk [0..<initlen + 1]) 0 t });
     buf \<leftarrow> wr buf initlen 0;
     Some \<lparr>sds_len = of_nat initlen, sds_free = 0, sds_buf = buf\<rparr>
   }"

definition sdsempty :: "(nat \<Rightarrow> byte) \<Rightarrow> sds option" where
  "sdsempty junk = sdsnewlen junk (Some [0]) 0"

definition sdsnew :: "(nat \<Rightarrow> byte) \<Rightarrow> byte list option \<Rightarrow> sds option" where
  "sdsnew junk init = do {
     initlen \<leftarrow> (case init of None \<Rightarrow> Some 0 | Some b \<Rightarrow> strlen b);
     sdsnewlen junk init initlen
   }"

definition sdsdup :: "(nat \<Rightarrow> byte) \<Rightarrow> sds \<Rightarrow> sds option" where
  "sdsdup junk s = sdsnewlen junk (Some (sds_buf s)) (sdslen s)"

definition sdsupdatelen :: "sds \<Rightarrow> sds option" where
  "sdsupdatelen s = do {
     reallen \<leftarrow> strlen (sds_buf s);
     Some (s\<lparr>sds_free := sds_free s + (sds_len s - of_nat reallen), sds_len := of_nat reallen\<rparr>)
   }"

definition sdsclear :: "sds \<Rightarrow> sds option" where
  "sdsclear s = do {
     buf \<leftarrow> wr (sds_buf s) 0 0;
     Some \<lparr>sds_len = 0, sds_free = sds_free s + sds_len s, sds_buf = buf\<rparr>
   }"

definition sdsMakeRoomFor :: "(nat \<Rightarrow> byte) \<Rightarrow> sds \<Rightarrow> nat \<Rightarrow> sds" where
  "sdsMakeRoomFor junk s addlen =
     (if sdsavail s \<ge> addlen then s
      else
        let len = sdslen s;
            newlen = len + addlen;
            newlen = (if newlen < SDS_MAX_PREALLOC then newlen * 2 else newlen + SDS_MAX_PREALLOC)
        in s\<lparr>sds_buf := zrealloc junk (sds_buf s) (newlen + 1), sds_free := of_nat (newlen - len)\<rparr>)"

definition sdsRemoveFreeSpace :: "(nat \<Rightarrow> byte) \<Rightarrow> sds \<Rightarrow> sds" where
  "sdsRemoveFreeSpace junk s = s\<lparr>sds_buf := zrealloc junk (sds_buf s) (sdslen s + 1), sds_free := 0\<rparr>"

definition sdsAllocSize :: "sds \<Rightarrow> nat" where
  "sdsAllocSize s = 8 + sdslen s + sdsavail s + 1"

definition sdsIncrLen :: "sds \<Rightarrow> u32 \<Rightarrow> sds option" where
  "sdsIncrLen s incr =
     (if (if sint incr \<ge> 0 then sds_free s \<ge> incr else sds_len s \<ge> - incr) then do {
        let len = sds_len s + incr;
        buf \<leftarrow> wr (sds_buf s) (unat len) 0;
        Some \<lparr>sds_len = len, sds_free = sds_free s - incr, sds_buf = buf\<rparr>
      }
      else None)"

definition sdsgrowzero :: "(nat \<Rightarrow> byte) \<Rightarrow> sds \<Rightarrow> nat \<Rightarrow> sds option" where
  "sdsgrowzero junk s len =
     (let curlen = sdslen s
      in if len \<le> curlen then Some s
         else do {
           let s = sdsMakeRoomFor junk s (len - curlen);
           buf \<leftarrow> memwrite (sds_buf s) curlen (replicate (len - curlen + 1) 0);
           let totlen = sds_len s + sds_free s;
           Some \<lparr>sds_len = of_nat len, sds_free = totlen - of_nat len, sds_buf = buf\<rparr>
         })"

definition sdscatlen :: "(nat \<Rightarrow> byte) \<Rightarrow> sds \<Rightarrow> byte list \<Rightarrow> nat \<Rightarrow> sds option" where
  "sdscatlen junk s t len = do {
     let curlen = sdslen s;
     let s = sdsMakeRoomFor junk s len;
     t \<leftarrow> memread t 0 len;
     buf \<leftarrow> memwrite (sds_buf s) curlen t;
     buf \<leftarrow> wr buf (curlen + len) 0;
     Some \<lparr>sds_len = of_nat (curlen + len), sds_free = sds_free s - of_nat len, sds_buf = buf\<rparr>
   }"

definition sdscat :: "(nat \<Rightarrow> byte) \<Rightarrow> sds \<Rightarrow> byte list \<Rightarrow> sds option" where
  "sdscat junk s t = do { len \<leftarrow> strlen t; sdscatlen junk s t len }"

definition sdscatsds :: "(nat \<Rightarrow> byte) \<Rightarrow> sds \<Rightarrow> sds \<Rightarrow> sds option" where
  "sdscatsds junk s t = sdscatlen junk s (sds_buf t) (sdslen t)"

definition sdscpylen :: "(nat \<Rightarrow> byte) \<Rightarrow> sds \<Rightarrow> byte list \<Rightarrow> nat \<Rightarrow> sds option" where
  "sdscpylen junk s t len = do {
     let totlen = unat (sds_free s + sds_len s);
     let s = (if totlen < len then sdsMakeRoomFor junk s (len - sdslen s) else s);
     let totlen = unat (sds_free s + sds_len s);
     t \<leftarrow> memread t 0 len;
     buf \<leftarrow> memwrite (sds_buf s) 0 t;
     buf \<leftarrow> wr buf len 0;
     Some \<lparr>sds_len = of_nat len, sds_free = of_nat totlen - of_nat len, sds_buf = buf\<rparr>
   }"

definition sdscpy :: "(nat \<Rightarrow> byte) \<Rightarrow> sds \<Rightarrow> byte list \<Rightarrow> sds option" where
  "sdscpy junk s t = do { len \<leftarrow> strlen t; sdscpylen junk s t len }"

section \<open>Numbers\<close>

abbreviation SDS_LLSTR_SIZE :: nat where "SDS_LLSTR_SIZE \<equiv> 21"

text \<open>The \<open>do\<close> loop writes the digits from the last; the second loop swaps the ends.\<close>

function sdsull2str_digits :: "byte list \<Rightarrow> nat \<Rightarrow> u64 \<Rightarrow> (byte list \<times> nat) option" where
  "sdsull2str_digits s p v = do {
     s \<leftarrow> wr s p (48 + ucast (v mod 10));
     let v = v div 10;
     if v \<noteq> 0 then sdsull2str_digits s (p + 1) v else Some (s, p + 1)
   }"
  by pat_completeness auto
termination
proof (relation "measure (\<lambda>(s, p, v). unat v)")
  fix s p v s' x assume "x = v div 10" "x \<noteq> (0 :: u64)"
  then show "((s', p + 1, x), (s, p, v)) \<in> measure (\<lambda>(s, p, v). unat v)"
    by (auto simp: unat_div word_unat_eq_iff)
qed simp

declare sdsull2str_digits.simps [simp del]

function reverse_loop :: "byte list \<Rightarrow> nat \<Rightarrow> nat \<Rightarrow> byte list option" where
  "reverse_loop b s p =
     (if s < p then do {
        aux \<leftarrow> rd b s;
        x \<leftarrow> rd b p;
        b \<leftarrow> wr b s x;
        b \<leftarrow> wr b p aux;
        reverse_loop b (s + 1) (p - 1)
      }
      else Some b)"
  by pat_completeness auto
termination
  by (relation "measure (\<lambda>(b, s, p). p)") auto

declare reverse_loop.simps [simp del]

text \<open>\<open>-value\<close> of the least \<open>long long\<close> is computed modulo \<open>2 ^ 64\<close>, as compilers do.\<close>

definition sdsll2str :: "byte list \<Rightarrow> u64 \<Rightarrow> (byte list \<times> nat) option" where
  "sdsll2str s v = do {
     let u = (if sint v < 0 then - v else v);
     (s, p) \<leftarrow> sdsull2str_digits s 0 u;
     (s, p) \<leftarrow> (if sint v < 0 then do { s \<leftarrow> wr s p 45; Some (s, p + 1) } else Some (s, p));
     s \<leftarrow> wr s p 0;
     s \<leftarrow> reverse_loop s 0 (p - 1);
     Some (s, p)
   }"

definition sdsull2str :: "byte list \<Rightarrow> u64 \<Rightarrow> (byte list \<times> nat) option" where
  "sdsull2str s v = do {
     (s, p) \<leftarrow> sdsull2str_digits s 0 v;
     s \<leftarrow> wr s p 0;
     s \<leftarrow> reverse_loop s 0 (p - 1);
     Some (s, p)
   }"

definition sdsfromlonglong :: "(nat \<Rightarrow> byte) \<Rightarrow> u64 \<Rightarrow> sds option" where
  "sdsfromlonglong junk v = do {
     (buf, len) \<leftarrow> sdsll2str (map junk [0..<SDS_LLSTR_SIZE]) v;
     sdsnewlen junk (Some buf) len
   }"

section \<open>Formatting\<close>

datatype fmtarg = FStr "byte list" | FSds sds | FInt u32 | FLL u64 | FUInt u32 | FULL u64

text \<open>Copying \<open>l\<close> bytes at position \<open>i\<close>, as each case of \<open>sdscatfmt\<close> does.\<close>

definition fmt_put :: "(nat \<Rightarrow> byte) \<Rightarrow> sds \<Rightarrow> nat \<Rightarrow> byte list \<Rightarrow> nat \<Rightarrow> sds option" where
  "fmt_put junk s i t l = do {
     let s = (if sdsavail s < l then sdsMakeRoomFor junk s l else s);
     t \<leftarrow> memread t 0 l;
     buf \<leftarrow> memwrite (sds_buf s) i t;
     Some \<lparr>sds_len = sds_len s + of_nat l, sds_free = sds_free s - of_nat l, sds_buf = buf\<rparr>
   }"

definition fmt_char :: "sds \<Rightarrow> nat \<Rightarrow> byte \<Rightarrow> sds option" where
  "fmt_char s i c = do {
     buf \<leftarrow> wr (sds_buf s) i c;
     Some \<lparr>sds_len = sds_len s + 1, sds_free = sds_free s - 1, sds_buf = buf\<rparr>
   }"

text \<open>The text of an argument and its length. A directive whose argument has another type is
  undefined in C.\<close>

definition fmt_arg :: "(nat \<Rightarrow> byte) \<Rightarrow> byte \<Rightarrow> fmtarg \<Rightarrow> (byte list \<times> nat) option" where
  "fmt_arg junk c a =
     (case a of
        FStr t \<Rightarrow> if c = ch CHR ''s'' then do { l \<leftarrow> strlen t; Some (t, l) } else None
      | FSds t \<Rightarrow> if c = ch CHR ''S'' then Some (sds_buf t, sdslen t) else None
      | FInt n \<Rightarrow> if c = ch CHR ''i'' then sdsll2str (map junk [0..<SDS_LLSTR_SIZE]) (scast n) else None
      | FLL n \<Rightarrow> if c = ch CHR ''I'' then sdsll2str (map junk [0..<SDS_LLSTR_SIZE]) n else None
      | FUInt n \<Rightarrow> if c = ch CHR ''u'' then sdsull2str (map junk [0..<SDS_LLSTR_SIZE]) (ucast n) else None
      | FULL n \<Rightarrow> if c = ch CHR ''U'' then sdsull2str (map junk [0..<SDS_LLSTR_SIZE]) n else None)"

definition is_directive :: "byte \<Rightarrow> bool" where
  "is_directive c \<longleftrightarrow> c \<in> set (bytes_of ''sSiIuU'')"

text \<open>\<open>f\<close> is what is left of the format, with its NUL.\<close>

fun sdscatfmt_loop :: "(nat \<Rightarrow> byte) \<Rightarrow> sds \<Rightarrow> nat \<Rightarrow> byte list \<Rightarrow> fmtarg list \<Rightarrow> (sds \<times> nat) option" where
  "sdscatfmt_loop junk s i [] args = None"
| "sdscatfmt_loop junk s i (c # f) args =
     (if c = 0 then Some (s, i)
      else
        let s = (if sdsavail s = 0 then sdsMakeRoomFor junk s 1 else s)
        in if c = ch CHR ''%'' then
             (case f of
                [] \<Rightarrow> None
              | nxt # f' \<Rightarrow>
                  if is_directive nxt then
                    (case args of
                       [] \<Rightarrow> None
                     | a # args' \<Rightarrow> do {
                         (t, l) \<leftarrow> fmt_arg junk nxt a;
                         s \<leftarrow> fmt_put junk s i t l;
                         sdscatfmt_loop junk s (i + l) f' args'
                       })
                  else do {
                    s \<leftarrow> fmt_char s i nxt;
                    sdscatfmt_loop junk s (i + 1) f' args
                  })
           else do {
             s \<leftarrow> fmt_char s i c;
             sdscatfmt_loop junk s (i + 1) f args
           })"

definition sdscatfmt :: "(nat \<Rightarrow> byte) \<Rightarrow> sds \<Rightarrow> byte list \<Rightarrow> fmtarg list \<Rightarrow> sds option" where
  "sdscatfmt junk s fmt args = do {
     (s, i) \<leftarrow> sdscatfmt_loop junk s (sdslen s) fmt args;
     buf \<leftarrow> wr (sds_buf s) i 0;
     Some (s\<lparr>sds_buf := buf\<rparr>)
   }"
section \<open>Invariant and content\<close>

definition sds_ok :: "sds \<Rightarrow> bool" where
  "sds_ok s \<longleftrightarrow> length (sds_buf s) = sdslen s + sdsavail s + 1 \<and> sds_buf s ! sdslen s = 0 \<and>
     sdslen s + sdsavail s < 2 ^ 32"

definition sds_str :: "sds \<Rightarrow> byte list" where
  "sds_str s = take (sdslen s) (sds_buf s)"

lemma unat_of_nat_u32: "n < 2 ^ 32 \<Longrightarrow> unat (of_nat n :: u32) = n"
  by (simp add: unsigned_of_nat take_bit_nat_eq_self)

lemma sds_okI:
  assumes "length b = n + f + 1" "b ! n = 0" "n + f < 2 ^ 32"
  shows "sds_ok \<lparr>sds_len = of_nat n, sds_free = of_nat f, sds_buf = b\<rparr>"
    "sdslen \<lparr>sds_len = of_nat n, sds_free = of_nat f, sds_buf = b\<rparr> = n"
    "sdsavail \<lparr>sds_len = of_nat n, sds_free = of_nat f, sds_buf = b\<rparr> = f"
    "sds_str \<lparr>sds_len = of_nat n, sds_free = of_nat f, sds_buf = b\<rparr> = take n b"
proof -
  have "unat (of_nat n :: u32) = n" "unat (of_nat f :: u32) = f"
    using assms(3) by (auto intro!: unat_of_nat_u32)
  then show "sds_ok \<lparr>sds_len = of_nat n, sds_free = of_nat f, sds_buf = b\<rparr>"
    "sdslen \<lparr>sds_len = of_nat n, sds_free = of_nat f, sds_buf = b\<rparr> = n"
    "sdsavail \<lparr>sds_len = of_nat n, sds_free = of_nat f, sds_buf = b\<rparr> = f"
    "sds_str \<lparr>sds_len = of_nat n, sds_free = of_nat f, sds_buf = b\<rparr> = take n b"
    using assms by (simp_all add: sds_ok_def sdslen_def sdsavail_def sds_str_def)
qed

lemma sds_eta: "s = \<lparr>sds_len = of_nat (sdslen s), sds_free = of_nat (sdsavail s), sds_buf = sds_buf s\<rparr>"
  by (simp add: sdslen_def sdsavail_def)

lemma length_sds_str: "sds_ok s \<Longrightarrow> length (sds_str s) = sdslen s"
  by (simp add: sds_str_def sds_ok_def)

text \<open>A result with length \<open>n\<close>, spare room \<open>f\<close> and content \<open>t\<close>.\<close>

definition sds_is :: "sds \<Rightarrow> byte list \<Rightarrow> nat \<Rightarrow> bool" where
  "sds_is s t f \<longleftrightarrow> sds_ok s \<and> sds_str s = t \<and> sdsavail s = f"

lemma sds_isD:
  assumes "sds_is s t f"
  shows "sds_ok s" "sds_str s = t" "sdslen s = length t" "sdsavail s = f"
  using assms length_sds_str [of s] by (auto simp: sds_is_def)

lemma sds_isI:
  assumes "length b = length t + f + 1" "take (length t) b = t" "b ! length t = 0" "length t + f < 2 ^ 32"
    "l = of_nat (length t)" "fr = of_nat f"
  shows "sds_is \<lparr>sds_len = l, sds_free = fr, sds_buf = b\<rparr> t f"
  using assms sds_okI [of b "length t" f] by (simp add: sds_is_def)

text \<open>A buffer of content, NUL and spare bytes.\<close>

lemma sds_is_buf:
  "sds_is \<lparr>sds_len = l, sds_free = fr, sds_buf = b\<rparr> t f \<longleftrightarrow>
     l = of_nat (length t) \<and> fr = of_nat f \<and> length t + f < 2 ^ 32 \<and>
     (\<exists>r. b = t @ 0 # r \<and> length r = f)"
proof
  assume a: "sds_is \<lparr>sds_len = l, sds_free = fr, sds_buf = b\<rparr> t f"
  define s where "s = \<lparr>sds_len = l, sds_free = fr, sds_buf = b\<rparr>"
  have s: "sds_ok s" "sds_str s = t" "sdslen s = length t" "sdsavail s = f" using sds_isD [OF a] by (simp_all add: s_def)
  have len: "length b = length t + f + 1" "b ! length t = 0" "length t + f < 2 ^ 32"
    using s by (simp_all add: sds_ok_def s_def)
  have "b = take (length t) b @ b ! length t # drop (Suc (length t)) b"
    using len(1) by (intro id_take_nth_drop) simp
  moreover have "take (length t) b = t" using s(2,3) by (simp add: sds_str_def s_def)
  ultimately have "b = t @ 0 # drop (Suc (length t)) b" using len(2) by simp
  moreover have "l = of_nat (length t)" "fr = of_nat f"
  proof -
    have "unat l = length t" "unat fr = f" using s(3,4) by (simp_all add: s_def sdslen_def sdsavail_def)
    moreover have "of_nat (unat l) = l" "of_nat (unat fr) = fr" by simp_all
    ultimately show "l = of_nat (length t)" "fr = of_nat f" by simp_all
  qed
  ultimately show "l = of_nat (length t) \<and> fr = of_nat f \<and> length t + f < 2 ^ 32 \<and> (\<exists>r. b = t @ 0 # r \<and> length r = f)"
    using len by auto
next
  assume "l = of_nat (length t) \<and> fr = of_nat f \<and> length t + f < 2 ^ 32 \<and> (\<exists>r. b = t @ 0 # r \<and> length r = f)"
  then show "sds_is \<lparr>sds_len = l, sds_free = fr, sds_buf = b\<rparr> t f" by (auto intro!: sds_isI)
qed

lemma sds_is_cases:
  assumes "sds_is s t f"
  obtains r where "s = \<lparr>sds_len = of_nat (length t), sds_free = of_nat f, sds_buf = t @ 0 # r\<rparr>"
    "length r = f" "length t + f < 2 ^ 32"
  using assms sds_is_buf [of "sds_len s" "sds_free s" "sds_buf s" t f] by (cases s) auto

lemma sds_is_exists: "sds_ok s \<Longrightarrow> sds_is s (sds_str s) (sdsavail s)"
  by (simp add: sds_is_def)

lemma sds_is_mem: "sds_is s t f \<Longrightarrow> memread (sds_buf s) 0 (sdslen s) = Some t"
  by (auto elim!: sds_is_cases simp: sdslen_def unat_of_nat_u32 memread_def)

lemma sds_is_take: "sds_is s t f \<Longrightarrow> take (sdslen s) (sds_buf s) = t" "sds_is s t f \<Longrightarrow> sdslen s \<le> length (sds_buf s)"
  by (auto elim!: sds_is_cases simp: sdslen_def unat_of_nat_u32)

text \<open>Writing into a buffer split at the position.\<close>

lemma sdsnewlen_is:
  assumes "n \<le> length b" "n < 2 ^ 32"
  shows "\<exists>s. sdsnewlen junk (Some b) n = Some s \<and> sds_is s (take n b) 0"
proof -
  have "map junk [0..<n + 1] = map junk [0..<n] @ [junk n]" by simp
  then have "memwrite (map junk [0..<n + 1]) 0 (take n b) = Some (take n b @ [junk n])"
    using memwrite_at [of "[]" 0 "map junk [0..<n]" "take n b" "[junk n]"] assms by simp
  then have "sdsnewlen junk (Some b) n = Some \<lparr>sds_len = of_nat n, sds_free = 0, sds_buf = take n b @ [0]\<rparr>"
    using assms wr_at [of "take n b" n "junk n" "[]" 0] by (simp add: sdsnewlen_def memread_ok del: upt_Suc)
  then show ?thesis using assms by (simp add: sds_is_buf)
qed

lemma sdsnewlen_zero:
  assumes "n < 2 ^ 32"
  shows "\<exists>s. sdsnewlen junk None n = Some s \<and> sds_is s (replicate n 0) 0"
proof -
  have "replicate (Suc n) (0 :: byte) = replicate n 0 @ [0]" by (simp add: replicate_append_same)
  then have "sdsnewlen junk None n = Some \<lparr>sds_len = of_nat n, sds_free = 0, sds_buf = replicate n 0 @ [0]\<rparr>"
    by (simp add: sdsnewlen_def wr_at del: replicate_Suc)
  then show ?thesis using assms by (simp add: sds_is_buf)
qed

lemma sdsempty_is: "\<exists>s. sdsempty junk = Some s \<and> sds_is s [] 0"
  using sdsnewlen_is [of 0 "[0]" junk] by (simp add: sdsempty_def)

lemma sdsMakeRoomFor_ext:
  assumes "s = \<lparr>sds_len = of_nat n, sds_free = of_nat f, sds_buf = b\<rparr>" "length b = n + f + 1" "n + f < 2 ^ 32"
    "n + addlen + SDS_MAX_PREALLOC < 2 ^ 32"
  shows "\<exists>f' r. sdsMakeRoomFor junk s addlen = \<lparr>sds_len = of_nat n, sds_free = of_nat f', sds_buf = b @ r\<rparr> \<and>
     length (b @ r) = n + f' + 1 \<and> n + f' < 2 ^ 32 \<and> addlen \<le> f'"
proof -
  have u: "sdslen s = n" "sdsavail s = f"
    using assms(1,3) unat_of_nat_u32 [of n] unat_of_nat_u32 [of f] by (auto simp: sdslen_def sdsavail_def)
  show ?thesis
  proof (cases "addlen \<le> f")
    case True
    then show ?thesis using assms u by (intro exI [of _ f] exI [of _ "[]"]) (simp add: sdsMakeRoomFor_def)
  next
    case False
    define m where "m = (if n + addlen < SDS_MAX_PREALLOC then (n + addlen) * 2 else n + addlen + SDS_MAX_PREALLOC)"
    have m: "n + addlen \<le> m" "m < 2 ^ 32" using assms(4) by (auto simp: m_def)
    define r where "r = map junk [length b..<m + 1]"
    have "sdsMakeRoomFor junk s addlen = s\<lparr>sds_buf := zrealloc junk (sds_buf s) (m + 1), sds_free := of_nat (m - n)\<rparr>"
      using False u by (simp add: sdsMakeRoomFor_def Let_def m_def)
    moreover have "zrealloc junk b (m + 1) = b @ r" "length (b @ r) = m + 1"
      using False m assms(2) by (simp_all add: zrealloc_def r_def del: upt_Suc)
    ultimately show ?thesis using m False assms(1) by (intro exI [of _ "m - n"] exI [of _ r]) auto
  qed
qed

lemma sdsMakeRoomFor_is:
  assumes "sds_is s t f" "length t + addlen + SDS_MAX_PREALLOC < 2 ^ 32"
  shows "\<exists>f'\<ge>addlen. sds_is (sdsMakeRoomFor junk s addlen) t f'"
proof -
  obtain r where s: "s = \<lparr>sds_len = of_nat (length t), sds_free = of_nat f, sds_buf = t @ 0 # r\<rparr>"
    "length r = f" "length t + f < 2 ^ 32"
    using sds_is_cases [OF assms(1)] by blast
  obtain f' r' where "sdsMakeRoomFor junk s addlen =
      \<lparr>sds_len = of_nat (length t), sds_free = of_nat f', sds_buf = (t @ 0 # r) @ r'\<rparr>"
     "length ((t @ 0 # r) @ r') = length t + f' + 1" "length t + f' < 2 ^ 32" "addlen \<le> f'"
    using sdsMakeRoomFor_ext [OF s(1) _ s(3) assms(2), of junk] s(2)
    by (metis (no_types, lifting) add_Suc_right length_Cons length_append Suc_eq_plus1)
  then show ?thesis by (intro exI [of _ f']) (simp add: sds_is_buf)
qed

lemma sdscatlen_is:
  assumes "sds_is s t f" "len \<le> length u" "length t + len + SDS_MAX_PREALLOC < 2 ^ 32"
  shows "\<exists>s' f'. sdscatlen junk s u len = Some s' \<and> sds_is s' (t @ take len u) f'"
proof -
  define s1 where "s1 = sdsMakeRoomFor junk s len"
  obtain f1 where f1: "len \<le> f1" "sds_is s1 t f1"
    using sdsMakeRoomFor_is [OF assms(1,3), of junk] by (auto simp: s1_def)
  obtain r where r: "s1 = \<lparr>sds_len = of_nat (length t), sds_free = of_nat f1, sds_buf = t @ 0 # r\<rparr>" "length r = f1" "length t + f1 < 2 ^ 32"
    using sds_is_cases [OF f1(2)] by blast
  obtain a x b where ab: "0 # r = a @ x # b" "length a = len" "length b = f1 - len"
    using f1(1) r(2) split_at [of len "0 # r"] by auto
  have "memwrite (t @ a @ x # b) (length t) (take len u) = Some (t @ take len u @ x # b)"
    using ab(2) assms(2) by (intro memwrite_at) auto
  moreover have "wr (t @ take len u @ x # b) (length t + len) 0 = Some (t @ take len u @ 0 # b)"
    using wr_at [of "t @ take len u" "length t + len" x b 0] assms(2) by simp
  ultimately have "sdscatlen junk s u len = Some \<lparr>sds_len = of_nat (length t + len),
      sds_free = of_nat (f1 - len), sds_buf = (t @ take len u) @ 0 # b\<rparr>"
    using sds_isD(3) [OF assms(1)] assms(2) ab(1) f1(1)
    by (simp add: sdscatlen_def Let_def s1_def [symmetric] r(1) memread_ok of_nat_diff)
  then show ?thesis using ab(3) assms(2) r(3) f1(1)
    by (intro exI [of _ "\<lparr>sds_len = of_nat (length t + len), sds_free = of_nat (f1 - len), sds_buf = (t @ take len u) @ 0 # b\<rparr>"]
        exI [of _ "f1 - len"]) (simp add: sds_is_buf)
qed

lemma sdscat_is:
  assumes "sds_is s t f" "0 \<notin> set u" "length t + length u + SDS_MAX_PREALLOC < 2 ^ 32"
  shows "\<exists>s' f'. sdscat junk s (u @ 0 # r) = Some s' \<and> sds_is s' (t @ u) f'"
  using sdscatlen_is [OF assms(1), of "length u" "u @ 0 # r" junk] assms(2,3) strlen_terminated [OF assms(2)]
  by (simp add: sdscat_def)

lemma sdscpylen_is:
  assumes "sds_is s t f" "len \<le> length u" "len + SDS_MAX_PREALLOC < 2 ^ 32"
  shows "\<exists>s' f'. sdscpylen junk s u len = Some s' \<and> sds_is s' (take len u) f'"
proof -
  define s1 where "s1 = (if length t + f < len then sdsMakeRoomFor junk s (len - sdslen s) else s)"
  obtain f1 where f1: "len \<le> length t + f1" "sds_is s1 t f1"
  proof (cases "length t + f < len")
    case True
    have "length t + (len - length t) + SDS_MAX_PREALLOC < 2 ^ 32" using assms(3) True by simp
    from sdsMakeRoomFor_is [OF assms(1) this, of junk] obtain f' where
      "len - length t \<le> f'" "sds_is (sdsMakeRoomFor junk s (len - length t)) t f'" by blast
    with True sds_isD(3) [OF assms(1)] that [of f'] show ?thesis by (simp add: s1_def)
  next
    case False
    with assms(1) that [of f] show ?thesis by (simp add: s1_def)
  qed
  have tot: "unat (sds_free s' + sds_len s') = length t + g" if a: "sds_is s' t g" for s' g
  proof -
    have "unat (sds_free s') = g" "unat (sds_len s') = length t" "length t + g < 2 ^ 32"
      using sds_isD [OF a] by (auto simp: sdslen_def sdsavail_def sds_ok_def)
    then show ?thesis by (subst unat_add_lem [THEN iffD1]) auto
  qed
  obtain r where r: "s1 = \<lparr>sds_len = of_nat (length t), sds_free = of_nat f1, sds_buf = t @ 0 # r\<rparr>" "length r = f1" "length t + f1 < 2 ^ 32"
    using sds_is_cases [OF f1(2)] by blast
  obtain a x b where ab: "t @ 0 # r = a @ x # b" "length a = len" "length b = length t + f1 - len"
    using f1(1) r(2) split_at [of len "t @ 0 # r"] by auto
  have "memwrite (t @ 0 # r) 0 (take len u) = Some (take len u @ x # b)"
    using memwrite_at [of "[]" 0 a "take len u" "x # b"] ab(1,2) assms(2) by simp
  moreover have "wr (take len u @ x # b) len 0 = Some (take len u @ 0 # b)"
    using assms(2) by (intro wr_at) simp
  ultimately have "sdscpylen junk s u len = Some \<lparr>sds_len = of_nat len,
      sds_free = of_nat (length t + f1 - len), sds_buf = take len u @ 0 # b\<rparr>"
    using tot [OF assms(1)] tot [OF f1(2)] assms(2) f1(1)
    by (simp add: sdscpylen_def Let_def s1_def [symmetric] memread_ok) (simp add: r(1) of_nat_diff)
  then show ?thesis using ab(3) assms(2,3) r(3) f1(1)
    by (intro exI [of _ "\<lparr>sds_len = of_nat len, sds_free = of_nat (length t + f1 - len), sds_buf = take len u @ 0 # b\<rparr>"]
        exI [of _ "length t + f1 - len"]) (simp add: sds_is_buf)
qed

lemma sdsgrowzero_is:
  assumes "sds_is s t f" "len + SDS_MAX_PREALLOC < 2 ^ 32"
  shows "\<exists>s' f'. sdsgrowzero junk s len = Some s' \<and> sds_is s' (t @ replicate (len - length t) 0) f'"
proof (cases "len \<le> length t")
  case True
  then show ?thesis using assms(1) sds_isD(3) [OF assms(1)] by (auto simp: sdsgrowzero_def)
next
  case False
  define n where "n = len - length t"
  define s1 where "s1 = sdsMakeRoomFor junk s n"
  obtain f1 where f1: "n \<le> f1" "sds_is s1 t f1"
    using sdsMakeRoomFor_is [OF assms(1), of n junk] assms(2) False by (auto simp: s1_def n_def)
  obtain r where r: "s1 = \<lparr>sds_len = of_nat (length t), sds_free = of_nat f1, sds_buf = t @ 0 # r\<rparr>" "length r = f1" "length t + f1 < 2 ^ 32"
    using sds_is_cases [OF f1(2)] by blast
  obtain a x b where ab: "0 # r = a @ x # b" "length a = n" "length b = f1 - n"
    using f1(1) r(2) split_at [of n "0 # r"] by auto
  have fr: "of_nat (length t) + of_nat f1 - of_nat len = (of_nat (f1 - n) :: u32)"
    using f1(1) False by (simp add: of_nat_diff n_def)
  have "replicate (n + 1) 0 = replicate n 0 @ [0 :: byte]" by (simp add: replicate_append_same)
  then have "memwrite (t @ (a @ [x]) @ b) (length t) (replicate (n + 1) 0) = Some (t @ (replicate n 0 @ [0]) @ b)"
    using ab(2) by (subst memwrite_at) auto
  then have "sdsgrowzero junk s len = Some \<lparr>sds_len = of_nat len,
      sds_free = of_nat (f1 - n), sds_buf = (t @ replicate n 0) @ 0 # b\<rparr>"
    using False sds_isD(3) [OF assms(1)] ab(1) fr
    by (simp add: sdsgrowzero_def Let_def n_def [symmetric] s1_def [symmetric]) (simp add: r(1))
  moreover have "length t + n = len" using False by (simp add: n_def)
  ultimately show ?thesis using ab(3) r(3) f1(1) unfolding n_def [symmetric]
    by (intro exI [of _ "\<lparr>sds_len = of_nat len, sds_free = of_nat (f1 - n), sds_buf = (t @ replicate n 0) @ 0 # b\<rparr>"]
        exI [of _ "f1 - n"]) (simp add: sds_is_buf)
qed

subsection \<open>Numbers\<close>

lemma reverse_loop_rev:
  "reverse_loop (a @ m @ c) (length a) (length a + length m - 1) = Some (a @ rev m @ c)"
proof (induction "length m" arbitrary: a m c rule: less_induct)
  case less
  consider "m = []" | x where "m = [x]" | x m' y where "m = x # m' @ [y]"
    by (metis append_butlast_last_id list.exhaust)
  then show ?case
  proof cases
    case (3 x m' y)
    define b where "b = a @ m @ c"
    let ?p = "length a + length m - 1"
    have p: "?p = Suc (length a + length m')" using 3 by simp
    have r: "rd b (length a) = Some x" "rd b ?p = Some y"
      unfolding p by (simp_all add: b_def 3 rd_ok nth_append)
    have w1: "wr b (length a) y = Some (a @ y # m' @ y # c)"
      using wr_at [of a "length a" x "m' @ y # c" y] by (simp add: b_def 3)
    have w2: "wr (a @ y # m' @ y # c) ?p x = Some ((a @ [y]) @ m' @ x # c)"
      using wr_at [of "a @ y # m'" ?p y c x] p by simp
    have "reverse_loop b (length a) ?p = reverse_loop ((a @ [y]) @ m' @ x # c) (length a + 1) (?p - 1)"
      using r w1 w2 p by (subst reverse_loop.simps) simp
    also have "\<dots> = Some ((a @ [y]) @ rev m' @ x # c)"
      using less [of m' "a @ [y]" "x # c"] p 3 by simp
    finally show ?thesis by (simp add: b_def 3)
  qed (subst reverse_loop.simps, auto)+
qed

lemma ucast_of_nat_unat: "(ucast (w :: u64) :: byte) = of_nat (unat w)"
  by (simp add: word_unat_eq_iff unsigned_ucast_eq unsigned_of_nat)

lemma sdsull2str_digits_dec:
  assumes "length q = length (dec (unat v))"
  shows "sdsull2str_digits (a @ q @ c) (length a) v = Some (a @ rev (dec (unat v)) @ c, length a + length q)"
  using assms
proof (induction "unat v" arbitrary: a q v rule: less_induct)
  case less
  obtain x q' where q: "q = x # q'" using less.prems by (cases q) auto
  have d: "(48 + ucast (v mod 10) :: byte) = 48 + of_nat (unat v mod 10)"
    by (simp add: ucast_of_nat_unat unat_mod)
  show ?case
  proof (cases "unat v < 10")
    case True
    then have "v div 10 = 0" by (simp add: word_unat_eq_iff unat_div)
    moreover have "dec (unat v) = [48 + of_nat (unat v)]" using True by (rule dec_small)
    ultimately show ?thesis
      using less.prems q True d by (subst sdsull2str_digits.simps) (simp add: wr_at)
  next
    case False
    then have nz: "v div 10 \<noteq> 0" by (simp add: word_unat_eq_iff unat_div)
    have s: "dec (unat v) = dec (unat (v div 10)) @ [48 + of_nat (unat v mod 10)]"
      using dec_step [of "unat v"] False by (simp add: unat_div)
    have "length q' = length (dec (unat (v div 10)))" using less.prems q s by simp
    moreover have "unat (v div 10) < unat v" using False by (simp add: unat_div)
    ultimately have "sdsull2str_digits ((a @ [48 + of_nat (unat v mod 10)]) @ q' @ c) (length (a @ [48 + of_nat (unat v mod 10)])) (v div 10) =
       Some ((a @ [48 + of_nat (unat v mod 10)]) @ rev (dec (unat (v div 10))) @ c, length (a @ [48 + of_nat (unat v mod 10)]) + length q')"
      using less.hyps by blast
    then show ?thesis using nz d s q by (subst sdsull2str_digits.simps) (simp add: wr_at)
  qed
qed

lemma sdsull2str_dec:
  assumes "length (dec (unat v)) < length s"
  shows "sdsull2str s v = Some (dec (unat v) @ 0 # drop (length (dec (unat v)) + 1) s, length (dec (unat v)))"
proof -
  let ?n = "length (dec (unat v))"
  obtain q x c where s: "s = q @ x # c" "length q = ?n" using split_at [OF assms] by blast
  have "sdsull2str_digits s 0 v = Some (rev (dec (unat v)) @ x # c, ?n)"
    using sdsull2str_digits_dec [of q v "[]" "x # c"] s by simp
  moreover have "wr (rev (dec (unat v)) @ x # c) ?n 0 = Some (rev (dec (unat v)) @ 0 # c)" by (rule wr_at) simp
  moreover have "reverse_loop (rev (dec (unat v)) @ 0 # c) 0 (?n - 1) = Some (dec (unat v) @ 0 # c)"
    using reverse_loop_rev [of "[]" "rev (dec (unat v))" "0 # c"] by simp
  ultimately show ?thesis using s by (simp add: sdsull2str_def)
qed

lemma sdsll2str_sdec:
  assumes "length (sdec (sint v)) < length s"
  shows "sdsll2str s v = Some (sdec (sint v) @ 0 # drop (length (sdec (sint v)) + 1) s, length (sdec (sint v)))"
proof (cases "sint v < 0")
  case False
  then have u: "unat v = nat (sint v)" by (simp add: unat_of_sint_nonneg)
  then have "sdec (sint v) = dec (unat v)" using False by (simp add: sdec_def)
  with False sdsull2str_dec [of v s] assms show ?thesis by (simp add: sdsll2str_def sdsull2str_def)
next
  case True
  define d where "d = dec (unat (- v))"
  have "unat (- v) = nat (- sint v)" using True by (simp add: unat_uminus_of_sint_neg)
  then have sd: "sdec (sint v) = 45 # d" using True by (simp add: sdec_def d_def)
  then have "length d + 1 < length s" using assms by simp
  then obtain q x b where qb: "s = q @ x # b" "length q = length d" "length b = length s - length d - 1"
    using split_at [of "length d" s] by auto
  then have "b \<noteq> []" using \<open>length d + 1 < length s\<close> by auto
  with qb obtain y c where s: "s = q @ x # y # c" "length q = length d" by (cases b) auto
  have "sdsull2str_digits s 0 (- v) = Some (rev d @ x # y # c, length d)"
    using sdsull2str_digits_dec [of q "- v" "[]" "x # y # c"] s by (simp add: d_def)
  moreover have "wr (rev d @ x # y # c) (length d) 45 = Some (rev d @ 45 # y # c)" by (rule wr_at) simp
  moreover have "wr (rev d @ 45 # y # c) (length d + 1) 0 = Some (rev d @ 45 # 0 # c)"
    using wr_at [of "rev d @ [45]" "length d + 1" y c 0] by simp
  moreover have "reverse_loop (rev d @ 45 # 0 # c) 0 (length d) = Some (45 # d @ 0 # c)"
    using reverse_loop_rev [of "[]" "rev d @ [45]" "0 # c"] by simp
  ultimately show ?thesis using True s sd by (simp add: sdsll2str_def)
qed

lemma sdsfromlonglong_is: "\<exists>s. sdsfromlonglong junk v = Some s \<and> sds_is s (sdec (sint v)) 0"
proof -
  have l: "length (sdec (sint v)) \<le> 20" by (rule length_sdec)
  obtain r where "sdsll2str (map junk [0..<SDS_LLSTR_SIZE]) v = Some (sdec (sint v) @ 0 # r, length (sdec (sint v)))"
    using sdsll2str_sdec [of v "map junk [0..<SDS_LLSTR_SIZE]"] l by simp
  with sdsnewlen_is [of "length (sdec (sint v))" "sdec (sint v) @ 0 # r" junk] l show ?thesis
    by (simp add: sdsfromlonglong_def)
qed

subsection \<open>Formatting\<close>

text \<open>A string under construction: the bytes written so far, with no NUL yet.\<close>

definition sds_part :: "sds \<Rightarrow> byte list \<Rightarrow> nat \<Rightarrow> bool" where
  "sds_part s t f \<longleftrightarrow> length t + f < 2 ^ 32 \<and>
     (\<exists>r. s = \<lparr>sds_len = of_nat (length t), sds_free = of_nat f, sds_buf = t @ r\<rparr> \<and> length r = f + 1)"

lemma sds_part_avail: "sds_part s t f \<Longrightarrow> sdsavail s = f"
  using unat_of_nat_u32 [of f] by (auto simp: sds_part_def sdsavail_def)

lemma sds_is_part: "sds_is s t f \<Longrightarrow> sds_part s t f"
  by (erule sds_is_cases) (auto simp: sds_part_def)

lemma sds_part_room:
  assumes "sds_part s t f" "length t + addlen + SDS_MAX_PREALLOC < 2 ^ 32"
  shows "\<exists>f'\<ge>addlen. sds_part (sdsMakeRoomFor junk s addlen) t f'"
proof -
  obtain r where r: "s = \<lparr>sds_len = of_nat (length t), sds_free = of_nat f, sds_buf = t @ r\<rparr>" "length r = f + 1" "length t + f < 2 ^ 32"
    using assms(1) by (auto simp: sds_part_def)
  from sdsMakeRoomFor_ext [OF r(1) _ r(3) assms(2), of junk] r(2) show ?thesis by (auto simp: sds_part_def)
qed

lemma fmt_put_part:
  assumes "sds_part s t f" "l \<le> length u" "length t + l + SDS_MAX_PREALLOC < 2 ^ 32"
  shows "\<exists>s' f'. fmt_put junk s (length t) u l = Some s' \<and> sds_part s' (t @ take l u) f'"
proof -
  define s1 where "s1 = (if sdsavail s < l then sdsMakeRoomFor junk s l else s)"
  obtain f1 where f1: "l \<le> f1" "sds_part s1 t f1"
    using sds_part_room [OF assms(1,3), of junk] assms(1) sds_part_avail [OF assms(1)]
    by (cases "f < l") (auto simp: s1_def not_less)
  obtain r where r: "s1 = \<lparr>sds_len = of_nat (length t), sds_free = of_nat f1, sds_buf = t @ r\<rparr>" "length r = f1 + 1" "length t + f1 < 2 ^ 32"
    using f1(2) by (auto simp: sds_part_def)
  obtain a b where ab: "r = a @ b" "length a = l" using split_prefix [of l r] f1(1) r(2) by auto
  have "memwrite (t @ a @ b) (length t) (take l u) = Some (t @ take l u @ b)"
    using ab(2) assms(2) by (intro memwrite_at) auto
  then have "fmt_put junk s (length t) u l =
      Some \<lparr>sds_len = of_nat (length t) + of_nat l, sds_free = of_nat (f1 - l), sds_buf = (t @ take l u) @ b\<rparr>"
    using assms(2) f1(1) by (simp add: fmt_put_def Let_def s1_def [symmetric] memread_ok) (simp add: r(1) ab(1) of_nat_diff)
  moreover have "sds_part \<lparr>sds_len = of_nat (length t) + of_nat l, sds_free = of_nat (f1 - l), sds_buf = (t @ take l u) @ b\<rparr>
      (t @ take l u) (f1 - l)"
    unfolding sds_part_def using assms(2) ab r(2,3) f1(1) by auto
  ultimately show ?thesis by blast
qed

lemma fmt_char_part:
  assumes "sds_part s t f" "0 < f"
  shows "\<exists>s' f'. fmt_char s (length t) c = Some s' \<and> sds_part s' (t @ [c]) f'"
proof -
  obtain r where r: "s = \<lparr>sds_len = of_nat (length t), sds_free = of_nat f, sds_buf = t @ r\<rparr>" "length r = f + 1" "length t + f < 2 ^ 32"
    using assms(1) by (auto simp: sds_part_def)
  obtain x b where b: "r = x # b" using r(2) by (cases r) auto
  have "fmt_char s (length t) c = Some \<lparr>sds_len = of_nat (length t) + 1, sds_free = of_nat (f - 1), sds_buf = (t @ [c]) @ b\<rparr>"
    using assms(2) wr_at [of t "length t" x b c] by (simp add: fmt_char_def r(1) b of_nat_diff)
  moreover have "sds_part \<lparr>sds_len = of_nat (length t) + 1, sds_free = of_nat (f - 1), sds_buf = (t @ [c]) @ b\<rparr> (t @ [c]) (f - 1)"
    unfolding sds_part_def using r(2,3) assms(2) b by (auto simp: add.commute)
  ultimately show ?thesis by blast
qed

text \<open>What a format means: the text of each argument, and the whole output; \<open>None\<close> for a format and
  arguments that do not fit together.\<close>

definition fmt_text :: "byte \<Rightarrow> fmtarg \<Rightarrow> byte list option" where
  "fmt_text c a =
     (case a of
        FStr t \<Rightarrow> if c = ch CHR ''s'' \<and> 0 \<in> set t then Some (takeWhile (\<lambda>c. c \<noteq> 0) t) else None
      | FSds t \<Rightarrow> if c = ch CHR ''S'' \<and> sds_ok t then Some (sds_str t) else None
      | FInt n \<Rightarrow> if c = ch CHR ''i'' then Some (sdec (sint n)) else None
      | FLL n \<Rightarrow> if c = ch CHR ''I'' then Some (sdec (sint n)) else None
      | FUInt n \<Rightarrow> if c = ch CHR ''u'' then Some (dec (unat n)) else None
      | FULL n \<Rightarrow> if c = ch CHR ''U'' then Some (dec (unat n)) else None)"

fun fmt_out :: "byte list \<Rightarrow> fmtarg list \<Rightarrow> byte list option" where
  "fmt_out [] args = Some []"
| "fmt_out [c] args = (if c = ch CHR ''%'' then None else Some [c])"
| "fmt_out (c # c' # f) args =
     (if c = ch CHR ''%'' then
        if is_directive c' then
          (case args of
             [] \<Rightarrow> None
           | a # args' \<Rightarrow> do { t \<leftarrow> fmt_text c' a; r \<leftarrow> fmt_out f args'; Some (t @ r) })
        else do { r \<leftarrow> fmt_out f args; Some (c' # r) }
      else do { r \<leftarrow> fmt_out (c' # f) args; Some (c # r) })"

lemma sdsll2str_text:
  "\<exists>u l. sdsll2str (map junk [0..<SDS_LLSTR_SIZE]) v = Some (u, l) \<and> l \<le> length u \<and> take l u = sdec (sint v)"
  using sdsll2str_sdec [of v "map junk [0..<SDS_LLSTR_SIZE]"] length_sdec(1) [of v] by (simp del: upt_Suc)

lemma sdsull2str_text:
  "\<exists>u l. sdsull2str (map junk [0..<SDS_LLSTR_SIZE]) v = Some (u, l) \<and> l \<le> length u \<and> take l u = dec (unat v)"
  using sdsull2str_dec [of v "map junk [0..<SDS_LLSTR_SIZE]"] length_dec_u64 [of v] by (simp del: upt_Suc)

lemma fmt_arg_text:
  assumes "fmt_text c a = Some t"
  shows "\<exists>u l. fmt_arg junk c a = Some (u, l) \<and> l \<le> length u \<and> take l u = t"
proof (cases a)
  case (FStr u)
  then have "strlen u = Some (length t)" "t = takeWhile (\<lambda>c. c \<noteq> 0) u" "c = ch CHR ''s''"
    using assms by (auto simp: fmt_text_def strlen_def split: if_splits)
  then show ?thesis
    using FStr takeWhile_eq_take [of "\<lambda>c. c \<noteq> 0" u] length_takeWhile_le [of "\<lambda>c. c \<noteq> 0" u]
    by (simp add: fmt_arg_def)
next
  case (FSds s)
  then show ?thesis using assms by (auto simp: fmt_text_def fmt_arg_def sds_str_def sds_ok_def split: if_splits)
next
  case (FInt n)
  have "sint (scast n :: u64) = sint n" 
    by (rule sint_up_scast) (simp add: is_up)
  then show ?thesis using FInt assms sdsll2str_text [of junk "scast n"] by (simp add: fmt_text_def fmt_arg_def split: if_splits)
next
  case (FLL n)
  then show ?thesis using assms sdsll2str_text [of junk n] by (simp add: fmt_text_def fmt_arg_def split: if_splits)
next
  case (FUInt n)
  have "unat (ucast n :: u64) = unat n" 
    using unsigned_less [of n, where ?'a = nat] by (simp add: unsigned_ucast_eq take_bit_nat_eq_self)
  then show ?thesis using FUInt assms sdsull2str_text [of junk "ucast n"] by (simp add: fmt_text_def fmt_arg_def split: if_splits)
next
  case (FULL n)
  then show ?thesis using assms sdsull2str_text [of junk n] by (simp add: fmt_text_def fmt_arg_def split: if_splits)
qed

lemma fmt_room_part:
  assumes "sds_part s t f" "length t + 1 + SDS_MAX_PREALLOC < 2 ^ 32"
  shows "\<exists>f'>0. sds_part (if sdsavail s = 0 then sdsMakeRoomFor junk s 1 else s) t f'"
  using sds_part_room [OF assms, of junk] assms(1) sds_part_avail [OF assms(1)] 
  by (cases "f = 0") (auto simp: Suc_le_eq)

lemma sdscatfmt_loop_part:
  assumes "fmt_out fmt args = Some u" "0 \<notin> set fmt" "sds_part s t f" "length t + length u + 1 + SDS_MAX_PREALLOC < 2 ^ 32"
  shows "\<exists>s' f'. sdscatfmt_loop junk s (length t) (fmt @ 0 # z) args = Some (s', length (t @ u)) \<and> sds_part s' (t @ u) f'"
  using assms
proof (induction fmt args arbitrary: u s t f rule: fmt_out.induct)
  case (1 args)
  then show ?case by auto
next
  case (2 c args)
  obtain f1 where f1: "f1 > 0" "sds_part (if sdsavail s = 0 then sdsMakeRoomFor junk s 1 else s) t f1"
    using fmt_room_part [OF 2(3), of junk] 2(4) by auto
  then show ?case using 2(1,2) fmt_char_part [OF f1(2,1), of c] by (auto simp: Let_def split: if_splits)
next
  case (3 c c' g args)
  define s1 where "s1 = (if sdsavail s = 0 then sdsMakeRoomFor junk s 1 else s)"
  obtain f1 where f1: "f1 > 0" "sds_part s1 t f1"
    using fmt_room_part [OF "3.prems"(3), of junk] "3.prems"(4) by (auto simp: s1_def)
  consider (arg) a args' v r where "c = ch CHR ''%''" "is_directive c'" "args = a # args'" "fmt_text c' a = Some v"
      "fmt_out g args' = Some r" "u = v @ r"
    | (lit) r where "c = ch CHR ''%''" "\<not> is_directive c'" "fmt_out g args = Some r" "u = c' # r"
    | (char) r where "c \<noteq> ch CHR ''%''" "fmt_out (c' # g) args = Some r" "u = c # r"
    using "3.prems"(1) by (auto split: if_splits list.splits bind_splits)
  then show ?case
  proof cases
    case arg
    obtain w l where w: "fmt_arg junk c' a = Some (w, l)" "l \<le> length w" "take l w = v"
      using fmt_arg_text [OF arg(4)] by blast
    then have l: "l = length v" by auto
    obtain s2 f2 where s2: "fmt_put junk s1 (length t) w l = Some s2" "sds_part s2 (t @ v) f2"
      using fmt_put_part [OF f1(2) w(2), of junk] "3.prems"(4) arg(6) w(3) l by auto
    show ?thesis
      using "3.IH"(1) [OF arg(1,2,3,4,5) _ s2(2)] "3.prems"(2,4) arg w(1) s2(1) l
      by (simp add: Let_def s1_def [symmetric])
  next
    case lit
    obtain s2 f2 where s2: "fmt_char s1 (length t) c' = Some s2" "sds_part s2 (t @ [c']) f2"
      using fmt_char_part [OF f1(2,1)] by blast
    show ?thesis
      using "3.IH"(2) [OF lit(1,2) lit(3) _ s2(2)] "3.prems"(2,4) lit s2(1) by (simp add: Let_def s1_def [symmetric])
  next
    case char
    obtain s2 f2 where s2: "fmt_char s1 (length t) c = Some s2" "sds_part s2 (t @ [c]) f2"
      using fmt_char_part [OF f1(2,1)] by blast
    show ?thesis
      using "3.IH"(3) [OF char(1) char(2) _ s2(2)] "3.prems"(2,4) char s2(1) by (simp add: Let_def s1_def [symmetric])
  qed
qed

lemma sdscatfmt_is:
  assumes "sds_is s t f" "fmt_out fmt args = Some u" "0 \<notin> set fmt" "length t + length u + 1 + SDS_MAX_PREALLOC < 2 ^ 32"
  shows "\<exists>s' f'. sdscatfmt junk s (fmt @ 0 # z) args = Some s' \<and> sds_is s' (t @ u) f'"
proof -
  have l: "sdslen s = length t" using assms(1) by (rule sds_isD)
  obtain s1 f1 where s1: "sdscatfmt_loop junk s (length t) (fmt @ 0 # z) args = Some (s1, length (t @ u))" "sds_part s1 (t @ u) f1"
    using sdscatfmt_loop_part [OF assms(2,3) sds_is_part [OF assms(1)] assms(4)] by blast
  obtain r where r: "s1 = \<lparr>sds_len = of_nat (length (t @ u)), sds_free = of_nat f1, sds_buf = (t @ u) @ r\<rparr>" "length r = f1 + 1"
      "length (t @ u) + f1 < 2 ^ 32"
    using s1(2) unfolding sds_part_def by blast
  obtain x b where b: "r = x # b" using r(2) by (cases r) auto
  have "sdscatfmt junk s (fmt @ 0 # z) args = Some (s1\<lparr>sds_buf := (t @ u) @ 0 # b\<rparr>)"
    using wr_at [of "t @ u" "length (t @ u)" x b 0] by (simp add: sdscatfmt_def l s1(1) r(1) b)
  moreover have "sds_is (s1\<lparr>sds_buf := (t @ u) @ 0 # b\<rparr>) (t @ u) f1"
    using r b by (simp add: sds_is_buf)
  ultimately show ?thesis by blast
qed

end
