(* ===== verification/Sds_Split.thy ===== *)
theory Sds_Split
  imports Sds "HOL-Library.Sublist"
begin

text \<open>
  The operations of \<open>src/redis-2.8.24/src/sds.c\<close> that take strings apart and put them together:
  trimming, ranges, case, comparison, splitting and joining, the quoted representation of
  \<open>sdscatrepr\<close> and the command-line parser \<open>sdssplitargs\<close> that reads it back.
\<close>

section \<open>Parts of strings\<close>

text \<open>The two loops of \<open>sdstrim\<close>; \<open>sp\<close> and \<open>ep\<close> are offsets from \<open>start\<close>, and \<open>end\<close> is one before
  the string when it is empty.\<close>

function trim_left :: "byte list \<Rightarrow> byte list \<Rightarrow> int \<Rightarrow> int \<Rightarrow> int option" where
  "trim_left b cset en sp =
     (if sp \<le> en then
        (case rd b (nat sp) of
           None \<Rightarrow> None
         | Some c \<Rightarrow> if strchr cset c then trim_left b cset en (sp + 1) else Some sp)
      else Some sp)"
  by pat_completeness auto
termination
  by (relation "measure (\<lambda>(b, cset, en, sp). nat (en - sp + 1))") auto

declare trim_left.simps [simp del]

function trim_right :: "byte list \<Rightarrow> byte list \<Rightarrow> int \<Rightarrow> int option" where
  "trim_right b cset ep =
     (if ep > 0 then
        (case rd b (nat ep) of
           None \<Rightarrow> None
         | Some c \<Rightarrow> if strchr cset c then trim_right b cset (ep - 1) else Some ep)
      else Some ep)"
  by pat_completeness auto
termination
  by (relation "measure (\<lambda>(b, cset, ep). nat ep)") auto

declare trim_right.simps [simp del]

definition sdstrim :: "sds \<Rightarrow> byte list \<Rightarrow> sds option" where
  "sdstrim s cset = do {
     let en = int (sdslen s) - 1;
     sp \<leftarrow> trim_left (sds_buf s) cset en 0;
     ep \<leftarrow> trim_right (sds_buf s) cset en;
     let len = (if sp > ep then 0 else nat (ep - sp + 1));
     buf \<leftarrow> (if sp \<noteq> 0 then memmove (sds_buf s) 0 (nat sp) len else Some (sds_buf s));
     buf \<leftarrow> wr buf len 0;
     Some \<lparr>sds_len = of_nat len, sds_free = sds_free s + (sds_len s - of_nat len), sds_buf = buf\<rparr>
   }"

text \<open>\<open>start\<close> and \<open>end\<close> are \<open>int\<close>; the sums wrap as 32-bit words.\<close>

definition sdsrange :: "sds \<Rightarrow> u32 \<Rightarrow> u32 \<Rightarrow> sds option" where
  "sdsrange s start en =
     (if sdslen s = 0 then Some s
      else do {
        let len = sds_len s;
        let start = (if sint start < 0 then (if sint (len + start) < 0 then 0 else len + start) else start);
        let en = (if sint en < 0 then (if sint (len + en) < 0 then 0 else len + en) else en);
        let newlen = (if sint start > sint en then 0 else en - start + 1);
        let (start, newlen) =
          (if newlen \<noteq> 0 then
             if sint start \<ge> sint len then (start, 0)
             else if sint en \<ge> sint len then
               (let en = len - 1 in (start, if sint start > sint en then 0 else en - start + 1))
             else (start, newlen)
           else (0, newlen));
        buf \<leftarrow> (if start \<noteq> 0 \<and> newlen \<noteq> 0 then memmove (sds_buf s) 0 (unat start) (unat newlen) else Some (sds_buf s));
        buf \<leftarrow> wr buf (unat newlen) 0;
        Some \<lparr>sds_len = newlen, sds_free = sds_free s + (sds_len s - newlen), sds_buf = buf\<rparr>
      })"

definition map_bytes :: "(byte \<Rightarrow> byte) \<Rightarrow> sds \<Rightarrow> sds option" where
  "map_bytes g s = do {
     t \<leftarrow> memread (sds_buf s) 0 (sdslen s);
     buf \<leftarrow> memwrite (sds_buf s) 0 (map g t);
     Some (s\<lparr>sds_buf := buf\<rparr>)
   }"

definition sdstolower :: "sds \<Rightarrow> sds option" where
  "sdstolower s = map_bytes tolower s"

definition sdstoupper :: "sds \<Rightarrow> sds option" where
  "sdstoupper s = map_bytes toupper s"

definition sdscmp :: "sds \<Rightarrow> sds \<Rightarrow> int option" where
  "sdscmp s1 s2 = do {
     let l1 = sdslen s1;
     let l2 = sdslen s2;
     let minlen = (if l1 < l2 then l1 else l2);
     a \<leftarrow> memread (sds_buf s1) 0 minlen;
     b \<leftarrow> memread (sds_buf s2) 0 minlen;
     let cmp = memcmp a b;
     if cmp = 0 then Some (sint (of_nat l1 - of_nat l2 :: u32)) else Some cmp
   }"

fun map_char :: "byte list \<Rightarrow> byte list \<Rightarrow> byte \<Rightarrow> byte" where
  "map_char (f # from) (t # to) c = (if c = f then t else map_char from to c)"
| "map_char _ _ c = c"

definition sdsmapchars :: "sds \<Rightarrow> byte list \<Rightarrow> byte list \<Rightarrow> nat \<Rightarrow> sds option" where
  "sdsmapchars s from to setlen = do {
     from \<leftarrow> memread from 0 setlen;
     to \<leftarrow> memread to 0 setlen;
     map_bytes (map_char from to) s
   }"

section \<open>Splitting and joining\<close>

text \<open>The loop of \<open>sdssplitlen\<close>: \<open>slots\<close> is the capacity of the array of tokens, which bounds the
  writes to it, and the length of \<open>tokens\<close> is \<open>elements\<close>.\<close>

function sdssplit_loop :: "(nat \<Rightarrow> byte) \<Rightarrow> byte list \<Rightarrow> nat \<Rightarrow> byte list \<Rightarrow> nat \<Rightarrow> nat \<Rightarrow> nat \<Rightarrow> nat \<Rightarrow> sds list \<Rightarrow>
    (sds list \<times> nat \<times> nat) option" where
  "sdssplit_loop junk s len sep seplen start j slots tokens =
     (if seplen < 1 then None
      else if int j < int len - (int seplen - 1) then
        let slots = (if slots < length tokens + 2 then slots * 2 else slots)
        in do {
          c \<leftarrow> rd s j;
          c0 \<leftarrow> rd sep 0;
          a \<leftarrow> memread s j seplen;
          b \<leftarrow> memread sep 0 seplen;
          if seplen = 1 \<and> c = c0 \<or> memcmp a b = 0 then do {
            t \<leftarrow> sdsnewlen junk (Some (drop start s)) (j - start);
            if length tokens < slots
            then sdssplit_loop junk s len sep seplen (j + seplen) (j + seplen) slots (tokens @ [t])
            else None
          } else sdssplit_loop junk s len sep seplen start (j + 1) slots tokens
        }
      else Some (tokens, start, slots))"
  by pat_completeness auto
termination
  by (relation "measure (\<lambda>(junk, s, len, sep, seplen, start, j, slots, tokens). len - j)") auto

declare sdssplit_loop.simps [simp del]

text \<open>\<open>Some None\<close> is the result \<open>NULL\<close>.\<close>

definition sdssplitlen :: "(nat \<Rightarrow> byte) \<Rightarrow> byte list \<Rightarrow> int \<Rightarrow> byte list \<Rightarrow> int \<Rightarrow> sds list option option" where
  "sdssplitlen junk s len sep seplen =
     (if seplen < 1 \<or> len < 0 then Some None
      else if len = 0 then Some (Some [])
      else do {
        (tokens, start, slots) \<leftarrow> sdssplit_loop junk s (nat len) sep (nat seplen) 0 0 5 [];
        t \<leftarrow> sdsnewlen junk (Some (drop start s)) (nat len - start);
        if length tokens < slots then Some (Some (tokens @ [t])) else None
      })"

fun sdsjoin_loop :: "(nat \<Rightarrow> byte) \<Rightarrow> sds \<Rightarrow> byte list list \<Rightarrow> byte list \<Rightarrow> sds option" where
  "sdsjoin_loop junk join [] sep = Some join"
| "sdsjoin_loop junk join (a # argv) sep = do {
     join \<leftarrow> sdscat junk join a;
     join \<leftarrow> (if argv \<noteq> [] then sdscat junk join sep else Some join);
     sdsjoin_loop junk join argv sep
   }"

definition sdsjoin :: "(nat \<Rightarrow> byte) \<Rightarrow> byte list list \<Rightarrow> byte list \<Rightarrow> sds option" where
  "sdsjoin junk argv sep = do {
     join \<leftarrow> sdsempty junk;
     sdsjoin_loop junk join argv sep
   }"

section \<open>Quoted representations\<close>

text \<open>The two digits of \<open>%02x\<close>.\<close>

definition hexdigit :: "byte \<Rightarrow> byte" where
  "hexdigit n = (if n < 10 then ch CHR ''0'' + n else ch CHR ''a'' + (n - 10))"

definition hexpair :: "byte \<Rightarrow> byte list" where
  "hexpair c = [hexdigit (c div 16), hexdigit (c mod 16)]"

text \<open>One byte of \<open>sdscatrepr\<close>; the calls of \<open>sdscatprintf\<close> append the formatted text with \<open>sdscat\<close>.\<close>

definition catrepr_byte :: "(nat \<Rightarrow> byte) \<Rightarrow> sds \<Rightarrow> byte \<Rightarrow> sds option" where
  "catrepr_byte junk s c =
     (if c = ch CHR 0x5C \<or> c = ch CHR 0x22 then sdscat junk s [ch CHR 0x5C, c, 0]
      else if c = 10 then sdscatlen junk s [ch CHR 0x5C, ch CHR ''n''] 2
      else if c = 13 then sdscatlen junk s [ch CHR 0x5C, ch CHR ''r''] 2
      else if c = 9 then sdscatlen junk s [ch CHR 0x5C, ch CHR ''t''] 2
      else if c = 7 then sdscatlen junk s [ch CHR 0x5C, ch CHR ''a''] 2
      else if c = 8 then sdscatlen junk s [ch CHR 0x5C, ch CHR ''b''] 2
      else if isprint c then sdscat junk s [c, 0]
      else sdscat junk s ([ch CHR 0x5C, ch CHR ''x''] @ hexpair c @ [0]))"

fun catrepr_loop :: "(nat \<Rightarrow> byte) \<Rightarrow> sds \<Rightarrow> byte list \<Rightarrow> sds option" where
  "catrepr_loop junk s [] = Some s"
| "catrepr_loop junk s (c # p) = do { s \<leftarrow> catrepr_byte junk s c; catrepr_loop junk s p }"

definition sdscatrepr :: "(nat \<Rightarrow> byte) \<Rightarrow> sds \<Rightarrow> byte list \<Rightarrow> nat \<Rightarrow> sds option" where
  "sdscatrepr junk s p len = do {
     s \<leftarrow> sdscatlen junk s [ch CHR 0x22] 1;
     p \<leftarrow> memread p 0 len;
     s \<leftarrow> catrepr_loop junk s p;
     sdscatlen junk s [ch CHR 0x22] 1
   }"

definition is_hex_digit :: "byte \<Rightarrow> bool" where
  "is_hex_digit c \<longleftrightarrow>
     ch CHR ''0'' \<le> c \<and> c \<le> ch CHR ''9'' \<or> ch CHR ''a'' \<le> c \<and> c \<le> ch CHR ''f'' \<or> ch CHR ''A'' \<le> c \<and> c \<le> ch CHR ''F''"

definition hex_digit_to_int :: "byte \<Rightarrow> byte" where
  "hex_digit_to_int c =
     (if ch CHR ''0'' \<le> c \<and> c \<le> ch CHR ''9'' then c - ch CHR ''0''
      else if ch CHR ''a'' \<le> c \<and> c \<le> ch CHR ''f'' then c - ch CHR ''a'' + 10
      else if ch CHR ''A'' \<le> c \<and> c \<le> ch CHR ''F'' then c - ch CHR ''A'' + 10
      else 0)"

section \<open>Splitting a command line\<close>

text \<open>The pointer \<open>p\<close> of \<open>sdssplitargs\<close> is what is left of the line from it, with the NUL; a step of
  the token loop leaves it at the last byte the step used. \<open>ArgErr\<close> is the jump to \<open>err\<close>.\<close>

datatype argstep = ArgErr | Arg "byte list" sds bool bool bool

definition at_hex :: "byte list \<Rightarrow> bool option" where
  "at_hex p = do {
     c \<leftarrow> rd p 0;
     if c \<noteq> ch CHR 0x5C then Some False
     else do {
       c \<leftarrow> rd p 1;
       if c \<noteq> ch CHR ''x'' then Some False
       else do {
         c \<leftarrow> rd p 2;
         if \<not> is_hex_digit c then Some False
         else do { c \<leftarrow> rd p 3; Some (is_hex_digit c) }
       }
     }
   }"

definition at_escape :: "byte list \<Rightarrow> bool option" where
  "at_escape p = do {
     c \<leftarrow> rd p 0;
     if c \<noteq> ch CHR 0x5C then Some False else do { c \<leftarrow> rd p 1; Some (c \<noteq> 0) }
   }"

definition unescape :: "byte \<Rightarrow> byte" where
  "unescape c =
     (if c = ch CHR ''n'' then 10
      else if c = ch CHR ''r'' then 13
      else if c = ch CHR ''t'' then 9
      else if c = ch CHR ''b'' then 8
      else if c = ch CHR ''a'' then 7
      else c)"

text \<open>A closing quote must be followed by a space or nothing at all.\<close>

definition close_quote :: "byte list \<Rightarrow> sds \<Rightarrow> bool \<Rightarrow> bool \<Rightarrow> argstep option" where
  "close_quote p current inq insq = do {
     c \<leftarrow> rd p 1;
     if c \<noteq> 0 \<and> \<not> isspace c then Some ArgErr else Some (Arg p current inq insq True)
   }"

definition inq_step :: "(nat \<Rightarrow> byte) \<Rightarrow> byte list \<Rightarrow> sds \<Rightarrow> argstep option" where
  "inq_step junk p current = do {
     hex \<leftarrow> at_hex p;
     if hex then do {
       c2 \<leftarrow> rd p 2;
       c3 \<leftarrow> rd p 3;
       current \<leftarrow> sdscatlen junk current [hex_digit_to_int c2 * 16 + hex_digit_to_int c3] 1;
       Some (Arg (drop 3 p) current True False False)
     } else do {
       esc \<leftarrow> at_escape p;
       c \<leftarrow> rd p 0;
       if esc then do {
         c \<leftarrow> rd p 1;
         current \<leftarrow> sdscatlen junk current [unescape c] 1;
         Some (Arg (drop 1 p) current True False False)
       } else if c = ch CHR 0x22 then close_quote p current True False
       else if c = 0 then Some ArgErr
       else do {
         current \<leftarrow> sdscatlen junk current p 1;
         Some (Arg p current True False False)
       }
     }
   }"

definition at_squote :: "byte list \<Rightarrow> bool option" where
  "at_squote p = do {
     c \<leftarrow> rd p 0;
     if c \<noteq> ch CHR 0x5C then Some False else do { c \<leftarrow> rd p 1; Some (c = ch CHR 0x27) }
   }"

definition insq_step :: "(nat \<Rightarrow> byte) \<Rightarrow> byte list \<Rightarrow> sds \<Rightarrow> argstep option" where
  "insq_step junk p current = do {
     esc \<leftarrow> at_squote p;
     c \<leftarrow> rd p 0;
     if esc then do {
       current \<leftarrow> sdscatlen junk current [ch CHR 0x27] 1;
       Some (Arg (drop 1 p) current False True False)
     } else if c = ch CHR 0x27 then close_quote p current False True
     else if c = 0 then Some ArgErr
     else do {
       current \<leftarrow> sdscatlen junk current p 1;
       Some (Arg p current False True False)
     }
   }"

definition plain_step :: "(nat \<Rightarrow> byte) \<Rightarrow> byte list \<Rightarrow> sds \<Rightarrow> argstep option" where
  "plain_step junk p current = do {
     c \<leftarrow> rd p 0;
     if c = 32 \<or> c = 10 \<or> c = 13 \<or> c = 9 \<or> c = 0 then Some (Arg p current False False True)
     else if c = ch CHR 0x22 then Some (Arg p current True False False)
     else if c = ch CHR 0x27 then Some (Arg p current False True False)
     else do {
       current \<leftarrow> sdscatlen junk current p 1;
       Some (Arg p current False False False)
     }
   }"

definition splitarg_step :: "(nat \<Rightarrow> byte) \<Rightarrow> byte list \<Rightarrow> sds \<Rightarrow> bool \<Rightarrow> bool \<Rightarrow> argstep option" where
  "splitarg_step junk p current inq insq =
     (if inq then inq_step junk p current
      else if insq then insq_step junk p current
      else plain_step junk p current)"

text \<open>A step that does not end the token leaves the pointer before a byte that is not NUL, so the
  increment after it makes progress.\<close>

lemma splitarg_step_progress:
  assumes "splitarg_step junk p current inq insq = Some (Arg p' current' inq' insq' dn)"
  shows "length p' \<le> length p" "\<not> dn \<Longrightarrow> rd p' 0 \<noteq> Some 0"
  using assms unfolding splitarg_step_def inq_step_def insq_step_def plain_step_def at_hex_def at_escape_def
    at_squote_def close_quote_def is_hex_digit_def
  by (auto split: if_splits bind_splits simp: rd_def)

function splitarg_loop :: "(nat \<Rightarrow> byte) \<Rightarrow> byte list \<Rightarrow> sds \<Rightarrow> bool \<Rightarrow> bool \<Rightarrow> (byte list \<times> sds) option option" where
  "splitarg_loop junk p current inq insq =
     (case splitarg_step junk p current inq insq of
        None \<Rightarrow> None
      | Some ArgErr \<Rightarrow> Some None
      | Some (Arg p' current' inq' insq' dn) \<Rightarrow>
          (case rd p' 0 of
             None \<Rightarrow> None
           | Some c \<Rightarrow>
               if dn then Some (Some (if c \<noteq> 0 then drop 1 p' else p', current'))
               else splitarg_loop junk (if c \<noteq> 0 then drop 1 p' else p') current' inq' insq'))"
  by pat_completeness auto
termination
proof (relation "measure (\<lambda>(junk, p, current, inq, insq). length p)")
  fix junk p current inq insq st p' current' inq' insq' dn c
  assume "splitarg_step junk p current inq insq = Some st" "st = Arg p' current' inq' insq' dn" "rd p' 0 = Some c" "\<not> dn"
  then have "c \<noteq> 0" "length p' \<le> length p" "0 < length p'"
    using splitarg_step_progress [of junk p current inq insq p' current' inq' insq' dn] by (auto simp: rd_def split: if_splits)
  then show "((junk, (if c \<noteq> 0 then drop 1 p' else p'), current', inq', insq'), junk, p, current, inq, insq)
      \<in> measure (\<lambda>(junk, p, current, inq, insq). length p)" by (cases p') auto
qed auto

declare splitarg_loop.simps [simp del]

fun skip_blanks :: "byte list \<Rightarrow> byte list option" where
  "skip_blanks [] = None"
| "skip_blanks (c # p) = (if c \<noteq> 0 \<and> isspace c then skip_blanks p else Some (c # p))"

lemma skip_blanks_head:
  assumes "skip_blanks p = Some p'"
  shows "length p' \<le> length p" "\<exists>c q. p' = c # q \<and> (c = 0 \<or> \<not> isspace c)"
  using assms by (induction p) (auto split: if_splits)

lemma splitarg_loop_length:
  "splitarg_loop junk p current inq insq = Some (Some (p', current')) \<Longrightarrow> length p' \<le> length p"
proof (induction junk p current inq insq rule: splitarg_loop.induct)
  case (1 junk p current inq insq)
  obtain p1 current1 inq1 insq1 dn c where s: "splitarg_step junk p current inq insq = Some (Arg p1 current1 inq1 insq1 dn)"
      "rd p1 0 = Some c"
      "if dn then p' = (if c \<noteq> 0 then drop 1 p1 else p1)
       else splitarg_loop junk (if c \<noteq> 0 then drop 1 p1 else p1) current1 inq1 insq1 = Some (Some (p', current'))"
    using "1.prems" by (subst (asm) splitarg_loop.simps) (auto split: option.splits argstep.splits if_splits)
  have "length p' \<le> length (if c \<noteq> 0 then drop 1 p1 else p1)"
    using s(3) "1.IH" [OF s(1) refl s(2)] by (cases dn) auto
  then show ?case using splitarg_step_progress(1) [OF s(1)] by (auto split: if_splits)
qed

lemma splitarg_loop_token:
  assumes "splitarg_loop junk (c # q) current False False = Some (Some (p', current'))" "c \<noteq> 0" "\<not> isspace c"
  shows "length p' < length (c # q)"
proof -
  have "c \<noteq> 32" "c \<noteq> 10" "c \<noteq> 13" "c \<noteq> 9" using assms(3) by (auto simp: isspace_def)
  then obtain current1 inq insq where "splitarg_loop junk q current1 inq insq = Some (Some (p', current'))"
    using assms(1,2) by (subst (asm) splitarg_loop.simps)
      (auto simp: splitarg_step_def plain_step_def rd_def split: if_splits option.splits bind_splits)
  then show ?thesis using splitarg_loop_length [of junk q current1 inq insq] by simp
qed

function splitargs_loop :: "(nat \<Rightarrow> byte) \<Rightarrow> byte list \<Rightarrow> sds list \<Rightarrow> sds list option option" where
  "splitargs_loop junk p vec =
     (case skip_blanks p of
        None \<Rightarrow> None
      | Some p \<Rightarrow>
          if rd p 0 = Some 0 then Some (Some vec)
          else
            (case sdsempty junk of
               None \<Rightarrow> None
             | Some current \<Rightarrow>
                 (case splitarg_loop junk p current False False of
                    None \<Rightarrow> None
                  | Some None \<Rightarrow> Some None
                  | Some (Some (p, current)) \<Rightarrow> splitargs_loop junk p (vec @ [current]))))"
  by pat_completeness auto
termination
proof (relation "measure (\<lambda>(junk, p, vec). length p)")
  fix junk p vec p1 current r x p2 current2
  assume a: "skip_blanks p = Some p1" "rd p1 0 \<noteq> Some 0" "splitarg_loop junk p1 current False False = Some r" "r = Some x"
    "(p2, current2) = x"
  obtain c q where c: "p1 = c # q" "c = 0 \<or> \<not> isspace c" "length p1 \<le> length p" using skip_blanks_head [OF a(1)] by auto
  then have "length p2 < length p1"
    using splitarg_loop_token [of junk c q current p2 current2] a by (auto simp: rd_def)
  then show "((junk, p2, vec @ [current2]), junk, p, vec) \<in> measure (\<lambda>(junk, p, vec). length p)" using c(3) by simp
qed auto

declare splitargs_loop.simps [simp del]

definition sdssplitargs :: "(nat \<Rightarrow> byte) \<Rightarrow> byte list \<Rightarrow> sds list option option" where
  "sdssplitargs junk line = splitargs_loop junk line []"

section \<open>Trimming and ranges\<close>

text \<open>Keeping the part \<open>m\<close> of a string, as \<open>sdstrim\<close> and \<open>sdsrange\<close> do.\<close>

lemma sds_keep:
  assumes "sds_is s (a @ m @ b) f" "\<not> mv \<Longrightarrow> a = [] \<or> m = []"
  shows "\<exists>buf buf'. (if mv then memmove (sds_buf s) 0 (length a) (length m) else Some (sds_buf s)) = Some buf \<and>
     wr buf (length m) 0 = Some buf' \<and>
     sds_is \<lparr>sds_len = of_nat (length m), sds_free = sds_free s + (sds_len s - of_nat (length m)), sds_buf = buf'\<rparr> m
       (f + length a + length b)"
proof -
  obtain r where s: "s = \<lparr>sds_len = of_nat (length (a @ m @ b)), sds_free = of_nat f, sds_buf = (a @ m @ b) @ 0 # r\<rparr>"
    "length r = f" "length (a @ m @ b) + f < 2 ^ 32"
    using sds_is_cases [OF assms(1)] by blast
  define buf where "buf = (if mv then m @ drop (length m) (sds_buf s) else sds_buf s)"
  have "(if mv then memmove (sds_buf s) 0 (length a) (length m) else Some (sds_buf s)) = Some buf"
    using s(1) by (simp add: buf_def memmove_def memread_ok memwrite_ok)
  moreover have buf: "take (length m) buf = m" "length buf = length (a @ m @ b) + f + 1"
    using assms(2) s by (auto simp: buf_def)
  then obtain x q where q: "buf = m @ x # q" "length q = f + length a + length b"
    using split_at [of "length m" buf] by (auto simp: append_eq_conv_conj)
  moreover have "wr buf (length m) 0 = Some (m @ 0 # q)" using wr_at [of m "length m" x q 0] q(1) by simp
  ultimately show ?thesis
    using s(1,3) by (intro exI [of _ buf] exI [of _ "m @ 0 # q"]) (simp add: sds_is_buf algebra_simps)
qed

lemma trim_left_eq:
  "sp \<le> length t \<Longrightarrow> trim_left (t @ r) cset (int (length t) - 1) (int sp) =
     Some (int (sp + length (takeWhile (strchr cset) (drop sp t))))"
proof (induction "length t - sp" arbitrary: sp)
  case 0
  then show ?case by (subst trim_left.simps) simp
next
  case (Suc n)
  then have "drop sp t = t ! sp # drop (sp + 1) t" by (simp add: Cons_nth_drop_Suc)
  then show ?case using Suc(1) [of "sp + 1"] Suc(2) by (subst trim_left.simps) (auto simp: rd_def nth_append add.commute)
qed

lemma trim_right_eq:
  "trim_right ((x # u) @ r) cset (int (length u)) = Some (int (length u) - int (length (takeWhile (strchr cset) (rev u))))"
proof (induction u arbitrary: r rule: rev_induct)
  case (snoc c u)
  have "rd ((x # u @ [c]) @ r) (nat (int (length (u @ [c])))) = Some c" by (simp add: rd_def nth_append del: of_nat_add of_nat_Suc)
  then show ?case using snoc.IH [of "c # r"] by (subst trim_right.simps) simp
qed (simp add: trim_right.simps)

definition trimmed :: "byte list \<Rightarrow> byte list \<Rightarrow> byte list" where
  "trimmed cset t = rev (dropWhile (strchr cset) (rev (dropWhile (strchr cset) t)))"

lemma trimmed_split:
  assumes "\<not> list_all P t"
  shows "\<exists>m b. t = takeWhile P t @ m @ b \<and> m \<noteq> [] \<and> rev b = takeWhile P (rev t) \<and>
    m = rev (dropWhile P (rev (dropWhile P t)))"
proof -
  define d where "d = dropWhile P t"
  have d: "t = takeWhile P t @ d" "d \<noteq> []" "\<not> P (hd d)" using assms by (auto simp: d_def list_all_iff dropWhile_eq_Nil_conv hd_dropWhile)
  have ex: "\<exists>x\<in>set (rev d). \<not> P x" using d by (intro bexI [of _ "hd d"]) auto
  have "takeWhile P (rev d @ rev (takeWhile P t)) = takeWhile P (rev d)"
    using ex by (auto simp: takeWhile_append1)
  then have "takeWhile P (rev t) = takeWhile P (rev d)" using d(1) by (metis rev_append)
  moreover have "d = rev (dropWhile P (rev d)) @ rev (takeWhile P (rev d))"
    by (metis rev_append rev_rev_ident takeWhile_dropWhile_id)
  moreover have "rev (dropWhile P (rev d)) \<noteq> []" using ex by (auto simp: dropWhile_eq_Nil_conv)
  ultimately show ?thesis using d(1)
    by (intro exI [of _ "rev (dropWhile P (rev d))"] exI [of _ "rev (takeWhile P (rev d))"]) (simp add: d_def)
qed

lemma trim_right_end:
  "\<exists>ep. trim_right (t @ r) cset (int (length t) - 1) = Some ep \<and>
     (if t = [] then ep = -1 else if list_all (strchr cset) t then ep = 0
      else ep = int (length t) - 1 - int (length (takeWhile (strchr cset) (rev t))))"
proof (cases t)
  case Nil
  then show ?thesis by (subst trim_right.simps) simp
next
  case (Cons x u)
  let ?P = "strchr cset"
  have tr: "trim_right (t @ r) cset (int (length t) - 1) = Some (int (length u) - int (length (takeWhile ?P (rev u))))"
    using trim_right_eq [of x u r cset] Cons by simp
  show ?thesis
  proof (cases "list_all ?P t")
    case True
    then have e: "takeWhile ?P (rev u) = rev u" using Cons by (auto simp: list_all_iff)
    show ?thesis unfolding tr e using Cons True by simp
  next
    case False
    then have "takeWhile ?P (rev t) = takeWhile ?P (rev u)"
    proof (cases "list_all ?P u")
      case True
      then have e: "takeWhile ?P (rev u) = rev u" by (simp add: takeWhile_eq_all_conv list_all_iff)
      show ?thesis unfolding e using Cons True False by (simp add: takeWhile_append list_all_iff)
    qed (use Cons in \<open>auto simp: takeWhile_append list_all_iff\<close>)
    then show ?thesis unfolding tr using Cons False by auto
  qed
qed

lemma sdstrim_is:
  assumes "sds_is s t f"
  shows "\<exists>s'. sdstrim s cset = Some s' \<and> sds_is s' (trimmed cset t) (f + (length t - length (trimmed cset t)))"
proof -
  let ?P = "strchr cset"
  obtain r where s: "s = \<lparr>sds_len = of_nat (length t), sds_free = of_nat f, sds_buf = t @ 0 # r\<rparr>"
    using sds_is_cases [OF assms] by blast
  have len: "sdslen s = length t" using assms by (rule sds_isD)
  have l: "trim_left (sds_buf s) cset (int (length t) - 1) 0 = Some (int (length (takeWhile ?P t)))"
    using trim_left_eq [of 0 t "0 # r" cset] s by simp
  obtain ep where ep: "trim_right (sds_buf s) cset (int (length t) - 1) = Some ep"
    "if t = [] then ep = -1 else if list_all ?P t then ep = 0
     else ep = int (length t) - 1 - int (length (takeWhile ?P (rev t)))"
    using trim_right_end [of t "0 # r" cset] s by auto
  obtain a m b where m: "t = a @ m @ b" "length a = length (takeWhile ?P t)" "m = trimmed cset t"
      "(if int (length a) > ep then 0 else nat (ep - int (length a) + 1)) = length m"
  proof (cases "list_all ?P t")
    case True
    then have "takeWhile ?P t = t" "trimmed cset t = []" 
      by (auto simp: list_all_iff trimmed_def dropWhile_eq_Nil_conv [THEN iffD2])
    then show ?thesis using that [of t "[]" "[]"] True ep(2) by (cases t) auto
  next
    case False
    obtain m b where "t = takeWhile ?P t @ m @ b" "m \<noteq> []" "rev b = takeWhile ?P (rev t)" "m = trimmed cset t"
      using trimmed_split [OF False] by (auto simp: trimmed_def)
    moreover from this have "int (length t) = int (length (takeWhile ?P t)) + int (length m) + int (length (takeWhile ?P (rev t)))"
      by (metis length_append length_rev of_nat_add add.assoc)
    ultimately show ?thesis using that [of "takeWhile ?P t" m b] ep(2) False by (cases m) (auto split: if_splits)
  qed
  have fr: "f + (length t - length m) = f + length a + length b" using m(1) by simp
  obtain buf buf' where buf: "(if int (length a) \<noteq> 0 then memmove (sds_buf s) 0 (length a) (length m) else Some (sds_buf s)) = Some buf"
     "wr buf (length m) 0 = Some buf'"
     "sds_is \<lparr>sds_len = of_nat (length m), sds_free = sds_free s + (sds_len s - of_nat (length m)), sds_buf = buf'\<rparr> m
       (f + length a + length b)"
    using sds_keep [OF assms [unfolded m(1)], of "int (length a) \<noteq> 0"] by auto
  have "sdstrim s cset = Some \<lparr>sds_len = of_nat (length m), sds_free = sds_free s + (sds_len s - of_nat (length m)), sds_buf = buf'\<rparr>"
    unfolding sdstrim_def len Let_def l ep(1) bind.simps m(2) [symmetric] m(4) nat_int buf(1,2) by simp
  then show ?thesis using buf(3) unfolding m(3) [symmetric] fr by blast
qed

text \<open>The offsets of \<open>sdsrange\<close>, counted from the end when negative.\<close>

definition range_pos :: "nat \<Rightarrow> int \<Rightarrow> int" where
  "range_pos n i = (if i < 0 then max 0 (int n + i) else i)"

definition range_of :: "byte list \<Rightarrow> int \<Rightarrow> int \<Rightarrow> byte list" where
  "range_of t i j =
     (let i = range_pos (length t) i; j = range_pos (length t) j
      in take (nat (j - i + 1)) (drop (nat i) t))"

lemma sint_add_u32:
  fixes a b :: u32
  assumes "- (2 ^ 31) \<le> sint a + sint b" "sint a + sint b < 2 ^ 31"
  shows "sint (a + b) = sint a + sint b"
  using sint_of_int_range [of "sint a + sint b", where ?'a = 32] assms by simp

lemma sint_diff_u32:
  fixes a b :: u32
  assumes "- (2 ^ 31) \<le> sint a - sint b" "sint a - sint b < 2 ^ 31"
  shows "sint (a - b) = sint a - sint b"
  using sint_of_int_range [of "sint a - sint b", where ?'a = 32] assms by simp

lemma unat_diff_Suc:
  fixes a b :: u32
  assumes "0 \<le> sint a" "sint a \<le> sint b"
  shows "unat (b - a + 1) = nat (sint b - sint a + 1)"
proof -
  have u: "unat a = nat (sint a)" "unat b = nat (sint b)" using assms by (simp_all add: unat_of_sint_nonneg)
  then have "a \<le> b" using assms by (simp add: word_le_nat_alt)
  then have "unat (b - a) = nat (sint b - sint a)" using u assms by (simp add: unat_sub nat_diff_distrib)
  moreover have "sint b < 2 ^ 31" using sint_lt [of b] by simp
  ultimately show ?thesis using assms by (simp add: unat_word_ariths(1))
qed

lemma sint_of_nat_u32: "n < 2 ^ 31 \<Longrightarrow> sint (of_nat n :: u32) = int n"
  using sint_of_int_range [of "int n", where ?'a = 32] by simp

lemma range_pos_word:
  fixes i len :: u32
  assumes "n < 2 ^ 31" "len = of_nat n"
  defines "w \<equiv> (if sint i < 0 then (if sint (len + i) < 0 then 0 else len + i) else i)"
  shows "sint w = range_pos n (sint i)" "0 \<le> sint w" "sint w < 2 ^ 31"
proof -
  have "sint i < 0 \<Longrightarrow> sint (len + i) = int n + sint i"
    using assms(1,2) sint_of_nat_u32 [of n] sint_ge [of i] by (subst sint_add_u32) auto
  then show "sint w = range_pos n (sint i)" by (simp add: w_def range_pos_def max_def)
  then show "0 \<le> sint w" by (simp add: range_pos_def)
  show "sint w < 2 ^ 31" using sint_lt [of w] by simp
qed

text \<open>What \<open>sdsrange\<close> keeps once the offsets are resolved.\<close>

lemma range_newlen:
  fixes start en len :: u32
  assumes "n < 2 ^ 31" "len = of_nat n" "0 < n" "0 \<le> sint start" "0 \<le> sint en"
  defines "newlen \<equiv> (if sint start > sint en then 0 else en - start + 1)"
  defines "r \<equiv> (if newlen \<noteq> 0 then
             if sint start \<ge> sint len then (start, 0)
             else if sint en \<ge> sint len then
               (start, if sint start > sint (len - 1) then 0 else len - 1 - start + 1)
             else (start, newlen)
           else (0, newlen))"
  shows "unat (snd r) = min (nat (sint en - sint start + 1)) (n - nat (sint start))"
    "snd r \<noteq> 0 \<Longrightarrow> fst r = start \<and> nat (sint start) < n"
proof -
  have len: "sint len = int n" "sint (len - 1) = int n - 1"
    using sint_of_nat_u32 [of n] assms(1-3) by (auto simp: sint_diff_u32)
  consider "sint start > sint en" | "sint start \<le> sint en" "sint start \<ge> int n"
    | "sint start \<le> sint en" "sint start < int n" "sint en \<ge> int n" | "sint start \<le> sint en" "sint en < int n"
    by linarith
  then have "unat (snd r) = min (nat (sint en - sint start + 1)) (n - nat (sint start)) \<and>
    (snd r \<noteq> 0 \<longrightarrow> fst r = start \<and> nat (sint start) < n)"
  proof cases
    case 1
    then show ?thesis by (simp add: r_def newlen_def)
  next
    case 2
    then have "newlen \<noteq> 0" using unat_diff_Suc [OF assms(4) 2(1)] by (auto simp: newlen_def)
    then show ?thesis using 2 by (simp add: r_def len)
  next
    case 3
    then have "newlen \<noteq> 0" using unat_diff_Suc [OF assms(4) 3(1)] by (auto simp: newlen_def)
    then have "r = (start, len - 1 - start + 1)" using 3 by (simp add: r_def len)
    then show ?thesis using 3 unat_diff_Suc [OF assms(4), of "len - 1"] assms(4) by (auto simp: len)
  next
    case 4
    then have n: "unat newlen = nat (sint en - sint start + 1)" using unat_diff_Suc [OF assms(4) 4(1)] by (simp add: newlen_def)
    then have "newlen \<noteq> 0" using 4 by auto
    then have "r = (start, newlen)" using 4 by (simp add: r_def len)
    then show ?thesis using 4 n assms(4) by auto
  qed
  then show "unat (snd r) = min (nat (sint en - sint start + 1)) (n - nat (sint start))"
    "snd r \<noteq> 0 \<Longrightarrow> fst r = start \<and> nat (sint start) < n" by blast+
qed

lemma sdsrange_is:
  assumes "sds_is s t f" "length t < 2 ^ 31"
  shows "\<exists>s' f'. sdsrange s start en = Some s' \<and> sds_is s' (range_of t (sint start) (sint en)) f'"
proof (cases "t = []")
  case True
  then show ?thesis using assms(1) sds_isD(3) [OF assms(1)] by (auto simp: sdsrange_def range_of_def)
next
  case False
  have len: "sdslen s = length t" "sds_len s = of_nat (length t)"
    using sds_isD(3) [OF assms(1)] sds_eta [of s] by (metis sds.select_convs(1))+
  define st where "st = (if sint start < 0 then (if sint (sds_len s + start) < 0 then 0 else sds_len s + start) else start)"
  define e where "e = (if sint en < 0 then (if sint (sds_len s + en) < 0 then 0 else sds_len s + en) else en)"
  have se: "sint st = range_pos (length t) (sint start)" "0 \<le> sint st" "sint e = range_pos (length t) (sint en)" "0 \<le> sint e"
    unfolding st_def e_def using range_pos_word [OF assms(2) len(2)] by blast+
  define newlen where "newlen = (if sint st > sint e then 0 else e - st + 1)"
  define r where "r = (if newlen \<noteq> 0 then
             if sint st \<ge> sint (sds_len s) then (st, 0)
             else if sint e \<ge> sint (sds_len s) then
               (st, if sint st > sint (sds_len s - 1) then 0 else sds_len s - 1 - st + 1)
             else (st, newlen)
           else (0, newlen))"
  have r: "unat (snd r) = min (nat (sint e - sint st + 1)) (length t - nat (sint st))"
    "snd r \<noteq> 0 \<Longrightarrow> fst r = st \<and> nat (sint st) < length t"
    using range_newlen [OF assms(2) len(2) _ se(2,4)] False unfolding r_def newlen_def by blast+
  define a where "a = (if snd r = 0 then [] else take (unat (fst r)) t)"
  define m where "m = range_of t (sint start) (sint en)"
  define b where "b = drop (length a + length m) t"
  have m: "length m = unat (snd r)" "m = take (unat (snd r)) (drop (nat (sint st)) t)"
    by (auto simp: m_def range_of_def Let_def se(1,3) [symmetric] r(1) min_def)
  have "t = a @ m @ b"
  proof (cases "snd r = 0")
    case True then show ?thesis using m by (simp add: a_def b_def)
  next
    case nz: False
    then have "unat (fst r) = nat (sint st)" using r(2) unat_of_sint_nonneg [OF se(2)] by simp
    then have a: "a = take (nat (sint st)) t" "length a = nat (sint st)" using nz r(2) by (auto simp: a_def)
    have "drop (length a) t = m @ b"
      unfolding a(2) b_def using m(1) m(2) append_take_drop_id [of "unat (snd r)" "drop (nat (sint st)) t"]
      by (simp add: add.commute)
    then show ?thesis using append_take_drop_id [of "length a" t] a by simp
  qed
  moreover have "unat (fst r) = length a" if "snd r \<noteq> 0"
    using that r(2) unat_of_sint_nonneg [OF se(2)] by (auto simp: a_def)
  ultimately have k: "\<exists>buf buf'. (if fst r \<noteq> 0 \<and> snd r \<noteq> 0 then memmove (sds_buf s) 0 (unat (fst r)) (unat (snd r)) else Some (sds_buf s)) = Some buf \<and>
     wr buf (unat (snd r)) 0 = Some buf' \<and>
     sds_is \<lparr>sds_len = snd r, sds_free = sds_free s + (sds_len s - snd r), sds_buf = buf'\<rparr> m (f + length a + length b)"
    using sds_keep [of s a m b f "fst r \<noteq> 0 \<and> snd r \<noteq> 0"] assms(1) m(1)
    by (cases "snd r = 0") auto
  have "sdsrange s start en = do {
      buf \<leftarrow> (if fst r \<noteq> 0 \<and> snd r \<noteq> 0 then memmove (sds_buf s) 0 (unat (fst r)) (unat (snd r)) else Some (sds_buf s));
      buf \<leftarrow> wr buf (unat (snd r)) 0;
      Some \<lparr>sds_len = snd r, sds_free = sds_free s + (sds_len s - snd r), sds_buf = buf\<rparr> }"
    by (simp only: sdsrange_def Let_def st_def [symmetric] e_def [symmetric] newlen_def [symmetric] r_def [symmetric]
        case_prod_beta len(1) length_0_conv False if_False)
  then show ?thesis using k by (auto simp: m_def)
qed

section \<open>Splitting and joining\<close>

fun intercalate :: "byte list \<Rightarrow> byte list list \<Rightarrow> byte list" where
  "intercalate sep [] = []"
| "intercalate sep [t] = t"
| "intercalate sep (t # t' # ts) = t @ sep @ intercalate sep (t' # ts)"

lemma intercalate_Cons: "ts \<noteq> [] \<Longrightarrow> intercalate sep (t # ts) = t @ sep @ intercalate sep ts"
  by (cases ts) auto

lemma set_intercalate: "t \<in> set ts \<Longrightarrow> set t \<subseteq> set (intercalate sep ts)"
  by (induction sep ts rule: intercalate.induct) auto

lemma sublist_at: "sublist sep t \<Longrightarrow> \<exists>p. p + length sep \<le> length t \<and> take (length sep) (drop p t) = sep"
proof -
  assume "sublist sep t"
  then obtain ps ss where "t = ps @ sep @ ss" by (auto simp: sublist_def)
  then show ?thesis by (intro exI [of _ "length ps"]) simp
qed

lemma no_sep:
  assumes "\<forall>p. start \<le> p \<and> p < j \<longrightarrow> take (length sep) (drop p s) \<noteq> sep" "sep \<noteq> []" "start + n \<le> j + (length sep - 1)"
  shows "\<not> sublist sep (take n (drop start s))"
proof
  assume "sublist sep (take n (drop start s))"
  then obtain p where p: "p + length sep \<le> length (take n (drop start s))" "take (length sep) (drop p (take n (drop start s))) = sep"
    using sublist_at by blast
  moreover have "take (length sep) (drop p (take n (drop start s))) = take (length sep) (drop (start + p) s)"
    using p(1) by (simp add: drop_take min_absorb1 add.commute le_diff_conv2)
  moreover have "start + p < j" using p(1) assms(2,3) by (cases sep) auto
  ultimately show False using assms(1) by auto
qed

lemma sdsnewlen_prefix:
  assumes "start \<le> j" "j \<le> length s" "length s < 2 ^ 32"
  shows "\<exists>t. sdsnewlen junk (Some (drop start (s @ z))) (j - start) = Some t \<and> sds_is t (take (j - start) (drop start s)) 0"
proof -
  have "j - start \<le> length (drop start (s @ z))" "take (j - start) (drop start (s @ z)) = take (j - start) (drop start s)"
    using assms by auto
  then show ?thesis using sdsnewlen_is [of "j - start" "drop start (s @ z)" junk] assms(2,3) by simp
qed

lemma sdssplit_loop_is:
  assumes "sep \<noteq> []" "length s < 2 ^ 32" "start \<le> j" "j \<le> length s" "length tokens < slots" "2 \<le> slots"
    "\<forall>p. start \<le> p \<and> p < j \<longrightarrow> take (length sep) (drop p s) \<noteq> sep"
  shows "\<exists>ts start' slots'.
    sdssplit_loop junk (s @ z) (length s) (sep @ y) (length sep) start j slots tokens = Some (tokens @ ts, start', slots') \<and>
    start' \<le> length s \<and> length (tokens @ ts) < slots' \<and>
    intercalate sep (map sds_str ts @ [drop start' s]) = drop start s \<and>
    (\<forall>t\<in>set ts. sds_is t (sds_str t) 0 \<and> \<not> sublist sep (sds_str t)) \<and> \<not> sublist sep (drop start' s)"
  using assms
proof (induction "length s - j" arbitrary: start j slots tokens rule: less_induct)
  case less
  note prems = less.prems
  show ?case
  proof (cases "j + length sep \<le> length s")
    case False
    then have "sdssplit_loop junk (s @ z) (length s) (sep @ y) (length sep) start j slots tokens = Some (tokens, start, slots)"
      using prems(1) by (subst sdssplit_loop.simps) (cases sep; auto)
    moreover have "\<not> sublist sep (take (length s - start) (drop start s))"
      using False prems by (intro no_sep [of _ j]) auto
    ultimately show ?thesis using prems by (intro exI [of _ "[]"] exI [of _ start] exI [of _ slots]) auto
  next
    case True
    define slots1 where "slots1 = (if slots < length tokens + 2 then slots * 2 else slots)"
    have slots1: "length tokens + 2 \<le> slots1" "2 \<le> slots1" using prems(5,6) by (auto simp: slots1_def)
    define m where "m \<longleftrightarrow> take (length sep) (drop j s) = sep"
    obtain x sep' where sep: "sep = x # sep'" using prems(1) by (cases sep) auto
    have j: "int j < int (length s) - (int (length sep) - 1)" "j < length s" using True sep by auto
    have rds: "rd (s @ z) j = Some (s ! j)" "rd (sep @ y) 0 = Some x"
        "memread (s @ z) j (length sep) = Some (take (length sep) (drop j s))" "memread (sep @ y) 0 (length sep) = Some sep"
      using True j(2) sep by (auto simp: rd_def memread_def nth_append)
    have m: "length sep = 1 \<and> s ! j = x \<or> memcmp (take (length sep) (drop j s)) sep = 0 \<longleftrightarrow> m"
      using memcmp_eq [of "take (length sep) (drop j s)" sep] True j(2) sep
      by (auto simp: m_def take_Suc_conv_app_nth Cons_nth_drop_Suc [symmetric])
    have unf: "sdssplit_loop junk (s @ z) (length s) (sep @ y) (length sep) start j slots tokens =
      (if m then do {
            t \<leftarrow> sdsnewlen junk (Some (drop start (s @ z))) (j - start);
            if length tokens < slots1
            then sdssplit_loop junk (s @ z) (length s) (sep @ y) (length sep) (j + length sep) (j + length sep) slots1 (tokens @ [t])
            else None
          } else sdssplit_loop junk (s @ z) (length s) (sep @ y) (length sep) start (j + 1) slots1 tokens)"
      using j(1) prems(1) by (subst sdssplit_loop.simps) (simp only: Let_def slots1_def [symmetric] rds bind.simps m if_True if_False
          less_one length_0_conv)
    show ?thesis
    proof (cases m)
      case m: True
      obtain t where t: "sdsnewlen junk (Some (drop start (s @ z))) (j - start) = Some t" "sds_is t (take (j - start) (drop start s)) 0"
        using sdsnewlen_prefix [of start j s junk z] prems(2,3,4) by auto
      obtain ts start' slots' where ih: "sdssplit_loop junk (s @ z) (length s) (sep @ y) (length sep) (j + length sep) (j + length sep) slots1 (tokens @ [t])
            = Some ((tokens @ [t]) @ ts, start', slots')"
         "start' \<le> length s" "length ((tokens @ [t]) @ ts) < slots'"
         "intercalate sep (map sds_str ts @ [drop start' s]) = drop (j + length sep) s"
         "\<forall>t\<in>set ts. sds_is t (sds_str t) 0 \<and> \<not> sublist sep (sds_str t)" "\<not> sublist sep (drop start' s)"
        using less.hyps [of "j + length sep" "j + length sep" "tokens @ [t]" slots1] prems(1,2) True slots1
          diff_less_mono2 [of j "j + length sep" "length s"] j(2) by auto
      have "drop start s = take (j - start) (drop start s) @ sep @ drop (j + length sep) s"
        using append_take_drop_id [of "j - start" "drop start s"] append_take_drop_id [of "length sep" "drop j s"] m prems(3)
        by (simp add: m_def add.commute)
      moreover have "\<not> sublist sep (take (j - start) (drop start s))" using prems(1,3,7) by (intro no_sep [of _ j]) auto
      ultimately show ?thesis
        using ih t m slots1 unf sds_isD(2) [OF t(2)]
        by (intro exI [of _ "t # ts"] exI [of _ start'] exI [of _ slots']) (simp add: intercalate_Cons)
    next
      case m: False
      then have "\<forall>p. start \<le> p \<and> p < j + 1 \<longrightarrow> take (length sep) (drop p s) \<noteq> sep"
        using prems(7) by (auto simp: m_def less_Suc_eq)
      then show ?thesis
        using less.hyps [of "j + 1" start tokens slots1] prems(1-4) j(2) slots1 m unf by auto
    qed
  qed
qed

lemma sdssplitlen_is:
  assumes "sep \<noteq> []" "s \<noteq> []" "length s < 2 ^ 32"
  shows "\<exists>ts. sdssplitlen junk (s @ z) (int (length s)) (sep @ y) (int (length sep)) = Some (Some ts) \<and>
    intercalate sep (map sds_str ts) = s \<and> (\<forall>t\<in>set ts. sds_is t (sds_str t) 0 \<and> \<not> sublist sep (sds_str t))"
proof -
  obtain ts start slots where ts: "sdssplit_loop junk (s @ z) (length s) (sep @ y) (length sep) 0 0 5 [] = Some (ts, start, slots)"
    "start \<le> length s" "length ts < slots" "intercalate sep (map sds_str ts @ [drop start s]) = s"
    "\<forall>t\<in>set ts. sds_is t (sds_str t) 0 \<and> \<not> sublist sep (sds_str t)" "\<not> sublist sep (drop start s)"
    using sdssplit_loop_is [of sep s 0 0 "[]" 5 junk z y] assms by auto
  obtain t where t: "sdsnewlen junk (Some (drop start (s @ z))) (length s - start) = Some t" "sds_is t (drop start s) 0"
    using sdsnewlen_prefix [of start "length s" s junk z] assms(3) ts(2) by auto
  have "\<not> int (length sep) < 1" using assms(1) by (cases sep) auto
  then have "sdssplitlen junk (s @ z) (int (length s)) (sep @ y) (int (length sep)) = Some (Some (ts @ [t]))"
    using assms(2) t(1) ts(1,3) by (simp add: sdssplitlen_def)
  then show ?thesis using ts t(2) sds_isD(2) [OF t(2)] by (intro exI [of _ "ts @ [t]"]) auto
qed

lemma sdsjoin_loop_is:
  assumes "sds_is s u f" "\<forall>a\<in>set argv. 0 \<notin> set a" "0 \<notin> set sep"
    "length u + length (intercalate sep argv) + SDS_MAX_PREALLOC < 2 ^ 32"
  shows "\<exists>s' f'. sdsjoin_loop junk s (map (\<lambda>a. a @ [0]) argv) (sep @ [0]) = Some s' \<and> sds_is s' (u @ intercalate sep argv) f'"
  using assms
proof (induction argv arbitrary: s u f)
  case (Cons a argv)
  obtain s1 f1 where s1: "sdscat junk s (a @ [0]) = Some s1" "sds_is s1 (u @ a) f1"
    using sdscat_is [OF Cons.prems(1), of a junk "[]"] Cons.prems by (cases argv) auto
  show ?case
  proof (cases "argv = []")
    case True then show ?thesis using s1 by auto
  next
    case False
    obtain s2 f2 where s2: "sdscat junk s1 (sep @ [0]) = Some s2" "sds_is s2 ((u @ a) @ sep) f2"
      using sdscat_is [OF s1(2), of sep junk "[]"] Cons.prems False by (auto simp: intercalate_Cons)
    then show ?thesis using Cons.IH [OF s2(2)] Cons.prems s1(1) False by (auto simp: intercalate_Cons)
  qed
qed auto

lemma sdsjoin_is:
  assumes "\<forall>a\<in>set argv. 0 \<notin> set a" "0 \<notin> set sep" "length (intercalate sep argv) + SDS_MAX_PREALLOC < 2 ^ 32"
  shows "\<exists>s f. sdsjoin junk (map (\<lambda>a. a @ [0]) argv) (sep @ [0]) = Some s \<and> sds_is s (intercalate sep argv) f"
proof -
  obtain s where s: "sdsempty junk = Some s" "sds_is s [] 0" using sdsempty_is by blast
  then show ?thesis using sdsjoin_loop_is [OF s(2) assms(1,2)] assms(3) by (auto simp: sdsjoin_def)
qed

section \<open>Quoting and parsing back\<close>

definition repr_byte :: "byte \<Rightarrow> byte list" where
  "repr_byte c =
     (if c = 92 \<or> c = 34 then [92, c]
      else if c = 10 then [92, 110]
      else if c = 13 then [92, 114]
      else if c = 9 then [92, 116]
      else if c = 7 then [92, 97]
      else if c = 8 then [92, 98]
      else if isprint c then [c]
      else [92, 120] @ hexpair c)"

definition repr_of :: "byte list \<Rightarrow> byte list" where
  "repr_of t = [34] @ concat (map repr_byte t) @ [34]"

lemma hexdigits: "list_all (\<lambda>n. is_hex_digit (hexdigit n) \<and> hex_digit_to_int (hexdigit n) = n \<and> hexdigit n \<noteq> 0) (map of_nat [0..<16])"
  by code_simp

lemma hexdigit_ok:
  assumes "n < 16"
  shows "is_hex_digit (hexdigit n)" "hex_digit_to_int (hexdigit n) = n" "hexdigit n \<noteq> 0"
proof -
  have "unat n < 16" using assms by (simp add: word_less_nat_alt)
  then have "n \<in> set (map of_nat [0..<16])" by (auto simp del: upt_Suc intro!: image_eqI [of _ _ "unat n"])
  then show "is_hex_digit (hexdigit n)" "hex_digit_to_int (hexdigit n) = n" "hexdigit n \<noteq> 0"
    using hexdigits unfolding list_all_iff by blast+
qed

lemma hexpair_ok: "c div 16 < (16 :: byte)" "c mod 16 < (16 :: byte)" "(c div 16) * 16 + c mod 16 = c"
proof -
  have "unat c < 256" using unsigned_less [of c, where ?'a = nat] by simp
  then show "c div 16 < (16 :: byte)" "c mod 16 < (16 :: byte)"
    by (simp_all add: word_less_nat_alt unat_div unat_mod less_mult_imp_div_less)
  show "(c div 16) * 16 + c mod 16 = c" by (simp add: div_mult_mod_eq)
qed

lemma isprint_nonzero: "isprint c \<Longrightarrow> c \<noteq> 0"
  by (auto simp: isprint_def)

lemma catrepr_byte_is:
  assumes "sds_is s t f" "length t + 4 + SDS_MAX_PREALLOC < 2 ^ 32"
  shows "\<exists>s' f'. catrepr_byte junk s c = Some s' \<and> sds_is s' (t @ repr_byte c) f'"
proof -
  have len: "\<exists>s' f'. sdscatlen junk s [a, b] 2 = Some s' \<and> sds_is s' (t @ [a, b]) f'" for a b
    using sdscatlen_is [OF assms(1), of 2 "[a, b]" junk] assms(2) by simp
  have cat: "\<exists>s' f'. sdscat junk s (u @ [0]) = Some s' \<and> sds_is s' (t @ u) f'" if "0 \<notin> set u" "length u \<le> 4" for u
    using sdscat_is [OF assms(1) that(1), of junk "[]"] assms(2) that(2) by simp
  have hex: "0 \<notin> set ([92, 120] @ hexpair c)"
    using hexdigit_ok(3) [OF hexpair_ok(1) [of c]] hexdigit_ok(3) [OF hexpair_ok(2) [of c]] by (auto simp: hexpair_def)
  have esc: "of_char CHR 0x5C = (92 :: byte)" "of_char CHR 0x22 = (34 :: byte)" by simp_all
  show ?thesis
    unfolding catrepr_byte_def repr_byte_def esc
    using len cat [of "[92, c]"] cat [of "[c]"] cat [OF hex]
    by (auto dest: isprint_nonzero simp: hexpair_def)
qed

lemma length_repr_byte: "length (repr_byte c) \<le> 4"
  by (simp add: repr_byte_def hexpair_def)

lemma catrepr_loop_is:
  assumes "sds_is s t f" "length t + 4 * length p + SDS_MAX_PREALLOC < 2 ^ 32"
  shows "\<exists>s' f'. catrepr_loop junk s p = Some s' \<and> sds_is s' (t @ concat (map repr_byte p)) f'"
  using assms
proof (induction p arbitrary: s t f)
  case (Cons c p)
  obtain s1 f1 where s1: "catrepr_byte junk s c = Some s1" "sds_is s1 (t @ repr_byte c) f1"
    using catrepr_byte_is [OF Cons.prems(1), of junk c] Cons.prems(2) by auto
  then show ?case using Cons.IH [OF s1(2)] Cons.prems(2) length_repr_byte [of c] by auto
qed auto

lemma length_repr: "length (concat (map repr_byte p)) \<le> 4 * length p"
  by (induction p) (use length_repr_byte add_mono in \<open>fastforce simp: add_mono\<close>)+

lemma sdscatrepr_is:
  assumes "sds_is s t f" "length t + 4 * length p + 2 + SDS_MAX_PREALLOC < 2 ^ 32"
  shows "\<exists>s' f'. sdscatrepr junk s (p @ z) (length p) = Some s' \<and> sds_is s' (t @ repr_of p) f'"
proof -
  obtain s1 f1 where s1: "sdscatlen junk s [34] 1 = Some s1" "sds_is s1 (t @ [34]) f1"
    using sdscatlen_is [OF assms(1), of 1 "[34]" junk] assms(2) by auto
  obtain s2 f2 where s2: "catrepr_loop junk s1 p = Some s2" "sds_is s2 (t @ [34] @ concat (map repr_byte p)) f2"
    using catrepr_loop_is [OF s1(2), of p junk] assms(2) by auto
  show ?thesis
    using sdscatlen_is [OF s2(2), of 1 "[34]" junk] s1(1) s2(1) assms(2) length_repr [of p]
    by (auto simp: sdscatrepr_def memread_def repr_of_def)
qed

text \<open>The escapes that \<open>sdscatrepr\<close> writes are those that the parser reads back.\<close>

lemma quote_chars: "of_char CHR 0x5C = (92 :: byte)" "of_char CHR 0x22 = (34 :: byte)" "of_char CHR 0x27 = (39 :: byte)"
  "of_char CHR ''x'' = (120 :: byte)" "of_char CHR ''n'' = (110 :: byte)" "of_char CHR ''r'' = (114 :: byte)"
  "of_char CHR ''t'' = (116 :: byte)" "of_char CHR ''b'' = (98 :: byte)" "of_char CHR ''a'' = (97 :: byte)"
  by simp_all

lemma rd_Cons: "rd (c # p) 0 = Some c" "rd (c # p) (Suc n) = rd p n" "rd (c # p) 1 = rd p 0" "rd (c # p) 2 = rd p 1" "rd (c # p) 3 = rd p 2"
  by (auto simp: rd_def numeral_2_eq_2 numeral_3_eq_3)

lemma inq_step_hex:
  assumes "is_hex_digit a" "is_hex_digit b" "sdscatlen junk s [hex_digit_to_int a * 16 + hex_digit_to_int b] 1 = Some s'"
  shows "inq_step junk (92 # 120 # a # b # q) s = Some (Arg (b # q) s' True False False)"
  using assms by (simp add: inq_step_def at_hex_def quote_chars rd_Cons)

lemma inq_step_escape:
  assumes "a \<noteq> 120" "a \<noteq> 0" "sdscatlen junk s [unescape a] 1 = Some s'"
  shows "inq_step junk (92 # a # q) s = Some (Arg (a # q) s' True False False)"
  using assms by (simp add: inq_step_def at_hex_def at_escape_def quote_chars rd_Cons)

lemma inq_step_char:
  assumes "c \<noteq> 92" "c \<noteq> 34" "c \<noteq> 0" "sdscatlen junk s (c # q) 1 = Some s'"
  shows "inq_step junk (c # q) s = Some (Arg (c # q) s' True False False)"
  using assms by (simp add: inq_step_def at_hex_def at_escape_def quote_chars rd_Cons)

lemma inq_step_repr:
  assumes "sds_is s u f" "length u + 1 + SDS_MAX_PREALLOC < 2 ^ 32"
  shows "\<exists>s' f' b. inq_step junk (repr_byte c @ q) s = Some (Arg (b # q) s' True False False) \<and> b \<noteq> 0 \<and> sds_is s' (u @ [c]) f'"
proof -
  have cat: "\<exists>s' f'. sdscatlen junk s (x # p) 1 = Some s' \<and> sds_is s' (u @ [x]) f'" for x p
    using sdscatlen_is [OF assms(1), of 1 "x # p" junk] assms(2) by simp
  define e where "e = (if c = 92 \<or> c = 34 then c else if c = 10 then 110 else if c = 13 then 114
    else if c = 9 then 116 else if c = 7 then 97 else (98 :: byte))"
  consider (esc) "c \<in> {92, 34, 10, 13, 9, 7, 8}" | (char) "c \<notin> {92, 34, 10, 13, 9, 7, 8}" "isprint c"
    | (hex) "c \<notin> {92, 34, 10, 13, 9, 7, 8}" "\<not> isprint c" by blast
  then show ?thesis
  proof cases
    case esc
    then have e: "repr_byte c = [92, e]" "e \<noteq> 120" "e \<noteq> 0" "unescape e = c"
      by (auto simp: repr_byte_def e_def unescape_def quote_chars)
    obtain s' f' where "sdscatlen junk s [unescape e] 1 = Some s'" "sds_is s' (u @ [c]) f'" using cat [of c "[]"] e(4) by auto
    then show ?thesis using inq_step_escape [OF e(2,3)] e(1,3) by auto
  next
    case char
    obtain s' f' where "sdscatlen junk s (c # q) 1 = Some s'" "sds_is s' (u @ [c]) f'" using cat by blast
    then show ?thesis using char inq_step_char [of c] isprint_nonzero [of c] by (auto simp: repr_byte_def)
  next
    case hex
    let ?a = "hexdigit (c div 16)" and ?b = "hexdigit (c mod 16)"
    note ok = hexdigit_ok [OF hexpair_ok(1) [of c]] hexdigit_ok [OF hexpair_ok(2) [of c]]
    obtain s' f' where "sdscatlen junk s [hex_digit_to_int ?a * 16 + hex_digit_to_int ?b] 1 = Some s'" "sds_is s' (u @ [c]) f'"
      using cat [of c "[]"] unfolding ok(2,5) hexpair_ok(3) by blast
    then show ?thesis using hex inq_step_hex [OF ok(1,4)] ok(6) by (auto simp: repr_byte_def hexpair_def)
  qed
qed

lemma splitarg_loop_repr:
  assumes "sds_is s u f" "length u + length t + SDS_MAX_PREALLOC < 2 ^ 32"
  shows "\<exists>s' f'. splitarg_loop junk (concat (map repr_byte t) @ [34, 0]) s True False = Some (Some ([0], s')) \<and> sds_is s' (u @ t) f'"
  using assms
proof (induction t arbitrary: s u f)
  case Nil
  have "splitarg_step junk [34, 0] s True False = Some (Arg [34, 0] s True False True)"
    by (simp add: splitarg_step_def inq_step_def at_hex_def at_escape_def close_quote_def quote_chars rd_Cons)
  then show ?case using Nil(1) by (subst splitarg_loop.simps) (auto simp: rd_Cons)
next
  case (Cons c t)
  obtain s1 f1 b where s1: "inq_step junk (repr_byte c @ concat (map repr_byte t) @ [34, 0]) s =
      Some (Arg (b # concat (map repr_byte t) @ [34, 0]) s1 True False False)" "b \<noteq> 0" "sds_is s1 (u @ [c]) f1"
    using inq_step_repr [OF Cons.prems(1)] Cons.prems(2) by force
  have "splitarg_loop junk (concat (map repr_byte (c # t)) @ [34, 0]) s True False =
      splitarg_loop junk (concat (map repr_byte t) @ [34, 0]) s1 True False"
    by (subst splitarg_loop.simps) (use s1 in \<open>simp add: splitarg_step_def rd_Cons\<close>)
  then show ?case using Cons.IH [OF s1(3)] Cons.prems(2) by simp
qed

lemma sdssplitargs_repr:
  assumes "length t + SDS_MAX_PREALLOC < 2 ^ 32"
  shows "\<exists>s f. sdssplitargs junk (repr_of t @ [0]) = Some (Some [s]) \<and> sds_is s t f"
proof -
  obtain s0 where s0: "sdsempty junk = Some s0" "sds_is s0 [] 0" using sdsempty_is by blast
  obtain s f where s: "splitarg_loop junk (concat (map repr_byte t) @ [34, 0]) s0 True False = Some (Some ([0], s))" "sds_is s t f"
    using splitarg_loop_repr [OF s0(2), of t junk] assms by auto
  have "splitarg_step junk (repr_of t @ [0]) s0 False False = Some (Arg (repr_of t @ [0]) s0 True False False)"
    by (simp add: splitarg_step_def plain_step_def repr_of_def quote_chars rd_Cons)
  then have "splitarg_loop junk (repr_of t @ [0]) s0 False False = Some (Some ([0], s))"
    using s(1) by (subst splitarg_loop.simps) (simp add: repr_of_def rd_Cons)
  moreover have "skip_blanks (repr_of t @ [0]) = Some (repr_of t @ [0])" "rd (repr_of t @ [0]) 0 \<noteq> Some 0"
    by (simp_all add: repr_of_def isspace_def rd_Cons)
  moreover have "splitargs_loop junk [0] [s] = Some (Some [s])" by (subst splitargs_loop.simps) (simp add: rd_Cons)
  ultimately have "sdssplitargs junk (repr_of t @ [0]) = Some (Some [s])"
    unfolding sdssplitargs_def using s0(1) by (subst splitargs_loop.simps) simp
  then show ?thesis using s(2) by blast
qed

section \<open>Properties\<close>

text \<open>C24: appending, copying and growing give a well-formed string whose content is the old content
  with the new bytes behind it, the new bytes alone, or the old content padded with NULs, and never
  touch memory outside the buffer, whatever the allocator leaves in fresh memory.\<close>

theorem sds_append:
  assumes "sds_ok s" "len \<le> length u" "sdslen s + len + SDS_MAX_PREALLOC < 2 ^ 32"
  shows "(\<exists>s'. sdscatlen junk s u len = Some s' \<and> sds_ok s' \<and> sds_str s' = sds_str s @ take len u) \<and>
    (\<exists>s'. sdscpylen junk s u len = Some s' \<and> sds_ok s' \<and> sds_str s' = take len u) \<and>
    (\<exists>s'. sdsgrowzero junk s len = Some s' \<and> sds_ok s' \<and> sds_str s' = sds_str s @ replicate (len - sdslen s) 0)"
  using sdscatlen_is [OF sds_is_exists [OF assms(1)] assms(2), of junk] sdscpylen_is [OF sds_is_exists [OF assms(1)] assms(2), of junk]
    sdsgrowzero_is [OF sds_is_exists [OF assms(1)], of len junk] assms(3) length_sds_str [OF assms(1)]
  by (intro conjI; force simp: sds_is_def)

definition abc_sds :: sds where
  "abc_sds = \<lparr>sds_len = 3, sds_free = 1, sds_buf = [97, 98, 99, 0, 7]\<rparr>"

lemma abc_sds: "sds_ok abc_sds" "sds_str abc_sds = [97, 98, 99]" "sdslen abc_sds = 3" "sds_is abc_sds [97, 98, 99] 1"
  by (simp_all add: abc_sds_def sds_ok_def sds_str_def sdslen_def sdsavail_def sds_is_def)

theorem sds_append_witness:
  "\<exists>s'. sdscatlen (\<lambda>_. 0) abc_sds [120, 121, 122] 2 = Some s' \<and> sds_ok s' \<and> sds_str s' = [97, 98, 99, 120, 121]"
  using sds_append [THEN conjunct1, of abc_sds 2 "[120, 121, 122]" "\<lambda>_. 0"] by (simp add: abc_sds)



text \<open>C26: \<open>sdstrim\<close> removes exactly the leading and trailing characters of the set, and \<open>sdsrange\<close>
  keeps exactly the bytes between its two ends, which count from the end when negative and are
  clipped to the string.\<close>

theorem sds_trim_range:
  assumes "sds_ok s" "sdslen s < 2 ^ 31"
  shows "(\<exists>s'. sdstrim s cset = Some s' \<and> sds_ok s' \<and> sds_str s' = trimmed cset (sds_str s)) \<and>
    (\<exists>s'. sdsrange s start en = Some s' \<and> sds_ok s' \<and> sds_str s' = range_of (sds_str s) (sint start) (sint en))"
  using sdstrim_is [OF sds_is_exists [OF assms(1)], of cset] sdsrange_is [OF sds_is_exists [OF assms(1)], of start en]
    assms(2) length_sds_str [OF assms(1)]
  by (intro conjI; force simp: sds_is_def)

theorem sds_trim_range_witness:
  "\<exists>s'. sdsrange abc_sds (-2) 0x7FFFFFFF = Some s' \<and> sds_ok s' \<and> sds_str s' = [98, 99]"
  using sds_trim_range [THEN conjunct2, of abc_sds "-2" "0x7FFFFFFF"]
  by (simp add: abc_sds range_of_def range_pos_def)



text \<open>C28: a string of any bytes, quoted with \<open>sdscatrepr\<close>, is read back by \<open>sdssplitargs\<close> as one
  argument equal to it.\<close>

theorem sds_repr_roundtrip:
  assumes "4 * length t + 2 + SDS_MAX_PREALLOC < 2 ^ 32" "sdsempty junk = Some s"
  shows "\<exists>q a. sdscatrepr junk s t (length t) = Some q \<and> sds_ok q \<and>
    sdssplitargs junk (sds_str q @ [0]) = Some (Some [a]) \<and> sds_ok a \<and> sds_str a = t"
proof -
  have s: "sds_is s [] 0" using sdsempty_is [of junk] assms(2) by auto
  obtain q f where q: "sdscatrepr junk s t (length t) = Some q" "sds_is q (repr_of t) f"
    using sdscatrepr_is [OF s, of t junk "[]"] assms(1) by auto
  then show ?thesis using sdssplitargs_repr [of t junk] assms(1) by (auto simp: sds_is_def)
qed

theorem sds_repr_roundtrip_witness:
  "\<exists>s q a. sdsempty (\<lambda>_. 0) = Some s \<and> sdscatrepr (\<lambda>_. 0) s [0, 34, 255, 97] 4 = Some q \<and> sds_ok q \<and>
    sdssplitargs (\<lambda>_. 0) (sds_str q @ [0]) = Some (Some [a]) \<and> sds_ok a \<and> sds_str a = [0, 34, 255, 97]"
proof -
  obtain s where s: "sdsempty (\<lambda>_. 0) = Some s" using sdsempty_is by blast
  have l: "length [0, 34, 255, 97 :: byte] = 4" by simp
  show ?thesis using sds_repr_roundtrip [of "[0, 34, 255, 97]" "\<lambda>_. 0" s] s unfolding l by auto
qed

end
