(* ===== verification/Crc64.thy ===== *)
theory Crc64
  imports Redis_Base
begin

text \<open>
  \<open>src/redis-2.8.24/src/crc64.c\<close>: the table-driven CRC-64 of the dump files, and its equivalence
  with the bit-by-bit division by the polynomial 0xad93d23594c935a9 that the header of the file
  names (least significant bit first).
\<close>

definition crc64_tab :: "u64 list" where
  "crc64_tab = [
     0x0000000000000000, 0x7ad870c830358979, 0xf5b0e190606b12f2, 0x8f689158505e9b8b,
     0xc038e5739841b68f, 0xbae095bba8743ff6, 0x358804e3f82aa47d, 0x4f50742bc81f2d04,
     0xab28ecb46814fe75, 0xd1f09c7c5821770c, 0x5e980d24087fec87, 0x24407dec384a65fe,
     0x6b1009c7f05548fa, 0x11c8790fc060c183, 0x9ea0e857903e5a08, 0xe478989fa00bd371,
     0x7d08ff3b88be6f81, 0x07d08ff3b88be6f8, 0x88b81eabe8d57d73, 0xf2606e63d8e0f40a,
     0xbd301a4810ffd90e, 0xc7e86a8020ca5077, 0x4880fbd87094cbfc, 0x32588b1040a14285,
     0xd620138fe0aa91f4, 0xacf86347d09f188d, 0x2390f21f80c18306, 0x594882d7b0f40a7f,
     0x1618f6fc78eb277b, 0x6cc0863448deae02, 0xe3a8176c18803589, 0x997067a428b5bcf0,
     0xfa11fe77117cdf02, 0x80c98ebf2149567b, 0x0fa11fe77117cdf0, 0x75796f2f41224489,
     0x3a291b04893d698d, 0x40f16bccb908e0f4, 0xcf99fa94e9567b7f, 0xb5418a5cd963f206,
     0x513912c379682177, 0x2be1620b495da80e, 0xa489f35319033385, 0xde51839b2936bafc,
     0x9101f7b0e12997f8, 0xebd98778d11c1e81, 0x64b116208142850a, 0x1e6966e8b1770c73,
     0x8719014c99c2b083, 0xfdc17184a9f739fa, 0x72a9e0dcf9a9a271, 0x08719014c99c2b08,
     0x4721e43f0183060c, 0x3df994f731b68f75, 0xb29105af61e814fe, 0xc849756751dd9d87,
     0x2c31edf8f1d64ef6, 0x56e99d30c1e3c78f, 0xd9810c6891bd5c04, 0xa3597ca0a188d57d,
     0xec09088b6997f879, 0x96d1784359a27100, 0x19b9e91b09fcea8b, 0x636199d339c963f2,
     0xdf7adabd7a6e2d6f, 0xa5a2aa754a5ba416, 0x2aca3b2d1a053f9d, 0x50124be52a30b6e4,
     0x1f423fcee22f9be0, 0x659a4f06d21a1299, 0xeaf2de5e82448912, 0x902aae96b271006b,
     0x74523609127ad31a, 0x0e8a46c1224f5a63, 0x81e2d7997211c1e8, 0xfb3aa75142244891,
     0xb46ad37a8a3b6595, 0xceb2a3b2ba0eecec, 0x41da32eaea507767, 0x3b024222da65fe1e,
     0xa2722586f2d042ee, 0xd8aa554ec2e5cb97, 0x57c2c41692bb501c, 0x2d1ab4dea28ed965,
     0x624ac0f56a91f461, 0x1892b03d5aa47d18, 0x97fa21650afae693, 0xed2251ad3acf6fea,
     0x095ac9329ac4bc9b, 0x7382b9faaaf135e2, 0xfcea28a2faafae69, 0x8632586aca9a2710,
     0xc9622c4102850a14, 0xb3ba5c8932b0836d, 0x3cd2cdd162ee18e6, 0x460abd1952db919f,
     0x256b24ca6b12f26d, 0x5fb354025b277b14, 0xd0dbc55a0b79e09f, 0xaa03b5923b4c69e6,
     0xe553c1b9f35344e2, 0x9f8bb171c366cd9b, 0x10e3202993385610, 0x6a3b50e1a30ddf69,
     0x8e43c87e03060c18, 0xf49bb8b633338561, 0x7bf329ee636d1eea, 0x012b592653589793,
     0x4e7b2d0d9b47ba97, 0x34a35dc5ab7233ee, 0xbbcbcc9dfb2ca865, 0xc113bc55cb19211c,
     0x5863dbf1e3ac9dec, 0x22bbab39d3991495, 0xadd33a6183c78f1e, 0xd70b4aa9b3f20667,
     0x985b3e827bed2b63, 0xe2834e4a4bd8a21a, 0x6debdf121b863991, 0x1733afda2bb3b0e8,
     0xf34b37458bb86399, 0x8993478dbb8deae0, 0x06fbd6d5ebd3716b, 0x7c23a61ddbe6f812,
     0x3373d23613f9d516, 0x49aba2fe23cc5c6f, 0xc6c333a67392c7e4, 0xbc1b436e43a74e9d,
     0x95ac9329ac4bc9b5, 0xef74e3e19c7e40cc, 0x601c72b9cc20db47, 0x1ac40271fc15523e,
     0x5594765a340a7f3a, 0x2f4c0692043ff643, 0xa02497ca54616dc8, 0xdafce7026454e4b1,
     0x3e847f9dc45f37c0, 0x445c0f55f46abeb9, 0xcb349e0da4342532, 0xb1eceec59401ac4b,
     0xfebc9aee5c1e814f, 0x8464ea266c2b0836, 0x0b0c7b7e3c7593bd, 0x71d40bb60c401ac4,
     0xe8a46c1224f5a634, 0x927c1cda14c02f4d, 0x1d148d82449eb4c6, 0x67ccfd4a74ab3dbf,
     0x289c8961bcb410bb, 0x5244f9a98c8199c2, 0xdd2c68f1dcdf0249, 0xa7f41839ecea8b30,
     0x438c80a64ce15841, 0x3954f06e7cd4d138, 0xb63c61362c8a4ab3, 0xcce411fe1cbfc3ca,
     0x83b465d5d4a0eece, 0xf96c151de49567b7, 0x76048445b4cbfc3c, 0x0cdcf48d84fe7545,
     0x6fbd6d5ebd3716b7, 0x15651d968d029fce, 0x9a0d8ccedd5c0445, 0xe0d5fc06ed698d3c,
     0xaf85882d2576a038, 0xd55df8e515432941, 0x5a3569bd451db2ca, 0x20ed197575283bb3,
     0xc49581ead523e8c2, 0xbe4df122e51661bb, 0x3125607ab548fa30, 0x4bfd10b2857d7349,
     0x04ad64994d625e4d, 0x7e7514517d57d734, 0xf11d85092d094cbf, 0x8bc5f5c11d3cc5c6,
     0x12b5926535897936, 0x686de2ad05bcf04f, 0xe70573f555e26bc4, 0x9ddd033d65d7e2bd,
     0xd28d7716adc8cfb9, 0xa85507de9dfd46c0, 0x273d9686cda3dd4b, 0x5de5e64efd965432,
     0xb99d7ed15d9d8743, 0xc3450e196da80e3a, 0x4c2d9f413df695b1, 0x36f5ef890dc31cc8,
     0x79a59ba2c5dc31cc, 0x037deb6af5e9b8b5, 0x8c157a32a5b7233e, 0xf6cd0afa9582aa47,
     0x4ad64994d625e4da, 0x300e395ce6106da3, 0xbf66a804b64ef628, 0xc5bed8cc867b7f51,
     0x8aeeace74e645255, 0xf036dc2f7e51db2c, 0x7f5e4d772e0f40a7, 0x05863dbf1e3ac9de,
     0xe1fea520be311aaf, 0x9b26d5e88e0493d6, 0x144e44b0de5a085d, 0x6e963478ee6f8124,
     0x21c640532670ac20, 0x5b1e309b16452559, 0xd476a1c3461bbed2, 0xaeaed10b762e37ab,
     0x37deb6af5e9b8b5b, 0x4d06c6676eae0222, 0xc26e573f3ef099a9, 0xb8b627f70ec510d0,
     0xf7e653dcc6da3dd4, 0x8d3e2314f6efb4ad, 0x0256b24ca6b12f26, 0x788ec2849684a65f,
     0x9cf65a1b368f752e, 0xe62e2ad306bafc57, 0x6946bb8b56e467dc, 0x139ecb4366d1eea5,
     0x5ccebf68aecec3a1, 0x2616cfa09efb4ad8, 0xa97e5ef8cea5d153, 0xd3a62e30fe90582a,
     0xb0c7b7e3c7593bd8, 0xca1fc72bf76cb2a1, 0x45775673a732292a, 0x3faf26bb9707a053,
     0x70ff52905f188d57, 0x0a2722586f2d042e, 0x854fb3003f739fa5, 0xff97c3c80f4616dc,
     0x1bef5b57af4dc5ad, 0x61372b9f9f784cd4, 0xee5fbac7cf26d75f, 0x9487ca0fff135e26,
     0xdbd7be24370c7322, 0xa10fceec0739fa5b, 0x2e675fb4576761d0, 0x54bf2f7c6752e8a9,
     0xcdcf48d84fe75459, 0xb71738107fd2dd20, 0x387fa9482f8c46ab, 0x42a7d9801fb9cfd2,
     0x0df7adabd7a6e2d6, 0x772fdd63e7936baf, 0xf8474c3bb7cdf024, 0x829f3cf387f8795d,
     0x66e7a46c27f3aa2c, 0x1c3fd4a417c62355, 0x935745fc4798b8de, 0xe98f353477ad31a7,
     0xa6df411fbfb21ca3, 0xdc0731d78f8795da, 0x536fa08fdfd90e51, 0x29b7d047efec8728]"

fun crc64_loop :: "u64 \<Rightarrow> byte list \<Rightarrow> u64" where
  "crc64_loop crc [] = crc"
| "crc64_loop crc (b # s) = crc64_loop ((crc64_tab ! unat (ucast crc XOR b :: byte)) XOR drop_bit 8 crc) s"

definition crc64 :: "u64 \<Rightarrow> byte list \<Rightarrow> nat \<Rightarrow> u64 option" where
  "crc64 crc s l = do { t \<leftarrow> memread s 0 l; Some (crc64_loop crc t) }"

section \<open>The polynomial\<close>

text \<open>The bits of the polynomial in reverse order.\<close>

abbreviation poly :: u64 where "poly \<equiv> 0x95AC9329AC4BC9B5"

definition crc_bit :: "u64 \<Rightarrow> u64" where
  "crc_bit c = (if bit c 0 then drop_bit 1 c XOR poly else drop_bit 1 c)"

fun crc_bits :: "nat \<Rightarrow> u64 \<Rightarrow> u64" where
  "crc_bits 0 c = c"
| "crc_bits (Suc n) c = crc_bits n (crc_bit c)"

fun crc_ref :: "u64 \<Rightarrow> byte list \<Rightarrow> u64" where
  "crc_ref crc [] = crc"
| "crc_ref crc (b # s) = crc_ref (crc_bits 8 (crc XOR ucast b)) s"

lemma crc64_tab_length: "length crc64_tab = 256"
  by (simp add: crc64_tab_def)

text \<open>The division step on the powers of two that a byte is made of.\<close>

lemma crc_bit_one:
  "crc_bit 0x1 = 0x95ac9329ac4bc9b5"
  "crc_bit 0x95ac9329ac4bc9b5 = 0xdf7adabd7a6e2d6f"
  "crc_bit 0xdf7adabd7a6e2d6f = 0xfa11fe77117cdf02"
  "crc_bit 0xfa11fe77117cdf02 = 0x7d08ff3b88be6f81"
  "crc_bit 0x7d08ff3b88be6f81 = 0xab28ecb46814fe75"
  "crc_bit 0xab28ecb46814fe75 = 0xc038e5739841b68f"
  "crc_bit 0xc038e5739841b68f = 0xf5b0e190606b12f2"
  "crc_bit 0xf5b0e190606b12f2 = 0x7ad870c830358979"
  by (simp_all add: crc_bit_def)

lemma crc_bit_power:
  "crc_bit 2 = 1" "crc_bit 4 = 2" "crc_bit 8 = 4" "crc_bit 16 = 8" "crc_bit 32 = 16" "crc_bit 64 = 32" "crc_bit 128 = 64"
  by (simp_all add: crc_bit_def)

lemma crc_bits_8: "crc_bits 8 c = crc_bit (crc_bit (crc_bit (crc_bit (crc_bit (crc_bit (crc_bit (crc_bit c)))))))"
  by (simp add: eval_nat_numeral)

lemma crc_bits_basis:
  "crc_bits 8 1 = 0x7ad870c830358979"
  "crc_bits 8 2 = 0xf5b0e190606b12f2"
  "crc_bits 8 4 = 0xc038e5739841b68f"
  "crc_bits 8 8 = 0xab28ecb46814fe75"
  "crc_bits 8 16 = 0x7d08ff3b88be6f81"
  "crc_bits 8 32 = 0xfa11fe77117cdf02"
  "crc_bits 8 64 = 0xdf7adabd7a6e2d6f"
  "crc_bits 8 128 = 0x95ac9329ac4bc9b5"
  by (simp_all only: crc_bits_8 crc_bit_power crc_bit_one)

lemma crc_bit_xor: "crc_bit (a XOR b) = crc_bit a XOR crc_bit b"
  by (simp add: crc_bit_def drop_bit_xor bit_xor_iff xor.assoc xor.left_commute xor.commute)

lemma crc_bits_xor: "crc_bits n (a XOR b) = crc_bits n a XOR crc_bits n b"
  by (induction n arbitrary: a b) (simp_all add: crc_bit_xor)

text \<open>The table of a linear function from its values at the powers of two.\<close>

fun xtab :: "u64 list \<Rightarrow> u64 list \<Rightarrow> u64 list" where
  "xtab x [] = x"
| "xtab x (t # ts) = xtab (x @ map ((XOR) t) x) ts"

lemma xtab_snoc: "xtab x (ts @ [t]) = xtab x ts @ map ((XOR) t) (xtab x ts)"
  by (induction x ts rule: xtab.induct) auto

lemma power_add_xor:
  assumes "i < 2 ^ n" "n < 64"
  shows "(of_nat (2 ^ n + i) :: u64) = 2 ^ n XOR of_nat i"
proof -
  have "(2 ^ n :: u64) AND of_nat i = 0"
    using assms by (intro bit_eqI) (auto simp: bit_and_iff bit_exp_iff bit_of_nat_iff bit_nat_def)
  then show ?thesis by (simp add: disjunctive_add_eq_xor)
qed

lemma xtab_linear:
  fixes f :: "u64 \<Rightarrow> u64"
  assumes "\<And>a b. f (a XOR b) = f a XOR f b" "n \<le> 64"
  shows "xtab [0] (map (\<lambda>k. f (2 ^ k)) [0..<n]) = map (\<lambda>i. f (of_nat i)) [0..<2 ^ n]"
  using assms(2)
proof (induction n)
  case 0
  have "f 0 = 0" using assms(1) [of 0 0] by simp
  then show ?case by simp
next
  case (Suc n)
  have "[0..<2 ^ Suc n] = [0..<2 ^ n] @ map (\<lambda>i. i + 2 ^ n) [0..<2 ^ n]"
    using upt_add_eq_append [of 0 "2 ^ n" "2 ^ n"] 
      map_add_upt [of "2 ^ n" "2 ^ n"] by (simp add: mult_2)
  moreover have "map (\<lambda>i. f (of_nat i)) (map (\<lambda>i. i + 2 ^ n) [0..<2 ^ n]) = map ((XOR) (f (2 ^ n))) (map (\<lambda>i. f (of_nat i)) [0..<2 ^ n])"
  proof -
    have "f (of_nat (i + 2 ^ n)) = f (2 ^ n) XOR f (of_nat i)" if "i < 2 ^ n" for i
      unfolding add.commute [of i] power_add_xor [OF that Suc_le_lessD [OF Suc.prems]] by (rule assms(1))
    then show ?thesis unfolding list.map_comp comp_def by (intro map_cong refl) auto
  qed
  ultimately show ?case using Suc by (simp add: xtab_snoc)
qed

lemma crc64_tab_bits: "crc64_tab = map (\<lambda>i. crc_bits 8 (of_nat i)) [0..<256]"
proof -
  have "xtab [0] (map (\<lambda>k. crc_bits 8 (2 ^ k)) [0..<8]) = map (\<lambda>i. crc_bits 8 (of_nat i)) [0..<2 ^ 8]"
    by (rule xtab_linear) (simp_all add: crc_bits_xor)
  moreover have "map (\<lambda>k. crc_bits 8 (2 ^ k)) [0..<8] = map (crc_bits 8) [1, 2, 4, 8, 16, 32, 64, 128]"
    by (simp add: upt_rec)
  moreover have "crc64_tab = xtab [0] (map (crc_bits 8) [1, 2, 4, 8, 16, 32, 64, 128])"
    by (simp add: crc_bits_basis crc64_tab_def)
  ultimately show ?thesis by simp
qed

lemma crc_bits_high: "n \<le> 64 \<Longrightarrow> take_bit n c = 0 \<Longrightarrow> crc_bits n c = drop_bit n c"
proof (induction n arbitrary: c)
  case (Suc n)
  have b: "bit c k \<Longrightarrow> Suc n \<le> k" for k
    using Suc.prems(2) bit_take_bit_iff [of "Suc n" c k] by (auto simp: not_less_eq_eq)
  then have "crc_bit c = drop_bit 1 c" by (auto simp: crc_bit_def)
  moreover have "take_bit n (drop_bit 1 c) = 0"
    using b by (intro bit_eqI) (force simp: bit_take_bit_iff bit_drop_bit_eq)
  ultimately show ?case using Suc.IH [of "drop_bit 1 c"] Suc.prems(1) by (simp add: drop_bit_drop_bit)
qed simp

text \<open>One step of the loop is eight steps of the division.\<close>

lemma crc64_step: "(crc64_tab ! unat (ucast crc XOR b :: byte)) XOR drop_bit 8 crc = crc_bits 8 (crc XOR ucast b)"
proof -
  let ?l = "ucast crc XOR b :: byte"
  let ?h = "push_bit 8 (drop_bit 8 crc)"
  have "unat ?l < 256" using unsigned_less [of ?l, where ?'a = nat] by simp
  then have tab: "crc64_tab ! unat ?l = crc_bits 8 (ucast ?l)"
    unfolding crc64_tab_bits by (simp add: word_unat_eq_iff unsigned_ucast_eq unsigned_of_nat)
  have split: "crc XOR ucast b = ucast ?l XOR ?h"
    by (rule bit_word_eqI) (auto simp: bit_xor_iff bit_ucast_iff bit_push_bit_iff bit_drop_bit_eq not_less)
  have "take_bit 8 ?h = 0" by (rule bit_word_eqI) (auto simp: bit_take_bit_iff bit_push_bit_iff)
  moreover have "bit crc (8 + n) \<Longrightarrow> n < 56" for n using bit_imp_le_length [of crc "8 + n"] by simp
  ultimately have "crc_bits 8 ?h = drop_bit 8 crc"
    by (subst crc_bits_high) (auto intro!: bit_word_eqI simp: bit_drop_bit_eq bit_push_bit_iff)
  then show ?thesis unfolding split crc_bits_xor tab by simp
qed

lemma crc64_loop_ref: "crc64_loop crc s = crc_ref crc s"
  by (induction s arbitrary: crc) (simp_all only: crc64_loop.simps crc_ref.simps crc64_step)

section \<open>Errors the checksum detects\<close>

lemma crc_bit_zero: "crc_bit c = 0 \<Longrightarrow> c = 0"
proof (cases "bit c 0")
  case True
  assume "crc_bit c = 0"
  then have "drop_bit 1 c XOR poly = 0" using True by (simp add: crc_bit_def)
  moreover have "bit (drop_bit 1 c XOR poly) 63"
    using bit_imp_le_length [of c 64] by (auto simp: bit_xor_iff bit_drop_bit_eq)
  ultimately show ?thesis by simp
next
  case False
  assume "crc_bit c = 0"
  then have "drop_bit 1 c = 0" using False by (simp add: crc_bit_def)
  moreover have "bit c (Suc k) = bit (drop_bit 1 c) k" for k by (simp add: bit_drop_bit_eq)
  ultimately have "\<not> bit c k" for k using False by (cases k) simp_all
  then show ?thesis by (intro bit_word_eqI) simp
qed

lemma xor_zero_eq: "(a :: u64) XOR b = 0 \<Longrightarrow> a = b"
proof -
  assume "a XOR b = 0"
  then have "(a XOR b) XOR b = b" by simp
  then show "a = b" by (simp add: xor.assoc)
qed

lemma crc_bits_inj: "crc_bits n a = crc_bits n b \<Longrightarrow> a = b"
proof (induction n arbitrary: a b)
  case (Suc n)
  then have "crc_bit a = crc_bit b" by simp
  then have "crc_bit (a XOR b) = 0" by (simp add: crc_bit_xor)
  then show ?case using crc_bit_zero xor_zero_eq by blast
qed simp

lemma crc_ref_inj: "crc_ref a s = crc_ref b s \<Longrightarrow> a = b"
proof (induction s arbitrary: a b)
  case (Cons c s)
  then have "crc_bits 8 (a XOR ucast c) = crc_bits 8 (b XOR ucast c)" by (simp only: crc_ref.simps)
  then have "a XOR ucast c = b XOR ucast c" by (rule crc_bits_inj)
  then have "(a XOR ucast c) XOR ucast c = (b XOR ucast c) XOR ucast c" by (rule arg_cong)
  then show ?case by (simp only: xor.assoc xor_self_eq xor.right_neutral)
qed simp

lemma crc_ref_append: "crc_ref a (s @ t) = crc_ref (crc_ref a s) t"
  by (induction s arbitrary: a) (simp_all only: crc_ref.simps append.simps)

lemma crc_ref_byte:
  assumes "crc_ref c (s @ x # t) = crc_ref c (s @ y # t)"
  shows "x = y"
proof -
  let ?c = "crc_ref c s"
  have "crc_bits 8 (?c XOR ucast x) = crc_bits 8 (?c XOR ucast y)"
    using assms unfolding crc_ref_append crc_ref.simps by (rule crc_ref_inj)
  then have "?c XOR ucast x = ?c XOR (ucast y :: u64)" by (rule crc_bits_inj)
  then have "?c XOR (?c XOR ucast x) = ?c XOR (?c XOR ucast y)" by (rule arg_cong)
  then have "(ucast x :: u64) = ucast y" by (simp only: xor.assoc [symmetric] xor_self_eq xor.left_neutral)
  then have "unat (ucast x :: u64) = unat (ucast y :: u64)" by simp
  then show ?thesis
    using unsigned_less [of x, where ?'a = nat] unsigned_less [of y, where ?'a = nat]
    by (simp add: unsigned_ucast_eq take_bit_nat_eq_self word_unat_eq_iff)
qed

text \<open>The checksum that the test program of the source prints for the digits from 1 to 9.\<close>

lemma crc64_check: "crc64 0 [49, 50, 51, 52, 53, 54, 55, 56, 57] 9 = Some 0xE9C6D914C4B8D9CA"
proof -
  have "crc_ref 0 [49, 50, 51, 52, 53, 54, 55, 56, 57] = 0xE9C6D914C4B8D9CA" by (simp add: crc_bits_8 crc_bit_def)
  then show ?thesis by (simp add: crc64_def memread_def crc64_loop_ref)
qed

text \<open>C31: the table-driven checksum is the remainder of the bit-by-bit division, it can be computed
  in pieces, and a change of any single byte changes it.\<close>

theorem crc64_correct:
  "crc64 crc s (length s) = Some (crc_ref crc s) \<and>
   crc64 crc (s @ t) (length (s @ t)) = do { c \<leftarrow> crc64 crc s (length s); crc64 c t (length t) } \<and>
   (x \<noteq> y \<longrightarrow> crc64 crc (s @ x # t) (length (s @ x # t)) \<noteq> crc64 crc (s @ y # t) (length (s @ y # t)))"
  using crc_ref_byte [of crc s x t y]
  by (auto simp: crc64_def memread_ok crc64_loop_ref crc_ref_append)

theorem crc64_correct_witness:
  "crc64 0 ([49, 50, 51] @ 52 # [53, 54, 55, 56, 57]) 9 \<noteq> crc64 0 ([49, 50, 51] @ 53 # [53, 54, 55, 56, 57]) 9"
proof -
  have l: "length ([49, 50, 51 :: byte] @ 52 # [53, 54, 55, 56, 57]) = 9" "length ([49, 50, 51 :: byte] @ 53 # [53, 54, 55, 56, 57]) = 9"
    by simp_all
  have "(52 :: byte) \<noteq> 53" by simp
  then show ?thesis using crc64_correct [of 0 "[49, 50, 51]" "[53, 54, 55, 56, 57]" 52 53] unfolding l by blast
qed

end
