(* ===== verification/Rio.thy ===== *)
theory Rio
  imports Sds Crc64
begin

text \<open>
  \<open>src/redis-2.8.24/src/rio.h\<close> and \<open>rio.c\<close>: the stream of the dump routines over a memory buffer,
  with its checksum and its limit on the size of one read or write. The buffer is an sds string.
  \<open>update_cksum\<close> is either \<open>NULL\<close> or \<open>rioGenericUpdateChecksum\<close>, so it is a flag. The backends for
  files and sockets make system calls and are not modelled.
\<close>

section \<open>Streams\<close>

record rio =
  rio_ptr :: sds
  rio_pos :: nat
  rio_update_cksum :: bool
  rio_cksum :: u64
  rio_processed_bytes :: nat
  rio_max_processing_chunk :: nat

text \<open>A write returns the stream and the success; a read returns the bytes, if there are enough.\<close>

definition rioBufferWrite :: "(nat \<Rightarrow> byte) \<Rightarrow> rio \<Rightarrow> byte list \<Rightarrow> nat \<Rightarrow> (rio \<times> bool) option" where
  "rioBufferWrite junk r buf len = do {
     s \<leftarrow> sdscatlen junk (rio_ptr r) buf len;
     Some (r\<lparr>rio_ptr := s, rio_pos := rio_pos r + len\<rparr>, True)
   }"

definition rioBufferRead :: "rio \<Rightarrow> nat \<Rightarrow> (rio \<times> byte list option) option" where
  "rioBufferRead r len =
     (if (of_nat (sdslen (rio_ptr r)) - of_nat (rio_pos r) :: u64) < of_nat len then Some (r, None)
      else do {
        t \<leftarrow> memread (sds_buf (rio_ptr r)) (rio_pos r) len;
        Some (r\<lparr>rio_pos := rio_pos r + len\<rparr>, Some t)
      })"

definition rioBufferTell :: "rio \<Rightarrow> nat" where
  "rioBufferTell r = rio_pos r"

definition rioInitWithBuffer :: "sds \<Rightarrow> rio" where
  "rioInitWithBuffer s = \<lparr>rio_ptr = s, rio_pos = 0, rio_update_cksum = False, rio_cksum = 0,
     rio_processed_bytes = 0, rio_max_processing_chunk = 0\<rparr>"

definition rioGenericUpdateChecksum :: "rio \<Rightarrow> byte list \<Rightarrow> nat \<Rightarrow> rio option" where
  "rioGenericUpdateChecksum r buf len = do {
     c \<leftarrow> crc64 (rio_cksum r) buf len;
     Some (r\<lparr>rio_cksum := c\<rparr>)
   }"

definition rio_chunk :: "rio \<Rightarrow> nat \<Rightarrow> nat" where
  "rio_chunk r len =
     (if rio_max_processing_chunk r \<noteq> 0 \<and> rio_max_processing_chunk r < len then rio_max_processing_chunk r else len)"

definition rio_sum :: "rio \<Rightarrow> byte list \<Rightarrow> nat \<Rightarrow> rio option" where
  "rio_sum r buf n = (if rio_update_cksum r then rioGenericUpdateChecksum r buf n else Some r)"

lemma rio_chunk_bounds: "0 < len \<Longrightarrow> 0 < rio_chunk r len" "rio_chunk r len \<le> len"
  by (auto simp: rio_chunk_def)

function rioWrite :: "(nat \<Rightarrow> byte) \<Rightarrow> rio \<Rightarrow> byte list \<Rightarrow> nat \<Rightarrow> (rio \<times> bool) option" where
  "rioWrite junk r buf len =
     (if len = 0 then Some (r, True)
      else do {
        let n = rio_chunk r len;
        r1 \<leftarrow> rio_sum r buf n;
        (r2, ok) \<leftarrow> rioBufferWrite junk r1 buf n;
        if ok then rioWrite junk (r2\<lparr>rio_processed_bytes := rio_processed_bytes r2 + n\<rparr>) (drop n buf) (len - n)
        else Some (r2, False)
      })"
  by pat_completeness auto
termination
  by (relation "measure (\<lambda>(junk, r, buf, len). len)") (auto simp: rio_chunk_bounds)

declare rioWrite.simps [simp del]

function rioRead :: "rio \<Rightarrow> nat \<Rightarrow> (rio \<times> byte list option) option" where
  "rioRead r len =
     (if len = 0 then Some (r, Some [])
      else do {
        let n = rio_chunk r len;
        (r1, b) \<leftarrow> rioBufferRead r n;
        (case b of
           None \<Rightarrow> Some (r1, None)
         | Some t \<Rightarrow> do {
             r2 \<leftarrow> rio_sum r1 t n;
             (r3, u) \<leftarrow> rioRead (r2\<lparr>rio_processed_bytes := rio_processed_bytes r2 + n\<rparr>) (len - n);
             Some (r3, map_option (\<lambda>u. t @ u) u)
           })
      })"
  by pat_completeness auto
termination
  by (relation "measure (\<lambda>(r, len). len)") (auto simp: rio_chunk_bounds)

declare rioRead.simps [simp del]

definition rioTell :: "rio \<Rightarrow> nat" where
  "rioTell r = rioBufferTell r"

section \<open>Replies in a stream\<close>

text \<open>\<open>*<count>\r\n\<close> and \<open>$<count>\r\n<payload>\r\n\<close>; the count is an \<open>int\<close>, and the result is the number of
  bytes written, or 0.\<close>

definition rioWriteBulkCount :: "(nat \<Rightarrow> byte) \<Rightarrow> rio \<Rightarrow> byte \<Rightarrow> u32 \<Rightarrow> (rio \<times> nat) option" where
  "rioWriteBulkCount junk r prefix count = do {
     (t, l) \<leftarrow> ll2string (map junk [1..<128]) 127 (scast count);
     let clen = 1 + unat l;
     cbuf \<leftarrow> wr (prefix # t) clen 13;
     cbuf \<leftarrow> wr cbuf (clen + 1) 10;
     (r, ok) \<leftarrow> rioWrite junk r cbuf (clen + 2);
     Some (r, if ok then clen + 2 else 0)
   }"

definition rioWriteBulkString :: "(nat \<Rightarrow> byte) \<Rightarrow> rio \<Rightarrow> byte list \<Rightarrow> nat \<Rightarrow> (rio \<times> nat) option" where
  "rioWriteBulkString junk r buf len = do {
     (r, nwritten) \<leftarrow> rioWriteBulkCount junk r (ch CHR ''$'') (of_nat len);
     if nwritten = 0 then Some (r, 0)
     else do {
       (r, ok) \<leftarrow> (if len > 0 then rioWrite junk r buf len else Some (r, True));
       if \<not> ok then Some (r, 0)
       else do {
         (r, ok) \<leftarrow> rioWrite junk r [13, 10] 2;
         Some (r, if ok then nwritten + len + 2 else 0)
       }
     }
   }"

definition rioWriteBulkLongLong :: "(nat \<Rightarrow> byte) \<Rightarrow> rio \<Rightarrow> u64 \<Rightarrow> (rio \<times> nat) option" where
  "rioWriteBulkLongLong junk r l = do {
     (lbuf, llen) \<leftarrow> ll2string (map junk [0..<32]) 32 l;
     rioWriteBulkString junk r lbuf (unat llen)
   }"

section \<open>Writing\<close>

text \<open>The effect of writing the bytes \<open>b\<close>.\<close>

definition rio_wrote :: "rio \<Rightarrow> byte list \<Rightarrow> rio \<Rightarrow> bool" where
  "rio_wrote r b r' \<longleftrightarrow>
     sds_ok (rio_ptr r') \<and> sds_str (rio_ptr r') = sds_str (rio_ptr r) @ b \<and> rio_pos r' = rio_pos r + length b \<and>
     rio_update_cksum r' = rio_update_cksum r \<and> rio_max_processing_chunk r' = rio_max_processing_chunk r \<and>
     rio_cksum r' = (if rio_update_cksum r then crc_ref (rio_cksum r) b else rio_cksum r) \<and>
     rio_processed_bytes r' = rio_processed_bytes r + length b"

text \<open>There is room for \<open>n\<close> more bytes in an sds string.\<close>

definition rio_room :: "rio \<Rightarrow> nat \<Rightarrow> bool" where
  "rio_room r n \<longleftrightarrow> sds_ok (rio_ptr r) \<and> sdslen (rio_ptr r) + n + SDS_MAX_PREALLOC < 2 ^ 32"

lemma rio_wrote_nil [simp]: "sds_ok (rio_ptr r) \<Longrightarrow> rio_wrote r [] r"
  by (simp add: rio_wrote_def)

lemma rio_wrote_trans [trans]: "rio_wrote r a r1 \<Longrightarrow> rio_wrote r1 b r2 \<Longrightarrow> rio_wrote r (a @ b) r2"
  by (auto simp: rio_wrote_def crc_ref_append)

lemma rio_room_wrote: "rio_room r (length b + n) \<Longrightarrow> rio_wrote r b r' \<Longrightarrow> rio_room r' n"
  using length_sds_str [of "rio_ptr r"] length_sds_str [of "rio_ptr r'"] by (auto simp: rio_room_def rio_wrote_def)

lemma rio_room_mono: "rio_room r n \<Longrightarrow> m \<le> n \<Longrightarrow> rio_room r m"
  by (auto simp: rio_room_def)

lemma rio_sum_ok:
  "n \<le> length b \<Longrightarrow> rio_sum r b n = Some (r\<lparr>rio_cksum := if rio_update_cksum r then crc_ref (rio_cksum r) (take n b) else rio_cksum r\<rparr>)"
  by (simp add: rio_sum_def rioGenericUpdateChecksum_def crc64_def memread_ok crc64_loop_ref)

lemma rioWrite_ok:
  assumes "rio_room r len" "len \<le> length b"
  shows "\<exists>r'. rioWrite junk r b len = Some (r', True) \<and> rio_wrote r (take len b) r'"
  using assms
proof (induction junk r b len rule: rioWrite.induct)
  case (1 junk r b len)
  show ?case
  proof (cases "len = 0")
    case True
    then show ?thesis using "1.prems" by (subst rioWrite.simps) (simp add: rio_room_def)
  next
    case False
    define n where "n = rio_chunk r len"
    have n: "n \<le> len" "0 < n" using rio_chunk_bounds False by (simp_all add: n_def)
    define r1 where "r1 = r\<lparr>rio_cksum := if rio_update_cksum r then crc_ref (rio_cksum r) (take n b) else rio_cksum r\<rparr>"
    have sum: "rio_sum r b n = Some r1" using rio_sum_ok [of n b r] n "1.prems"(2) by (simp add: r1_def)
    obtain s f where s: "sdscatlen junk (rio_ptr r) b n = Some s" "sds_is s (sds_str (rio_ptr r) @ take n b) f"
      using sdscatlen_is [OF sds_is_exists, of "rio_ptr r" n b junk] "1.prems" n length_sds_str [of "rio_ptr r"]
      by (auto simp: rio_room_def)
    define r2 where "r2 = r1\<lparr>rio_ptr := s, rio_pos := rio_pos r1 + n\<rparr>"
    have bw: "rioBufferWrite junk r1 b n = Some (r2, True)" using s(1) by (simp add: rioBufferWrite_def r2_def r1_def)
    define r3 where "r3 = r2\<lparr>rio_processed_bytes := rio_processed_bytes r2 + n\<rparr>"
    have w: "rio_wrote r (take n b) r3"
      using s(2) n "1.prems"(2) by (auto simp: rio_wrote_def r3_def r2_def r1_def sds_is_def)
    have room: "rio_room r3 (len - n)"
      using rio_room_wrote [OF _ w, of "len - n"] "1.prems" n by simp
    obtain r' where r': "rioWrite junk r3 (drop n b) (len - n) = Some (r', True)" "rio_wrote r3 (take (len - n) (drop n b)) r'"
      using "1.IH" [OF False n_def sum bw refl, folded r3_def] room "1.prems"(2) diff_le_mono [of len "length b" n] by auto
    have "take len b = take n b @ take (len - n) (drop n b)" using n by (metis le_add_diff_inverse take_add)
    then show ?thesis
      using rio_wrote_trans [OF w r'(2)] r'(1) False
      by (subst rioWrite.simps) (simp add: Let_def n_def [symmetric] sum bw r3_def [symmetric])
  qed
qed

lemma rioWrite_all: "rio_room r (length b) \<Longrightarrow> \<exists>r'. rioWrite junk r b (length b) = Some (r', True) \<and> rio_wrote r b r'"
  using rioWrite_ok [of r "length b" b junk] by simp

definition bulk_count :: "byte \<Rightarrow> int \<Rightarrow> byte list" where
  "bulk_count prefix n = prefix # sdec n @ [13, 10]"

lemma rioWriteBulkCount_ok:
  assumes "rio_room r 24"
  shows "\<exists>r'. rioWriteBulkCount junk r prefix count = Some (r', length (bulk_count prefix (sint count))) \<and>
    rio_wrote r (bulk_count prefix (sint count)) r'"
proof -
  define d where "d = sdec (sint count)"
  have sc: "sint (scast count :: u64) = sint count" by (rule sint_up_scast) (simp add: is_up)
  then have d: "length d \<le> 20" "sdec (sint (scast count :: u64)) = d" using length_sdec [of "scast count"] by (simp_all add: d_def)
  define z where "z = drop (length d + 1) (map junk [1..<128])"
  have ll: "ll2string (map junk [1..<128]) 127 (scast count) = Some (d @ [0] @ z, of_nat (length d))"
    using ll2string_sdec [of 127 "map junk [1..<128]" "scast count"] d by (simp add: z_def)
  obtain x z' where z: "z = x # z'" using d(1) by (cases z) (auto simp: z_def)
  have ln: "unat (of_nat (length d) :: u32) = length d" using d(1) by (intro unat_of_nat_u32) simp
  have w1: "wr (prefix # d @ [0] @ z) (1 + length d) 13 = Some ((prefix # d) @ 13 # x # z')"
    using z by (simp add: wr_def list_update_append)
  have w2: "wr ((prefix # d) @ 13 # x # z') (1 + length d + 1) 10 = Some ((prefix # d @ [13, 10]) @ z')"
    by (simp add: wr_def list_update_append)
  have b: "prefix # d @ [13, 10] = bulk_count prefix (sint count)" by (simp add: bulk_count_def d_def)
  have len: "1 + length d + 2 = length (bulk_count prefix (sint count))" unfolding b [symmetric] by simp
  have "rio_room r (length (bulk_count prefix (sint count)))" using rio_room_mono [OF assms] d(1) unfolding len [symmetric] by simp
  then obtain r' where "rioWrite junk r (bulk_count prefix (sint count) @ z') (length (bulk_count prefix (sint count))) = Some (r', True)"
      "rio_wrote r (bulk_count prefix (sint count)) r'"
    using rioWrite_ok [of r "length (bulk_count prefix (sint count))" "bulk_count prefix (sint count) @ z'" junk] by auto
  then show ?thesis unfolding rioWriteBulkCount_def ll bind.simps prod.case Let_def ln w1 w2 b len by simp
qed

definition bulk_string :: "byte list \<Rightarrow> byte list" where
  "bulk_string t = bulk_count (ch CHR ''$'') (int (length t)) @ t @ [13, 10]"

lemma rioWriteBulkString_ok:
  assumes "rio_room r (length t + 26)" "length t < 2 ^ 31"
  shows "\<exists>r'. rioWriteBulkString junk r (t @ z) (length t) = Some (r', length (bulk_string t)) \<and> rio_wrote r (bulk_string t) r'"
proof -
  let ?c = "bulk_count (ch CHR ''$'') (int (length t))"
  have s: "sint (of_nat (length t) :: u32) = int (length t)" using sint_of_int_range [of "int (length t)", where ?'a = 32] assms(2) by simp
  have c: "length ?c \<le> 24" using length_sdec [of "of_nat (length t)"] sint_of_int_range [of "int (length t)", where ?'a = 64] assms(2)
    by (simp add: bulk_count_def)
  obtain r1 where r1: "rioWriteBulkCount junk r (ch CHR ''$'') (of_nat (length t)) = Some (r1, length ?c)" "rio_wrote r ?c r1"
    using rioWriteBulkCount_ok [of r junk "ch CHR ''$''" "of_nat (length t)"] rio_room_mono [OF assms(1)] s by auto
  have room1: "rio_room r1 (length t + 2)" using rio_room_wrote [OF _ r1(2)] rio_room_mono [OF assms(1)] c by simp
  obtain r2 where r2: "(if length t > 0 then rioWrite junk r1 (t @ z) (length t) else Some (r1, True)) = Some (r2, True)" "rio_wrote r1 t r2"
  proof (cases "t = []")
    case True
    then show ?thesis using that [of r1] room1 by (simp add: rio_room_def)
  next
    case False
    then show ?thesis using that rioWrite_ok [of r1 "length t" "t @ z" junk] rio_room_mono [OF room1] by auto
  qed
  obtain r3 where r3: "rioWrite junk r2 [13, 10] 2 = Some (r3, True)" "rio_wrote r2 [13, 10] r3"
    using rioWrite_ok [of r2 2 "[13, 10]" junk] rio_room_wrote [OF room1 r2(2)] by auto
  have "rio_wrote r (bulk_string t) r3"
    using rio_wrote_trans [OF r1(2) rio_wrote_trans [OF r2(2) r3(2)]] by (simp add: bulk_string_def)
  moreover have "length ?c \<noteq> 0" by (simp add: bulk_count_def)
  ultimately show ?thesis
    unfolding rioWriteBulkString_def r1(1) bind.simps prod.case r2(1) r3(1) by (simp add: bulk_string_def)
qed

section \<open>Reading\<close>

text \<open>The bytes that are still to be read.\<close>

definition rio_at :: "rio \<Rightarrow> byte list \<Rightarrow> bool" where
  "rio_at r t \<longleftrightarrow> sds_ok (rio_ptr r) \<and> rio_pos r \<le> sdslen (rio_ptr r) \<and> t = drop (rio_pos r) (sds_str (rio_ptr r))"

lemma rio_at_skip:
  assumes "rio_at r t" "n \<le> length t" "rio_ptr r' = rio_ptr r" "rio_pos r' = rio_pos r + n"
  shows "rio_at r' (drop n t)"
proof -
  have "sds_ok (rio_ptr r)" "rio_pos r \<le> sdslen (rio_ptr r)" "t = drop (rio_pos r) (sds_str (rio_ptr r))"
    using assms(1) by (auto simp: rio_at_def)
  moreover from this have "rio_pos r + n \<le> sdslen (rio_ptr r)" using assms(2) length_sds_str [of "rio_ptr r"] by simp
  ultimately show ?thesis using assms(3,4) by (simp add: rio_at_def add.commute)
qed

lemma rioBufferRead_at:
  assumes "rio_at r t"
  shows "n \<le> length t \<Longrightarrow> rioBufferRead r n = Some (r\<lparr>rio_pos := rio_pos r + n\<rparr>, Some (take n t))"
    "length t < n \<Longrightarrow> n < 2 ^ 64 \<Longrightarrow> rioBufferRead r n = Some (r, None)"
proof -
  let ?s = "rio_ptr r"
  have ok: "sds_ok ?s" "rio_pos r \<le> sdslen ?s" "t = drop (rio_pos r) (sds_str ?s)" using assms by (auto simp: rio_at_def)
  have len: "length t = sdslen ?s - rio_pos r" using ok length_sds_str [OF ok(1)] by simp
  have "sdslen ?s < 2 ^ 32" using unsigned_less [of "sds_len ?s", where ?'a = nat] by (simp add: sdslen_def)
  then have u: "unat (of_nat (length t) :: u64) = length t" using len by (intro unat_of_nat_small) simp
  have diff: "(of_nat (sdslen ?s) - of_nat (rio_pos r) :: u64) = of_nat (length t)" using ok(2) len by simp
  show "rioBufferRead r n = Some (r\<lparr>rio_pos := rio_pos r + n\<rparr>, Some (take n t))" if n: "n \<le> length t"
  proof -
    have "unat (of_nat n :: u64) = n" using n len \<open>sdslen ?s < 2 ^ 32\<close> by (intro unat_of_nat_small) simp
    then have "\<not> (of_nat (length t) :: u64) < of_nat n" using n u by (simp add: word_less_nat_alt)
    moreover have "memread (sds_buf ?s) (rio_pos r) n = Some (take n t)"
    proof -
      have "sds_str ?s = take (sdslen ?s) (sds_buf ?s)" "sdslen ?s \<le> length (sds_buf ?s)" using ok(1) by (auto simp: sds_str_def sds_ok_def)
      then show ?thesis using n len ok(2,3) by (simp add: memread_def drop_take min_absorb1)
    qed
    ultimately show ?thesis unfolding rioBufferRead_def diff by simp
  qed
  show "rioBufferRead r n = Some (r, None)" if n: "length t < n" "n < 2 ^ 64"
  proof -
    have "unat (of_nat n :: u64) = n" using n(2) by (intro unat_of_nat_small) simp
    then have "(of_nat (length t) :: u64) < of_nat n" using n u by (simp add: word_less_nat_alt)
    then show ?thesis unfolding rioBufferRead_def diff by simp
  qed
qed

lemma rioRead_ok:
  assumes "rio_at r (b @ t)"
  shows "\<exists>r'. rioRead r (length b) = Some (r', Some b) \<and> rio_at r' t \<and> rio_ptr r' = rio_ptr r \<and> rio_pos r' = rio_pos r + length b \<and>
    rio_update_cksum r' = rio_update_cksum r \<and>
    rio_cksum r' = (if rio_update_cksum r then crc_ref (rio_cksum r) b else rio_cksum r)"
  using assms
proof (induction "length b" arbitrary: r b rule: less_induct)
  case less
  show ?case
  proof (cases "b = []")
    case True
    then show ?thesis using less.prems by (subst rioRead.simps) simp
  next
    case False
    define n where "n = rio_chunk r (length b)"
    have n: "n \<le> length b" "0 < n" using rio_chunk_bounds False by (simp_all add: n_def)
    define r1 where "r1 = r\<lparr>rio_pos := rio_pos r + n\<rparr>"
    have rd: "rioBufferRead r n = Some (r1, Some (take n b))" using rioBufferRead_at(1) [OF less.prems, of n] n by (simp add: r1_def)
    define r2 where "r2 = r1\<lparr>rio_cksum := if rio_update_cksum r then crc_ref (rio_cksum r) (take n b) else rio_cksum r\<rparr>"
    have sum: "rio_sum r1 (take n b) n = Some r2" using rio_sum_ok [of n "take n b" r1] n by (simp add: r2_def r1_def)
    define r3 where "r3 = r2\<lparr>rio_processed_bytes := rio_processed_bytes r2 + n\<rparr>"
    have at: "rio_at r3 (drop n b @ t)" using rio_at_skip [OF less.prems, of n r3] n by (simp add: r3_def r2_def r1_def)
    have "length (drop n b) < length b" using n by simp
    from less.hyps [OF this at] obtain r' where r': "rioRead r3 (length (drop n b)) = Some (r', Some (drop n b))" "rio_at r' t"
        "rio_ptr r' = rio_ptr r3" "rio_pos r' = rio_pos r3 + length (drop n b)" "rio_update_cksum r' = rio_update_cksum r3"
        "rio_cksum r' = (if rio_update_cksum r3 then crc_ref (rio_cksum r3) (drop n b) else rio_cksum r3)"
      by blast
    have "crc_ref (crc_ref c (take n b)) (drop n b) = crc_ref c b" for c by (simp flip: crc_ref_append)
    then show ?thesis using r' False n
      by (subst rioRead.simps) (simp add: Let_def n_def [symmetric] rd sum r3_def [symmetric] length_drop [symmetric] del: length_drop,
          simp add: r3_def r2_def r1_def)
  qed
qed

lemma rioRead_short:
  assumes "rio_at r t" "length t < n" "n < 2 ^ 64"
  shows "\<exists>r'. rioRead r n = Some (r', None)"
  using assms
proof (induction n arbitrary: r t rule: less_induct)
  case (less n)
  define m where "m = rio_chunk r n"
  have m: "m \<le> n" "0 < m" using rio_chunk_bounds less.prems by (simp_all add: m_def)
  show ?case
  proof (cases "m \<le> length t")
    case True
    define r1 where "r1 = r\<lparr>rio_pos := rio_pos r + m\<rparr>"
    have rd: "rioBufferRead r m = Some (r1, Some (take m t))" using rioBufferRead_at(1) [OF less.prems(1) True] by (simp add: r1_def)
    obtain r2 where r2: "rio_sum r1 (take m t) m = Some r2" "rio_ptr r2 = rio_ptr r1" "rio_pos r2 = rio_pos r1"
      using rio_sum_ok [of m "take m t" r1] True by auto
    define r3 where "r3 = r2\<lparr>rio_processed_bytes := rio_processed_bytes r2 + m\<rparr>"
    have at: "rio_at r3 (drop m t)" using rio_at_skip [OF less.prems(1) True, of r3] r2 by (simp add: r3_def r1_def)
    have "n - m < n" "length (drop m t) < n - m" "n - m < 2 ^ 64" using m True less.prems(2,3) by auto
    from less.IH [OF this(1) at this(2,3)] obtain r' where "rioRead r3 (n - m) = Some (r', None)" by blast
    then show ?thesis using less.prems(2) by (subst rioRead.simps) (simp add: Let_def m_def [symmetric] rd r2(1) r3_def [symmetric])
  next
    case False
    then have "rioBufferRead r m = Some (r, None)" using rioBufferRead_at(2) [OF less.prems(1)] m less.prems(3) by simp
    then show ?thesis using less.prems(2) by (subst rioRead.simps) (simp add: Let_def m_def [symmetric])
  qed
qed

section \<open>Properties\<close>

text \<open>C32: bytes written in pieces of any size and read in pieces of any size come back, with both
  checksums equal to the checksum of the bytes in one piece; a read past the end fails.\<close>

theorem rio_write_read:
  fixes m m' :: nat
  assumes "sds_ok s" "sdslen s + length b + SDS_MAX_PREALLOC < 2 ^ 32"
  defines "w \<equiv> (rioInitWithBuffer s)\<lparr>rio_pos := sdslen s, rio_update_cksum := True, rio_max_processing_chunk := m\<rparr>"
  shows "\<exists>w'. rioWrite junk w b (length b) = Some (w', True) \<and> sds_str (rio_ptr w') = sds_str s @ b \<and>
    rioTell w' = sdslen s + length b \<and> rio_processed_bytes w' = length b \<and> Some (rio_cksum w') = crc64 0 b (length b) \<and>
    (\<exists>r'. rioRead (w\<lparr>rio_ptr := rio_ptr w', rio_max_processing_chunk := m'\<rparr>) (length b) = Some (r', Some b) \<and>
      rio_cksum r' = rio_cksum w' \<and> (\<forall>n. 0 < n \<and> n < 2 ^ 64 \<longrightarrow> (\<exists>r''. rioRead r' n = Some (r'', None))))"
proof -
  have "rio_room w (length b)" using assms by (simp add: rio_room_def w_def rioInitWithBuffer_def)
  then obtain w' where w': "rioWrite junk w b (length b) = Some (w', True)" "rio_wrote w b w'" using rioWrite_all by blast
  have p: "sds_ok (rio_ptr w')" "sds_str (rio_ptr w') = sds_str s @ b" "rio_pos w' = sdslen s + length b"
      "rio_processed_bytes w' = length b" "rio_cksum w' = crc_ref 0 b"
    using w'(2) by (simp_all add: rio_wrote_def w_def rioInitWithBuffer_def)
  define r where "r = w\<lparr>rio_ptr := rio_ptr w', rio_max_processing_chunk := m'\<rparr>"
  have "rio_at r (b @ [])"
    using p(1,2) length_sds_str [OF assms(1)] length_sds_str [OF p(1)] by (simp add: rio_at_def r_def w_def)
  then obtain r' where r': "rioRead r (length b) = Some (r', Some b)" "rio_at r' []" "rio_cksum r' = crc_ref 0 b"
    using rioRead_ok [of r b "[]"] by (auto simp: r_def w_def rioInitWithBuffer_def)
  have "crc64 0 b (length b) = Some (crc_ref 0 b)" by (simp add: crc64_def memread_ok crc64_loop_ref)
  then show ?thesis
    using w'(1) p r'(1,3) rioRead_short [OF r'(2)] by (auto simp: r_def rioTell_def rioBufferTell_def)
qed

theorem rio_write_read_witness:
  "\<exists>w'. rioWrite (\<lambda>i. 170) \<lparr>rio_ptr = \<lparr>sds_len = 0, sds_free = 0, sds_buf = [0]\<rparr>, rio_pos = 0, rio_update_cksum = True,
      rio_cksum = 0, rio_processed_bytes = 0, rio_max_processing_chunk = 2\<rparr> [104, 101, 121] 3 = Some (w', True) \<and>
    sds_str (rio_ptr w') = [104, 101, 121]"
proof -
  let ?s = "\<lparr>sds_len = 0, sds_free = 0, sds_buf = [0]\<rparr>"
  have a: "sds_ok ?s" "sds_str ?s = []" "sdslen ?s = 0"
    by (simp_all add: sds_ok_def sdslen_def sdsavail_def sds_str_def)
  have b: "sdslen ?s + length [104, 101, 121 :: byte] + SDS_MAX_PREALLOC < 2 ^ 32" by (simp add: sdslen_def)
  have l: "length [104, 101, 121 :: byte] = 3" by simp
  from rio_write_read [OF a(1) b, of "\<lambda>i. 170" 2 2] show ?thesis unfolding a(2,3) l by (auto simp: rioInitWithBuffer_def)
qed

text \<open>The three writers of the protocol append exactly the bulk count, the bulk string and the
  decimal spelling of a number as a bulk string, and return the number of bytes.\<close>

theorem rio_bulk:
  assumes "sds_ok (rio_ptr r)" "sdslen (rio_ptr r) + length t < 2 ^ 31"
  shows "(\<exists>r'. rioWriteBulkCount junk r prefix count = Some (r', length (bulk_count prefix (sint count))) \<and>
      sds_str (rio_ptr r') = sds_str (rio_ptr r) @ bulk_count prefix (sint count)) \<and>
    (\<exists>r'. rioWriteBulkString junk r (t @ z) (length t) = Some (r', length (bulk_string t)) \<and>
      sds_str (rio_ptr r') = sds_str (rio_ptr r) @ bulk_string t) \<and>
    (\<exists>r'. rioWriteBulkLongLong junk r v = Some (r', length (bulk_string (sdec (sint v)))) \<and>
      sds_str (rio_ptr r') = sds_str (rio_ptr r) @ bulk_string (sdec (sint v)))"
proof (intro conjI)
  show "\<exists>r'. rioWriteBulkCount junk r prefix count = Some (r', length (bulk_count prefix (sint count))) \<and>
      sds_str (rio_ptr r') = sds_str (rio_ptr r) @ bulk_count prefix (sint count)"
    using rioWriteBulkCount_ok [of r junk prefix count] assms by (auto simp: rio_room_def rio_wrote_def)
  show "\<exists>r'. rioWriteBulkString junk r (t @ z) (length t) = Some (r', length (bulk_string t)) \<and>
      sds_str (rio_ptr r') = sds_str (rio_ptr r) @ bulk_string t"
    using rioWriteBulkString_ok [of r t junk z] assms by (auto simp: rio_room_def rio_wrote_def)
  define d where "d = sdec (sint v)"
  have d: "length d \<le> 20" using length_sdec [of v] by (simp add: d_def)
  obtain z' where "ll2string (map junk [0..<32]) 32 v = Some (d @ z', of_nat (length d))"
    using ll2string_sdec [of 32 "map junk [0..<32]" v] d by (auto simp: d_def)
  moreover have "unat (of_nat (length d) :: u32) = length d" using d by (intro unat_of_nat_u32) simp
  ultimately show "\<exists>r'. rioWriteBulkLongLong junk r v = Some (r', length (bulk_string (sdec (sint v)))) \<and>
      sds_str (rio_ptr r') = sds_str (rio_ptr r) @ bulk_string (sdec (sint v))"
    using rioWriteBulkString_ok [of r d junk z'] d assms
    by (auto simp: rioWriteBulkLongLong_def rio_room_def rio_wrote_def d_def)
qed

theorem rio_bulk_witness:
  "\<exists>r'. rioWriteBulkString (\<lambda>i. 170) (rioInitWithBuffer \<lparr>sds_len = 0, sds_free = 0, sds_buf = [0]\<rparr>) [71, 69, 84] 3 = Some (r', 9) \<and>
    sds_str (rio_ptr r') = [36, 51, 13, 10, 71, 69, 84, 13, 10]"
proof -
  let ?s = "\<lparr>sds_len = 0, sds_free = 0, sds_buf = [0]\<rparr>"
  have a: "sds_ok (rio_ptr (rioInitWithBuffer ?s))" "sds_str (rio_ptr (rioInitWithBuffer ?s)) = []"
    by (simp_all add: sds_ok_def sdslen_def sdsavail_def sds_str_def rioInitWithBuffer_def)
  have b: "sdslen (rio_ptr (rioInitWithBuffer ?s)) + length [71, 69, 84 :: byte] < 2 ^ 31" by (simp add: sdslen_def rioInitWithBuffer_def)
  have s: "bulk_string [71, 69, 84] = [36, 51, 13, 10, 71, 69, 84, 13, 10]"
    by (simp add: bulk_string_def bulk_count_def sdec_def dec.simps)
  have l: "length [71, 69, 84 :: byte] = 3" "length [36, 51, 13, 10, 71, 69, 84, 13, 10 :: byte] = 9" by simp_all
  from rio_bulk [OF a(1) b, of "\<lambda>i. 170" 0 0 "[]" 0] show ?thesis unfolding s a(2) append_Nil2 append_Nil l by blast
qed

end
