(* ===== verification/Lzf.thy ===== *)
theory Lzf
  imports Redis_Base
begin

text \<open>
  The LZF compressor of the dump files: \<open>lzf_compress\<close> of \<open>src/redis-2.8.24/src/lzf_c.c\<close> in the
  configuration of \<open>lzfP.h\<close> (\<open>HLOG\<close> 16, \<open>VERY_FAST\<close>, the hash table not initialised, input checks
  on) and \<open>lzf_decompress\<close> of \<open>lzf_d.c\<close>.

  Pointers into the input and the output are offsets. The hash table holds pointers into the input
  as signed offsets; its first content is a parameter, because the code reads it uninitialised.
\<close>

section \<open>Compression\<close>

abbreviation MAX_LIT :: nat where "MAX_LIT \<equiv> 32"
abbreviation MAX_OFF :: int where "MAX_OFF \<equiv> 8192"
abbreviation MAX_REF :: nat where "MAX_REF \<equiv> 264"

definition FRST :: "byte list \<Rightarrow> nat \<Rightarrow> u32 option" where
  "FRST inp p = do {
     a \<leftarrow> rd inp p;
     b \<leftarrow> rd inp (p + 1);
     Some (push_bit 8 (ucast a) OR ucast b)
   }"

definition NEXT :: "byte list \<Rightarrow> u32 \<Rightarrow> nat \<Rightarrow> u32 option" where
  "NEXT inp v p = do {
     c \<leftarrow> rd inp (p + 2);
     Some (push_bit 8 v OR ucast c)
   }"

definition IDX :: "u32 \<Rightarrow> nat" where
  "IDX h = unat ((drop_bit 8 h - h * 5) AND 0xFFFF)"

text \<open>The local variables of the main loop.\<close>

record lzf_state =
  lz_ip :: nat
  lz_op :: nat
  lz_lit :: nat
  lz_hval :: u32
  lz_htab :: "nat \<Rightarrow> int"
  lz_out :: "byte list"

text \<open>The test that the slot points to a match; pointer differences are unsigned in the code, so a
  pointer above \<open>ip\<close> is out of range.\<close>

definition is_match :: "byte list \<Rightarrow> nat \<Rightarrow> nat \<Rightarrow> int \<Rightarrow> bool option" where
  "is_match inp in_end ip ref =
     (let off = int ip - ref - 1
      in if 0 \<le> off \<and> off < MAX_OFF \<and> ip + 4 < in_end \<and> 0 < ref then do {
           a \<leftarrow> memread inp (nat ref) 2;
           b \<leftarrow> memread inp ip 2;
           if a = b then do {
             r \<leftarrow> rd inp (nat ref + 2);
             i \<leftarrow> rd inp (ip + 2);
             Some (r = i)
           } else Some False
         } else Some False)"

text \<open>The unrolled comparisons, \<open>k\<close> of them; the flag says that one failed.\<close>

fun match_unrolled :: "byte list \<Rightarrow> nat \<Rightarrow> nat \<Rightarrow> nat \<Rightarrow> nat \<Rightarrow> (nat \<times> bool) option" where
  "match_unrolled inp ref ip 0 len = Some (len, False)"
| "match_unrolled inp ref ip (Suc k) len = do {
     a \<leftarrow> rd inp (ref + (len + 1));
     b \<leftarrow> rd inp (ip + (len + 1));
     if a \<noteq> b then Some (len + 1, True) else match_unrolled inp ref ip k (len + 1)
   }"

function match_tail :: "byte list \<Rightarrow> nat \<Rightarrow> nat \<Rightarrow> nat \<Rightarrow> nat \<Rightarrow> nat option" where
  "match_tail inp ref ip maxlen len =
     (if len + 1 < maxlen then do {
        a \<leftarrow> rd inp (ref + (len + 1));
        b \<leftarrow> rd inp (ip + (len + 1));
        if a = b then match_tail inp ref ip maxlen (len + 1) else Some (len + 1)
      } else Some (len + 1))"
  by pat_completeness auto
termination
  by (relation "measure (\<lambda>(inp, ref, ip, maxlen, len). maxlen - len)") auto

declare match_tail.simps [simp del]

definition match_len :: "byte list \<Rightarrow> nat \<Rightarrow> nat \<Rightarrow> nat \<Rightarrow> nat option" where
  "match_len inp ref ip maxlen =
     (if maxlen > 16 then do {
        (len, differ) \<leftarrow> match_unrolled inp ref ip 16 2;
        if differ then Some len else match_tail inp ref ip maxlen len
      } else match_tail inp ref ip maxlen 2)"

text \<open>\<open>op [- lit - 1] = lit - 1\<close>, which ends a run of literals, or spoils its unused first byte.\<close>

definition stop_run :: "byte list \<Rightarrow> nat \<Rightarrow> nat \<Rightarrow> byte list option" where
  "stop_run out op lit = (if lit < op then wr out (op - lit - 1) (of_nat lit - 1) else None)"

definition put_ref :: "byte list \<Rightarrow> nat \<Rightarrow> nat \<Rightarrow> nat \<Rightarrow> (byte list \<times> nat) option" where
  "put_ref out op off len = do {
     (out, op) \<leftarrow>
       (if len < 7 then do { out \<leftarrow> wr out op (of_nat (off div 256 + len * 32)); Some (out, op + 1) }
        else do {
          out \<leftarrow> wr out op (of_nat (off div 256 + 7 * 32));
          out \<leftarrow> wr out (op + 1) (of_nat (len - 7));
          Some (out, op + 2)
        });
     out \<leftarrow> wr out op (of_nat off);
     Some (out, op + 1)
   }"

text \<open>How an iteration ends: the output is full, the loop breaks, or it goes on.\<close>

datatype lzf_next = Full "byte list" | Break lzf_state | Go lzf_state

text \<open>The two positions behind a match that enter the table.\<close>

definition rehash_match :: "byte list \<Rightarrow> nat \<Rightarrow> (nat \<Rightarrow> int) \<Rightarrow> ((nat \<Rightarrow> int) \<times> u32) option" where
  "rehash_match inp ip htab = do {
     hval \<leftarrow> FRST inp (ip - 2);
     hval \<leftarrow> NEXT inp hval (ip - 2);
     let htab = htab(IDX hval := int (ip - 2));
     hval \<leftarrow> NEXT inp hval (ip - 1);
     let htab = htab(IDX hval := int (ip - 1));
     Some (htab, hval)
   }"

definition lzf_match_step :: "byte list \<Rightarrow> nat \<Rightarrow> nat \<Rightarrow> lzf_state \<Rightarrow> int \<Rightarrow> lzf_next option" where
  "lzf_match_step inp in_end out_end st ref = do {
     let ip = lz_ip st;
     let off = nat (int ip - ref - 1);
     let maxlen = (if in_end - ip - 2 > MAX_REF then MAX_REF else in_end - ip - 2);
     out \<leftarrow> stop_run (lz_out st) (lz_op st) (lz_lit st);
     let op = (if lz_lit st = 0 then lz_op st - 1 else lz_op st);
     if op + 3 + 1 \<ge> out_end then Some (Full out)
     else do {
       len \<leftarrow> match_len inp (nat ref) ip maxlen;
       let len = len - 2;
       (out, op) \<leftarrow> put_ref out op off len;
       let ip = ip + 1 + (len + 1);
       let st = st\<lparr>lz_ip := ip, lz_op := op + 1, lz_lit := 0, lz_out := out\<rparr>;
       if ip + 2 \<ge> in_end then Some (Break st)
       else do {
         (htab, hval) \<leftarrow> rehash_match inp ip (lz_htab st);
         Some (Go (st\<lparr>lz_hval := hval, lz_htab := htab\<rparr>))
       }
     }
   }"

text \<open>\<open>lit++; *op++ = *ip++\<close> and the end of a full run.\<close>

definition put_literal :: "byte list \<Rightarrow> lzf_state \<Rightarrow> lzf_state option" where
  "put_literal inp st = do {
     c \<leftarrow> rd inp (lz_ip st);
     out \<leftarrow> wr (lz_out st) (lz_op st) c;
     let lit = lz_lit st + 1;
     let op = lz_op st + 1;
     if lit = MAX_LIT then do {
       out \<leftarrow> stop_run out op lit;
       Some (st\<lparr>lz_ip := lz_ip st + 1, lz_op := op + 1, lz_lit := 0, lz_out := out\<rparr>)
     } else Some (st\<lparr>lz_ip := lz_ip st + 1, lz_op := op, lz_lit := lit, lz_out := out\<rparr>)
   }"

definition lzf_step :: "byte list \<Rightarrow> nat \<Rightarrow> nat \<Rightarrow> lzf_state \<Rightarrow> lzf_next option" where
  "lzf_step inp in_end out_end st = do {
     hval \<leftarrow> NEXT inp (lz_hval st) (lz_ip st);
     let ref = lz_htab st (IDX hval);
     let st = st\<lparr>lz_hval := hval, lz_htab := (lz_htab st)(IDX hval := int (lz_ip st))\<rparr>;
     m \<leftarrow> is_match inp in_end (lz_ip st) ref;
     if m then lzf_match_step inp in_end out_end st ref
     else if lz_op st \<ge> out_end then Some (Full (lz_out st))
     else do { st \<leftarrow> put_literal inp st; Some (Go st) }
   }"

lemma put_literal_ip: "put_literal inp st = Some st' \<Longrightarrow> lz_ip st' = lz_ip st + 1"
  by (auto simp: put_literal_def Let_def split: bind_splits if_splits)

lemma lzf_step_progress:
  assumes "lzf_step inp in_end out_end st = Some (Go st')"
  shows "lz_ip st < lz_ip st'"
  using assms put_literal_ip
  by (fastforce simp: lzf_step_def lzf_match_step_def Let_def split: bind_splits if_splits)

function lzf_loop :: "byte list \<Rightarrow> nat \<Rightarrow> nat \<Rightarrow> lzf_state \<Rightarrow> lzf_next option" where
  "lzf_loop inp in_end out_end st =
     (if lz_ip st + 2 < in_end then
        (case lzf_step inp in_end out_end st of
           None \<Rightarrow> None
         | Some (Full out) \<Rightarrow> Some (Full out)
         | Some (Break st') \<Rightarrow> Some (Break st')
         | Some (Go st') \<Rightarrow> lzf_loop inp in_end out_end st')
      else Some (Break st))"
  by pat_completeness auto
termination
  by (relation "measure (\<lambda>(inp, in_end, out_end, st). in_end - lz_ip st)") (auto dest: lzf_step_progress)

declare lzf_loop.simps [simp del]

function lzf_tail :: "byte list \<Rightarrow> nat \<Rightarrow> lzf_state \<Rightarrow> lzf_state option" where
  "lzf_tail inp in_end st =
     (if lz_ip st < in_end then
        (case put_literal inp st of
           None \<Rightarrow> None
         | Some st' \<Rightarrow> lzf_tail inp in_end st')
      else Some st)"
  by pat_completeness auto
termination
  by (relation "measure (\<lambda>(inp, in_end, st). in_end - lz_ip st)") (auto dest: put_literal_ip)

declare lzf_tail.simps [simp del]

text \<open>The output buffer and the number of bytes written, 0 when they do not fit.\<close>

definition lzf_compress :: "(nat \<Rightarrow> int) \<Rightarrow> byte list \<Rightarrow> nat \<Rightarrow> byte list \<Rightarrow> nat \<Rightarrow> (byte list \<times> nat) option" where
  "lzf_compress htab inp in_len out out_len =
     (if in_len = 0 \<or> out_len = 0 then Some (out, 0)
      else do {
        hval \<leftarrow> FRST inp 0;
        r \<leftarrow> lzf_loop inp in_len out_len
          \<lparr>lz_ip = 0, lz_op = 1, lz_lit = 0, lz_hval = hval, lz_htab = htab, lz_out = out\<rparr>;
        (case r of
           Break st \<Rightarrow>
             if lz_op st + 3 > out_len then Some (lz_out st, 0)
             else do {
               st \<leftarrow> lzf_tail inp in_len st;
               out \<leftarrow> stop_run (lz_out st) (lz_op st) (lz_lit st);
               Some (out, if lz_lit st = 0 then lz_op st - 1 else lz_op st)
             }
         | Full out \<Rightarrow> Some (out, 0)
         | Go st \<Rightarrow> None)
      })"

section \<open>Decompression\<close>

text \<open>The copy of a back reference, byte by byte, so that it may overlap with what it writes.\<close>

fun copy_ref :: "byte list \<Rightarrow> nat \<Rightarrow> nat \<Rightarrow> nat \<Rightarrow> byte list option" where
  "copy_ref out op ref 0 = Some out"
| "copy_ref out op ref (Suc n) = do {
     c \<leftarrow> rd out ref;
     out \<leftarrow> wr out op c;
     copy_ref out (op + 1) (ref + 1) n
   }"

text \<open>One round of the loop: \<open>Inl\<close> is the return of 0 with \<open>E2BIG\<close> or \<open>EINVAL\<close>.\<close>

datatype lzf_error = E2BIG | EINVAL

definition decomp_lit :: "byte list \<Rightarrow> nat \<Rightarrow> nat \<Rightarrow> nat \<Rightarrow> byte list \<Rightarrow> nat \<Rightarrow> nat \<Rightarrow> (lzf_error + nat \<times> byte list \<times> nat) option" where
  "decomp_lit inp in_end ip n out out_end op =
     (if op + n > out_end then Some (Inl E2BIG)
      else if ip + n > in_end then Some (Inl EINVAL)
      else do {
        t \<leftarrow> memread inp ip n;
        out \<leftarrow> memwrite out op t;
        Some (Inr (ip + n, out, op + n))
      })"

definition decomp_ref :: "byte list \<Rightarrow> nat \<Rightarrow> nat \<Rightarrow> nat \<Rightarrow> byte list \<Rightarrow> nat \<Rightarrow> nat \<Rightarrow> (lzf_error + nat \<times> byte list \<times> nat) option" where
  "decomp_ref inp in_end ip ctrl out out_end op =
     (let len = ctrl div 32;
          ref = int op - int (ctrl mod 32) * 256 - 1
      in if ip \<ge> in_end then Some (Inl EINVAL)
         else do {
           (len, ip) \<leftarrow> (if len = 7 then do { c \<leftarrow> rd inp ip; Some (len + unat c, ip + 1) } else Some (len, ip));
           if ip \<ge> in_end then Some (Inl EINVAL)
           else do {
             c \<leftarrow> rd inp ip;
             let ref = ref - int (unat c);
             let ip = ip + 1;
             if op + len + 2 > out_end then Some (Inl E2BIG)
             else if ref < 0 then Some (Inl EINVAL)
             else do {
               out \<leftarrow> copy_ref out op (nat ref) (len + 2);
               Some (Inr (ip, out, op + (len + 2)))
             }
           }
         })"

definition decomp_step :: "byte list \<Rightarrow> nat \<Rightarrow> nat \<Rightarrow> byte list \<Rightarrow> nat \<Rightarrow> nat \<Rightarrow> (lzf_error + nat \<times> byte list \<times> nat) option" where
  "decomp_step inp in_end ip out out_end op = do {
     c \<leftarrow> rd inp ip;
     let ctrl = unat c;
     if ctrl < 32 then decomp_lit inp in_end (ip + 1) (ctrl + 1) out out_end op
     else decomp_ref inp in_end (ip + 1) ctrl out out_end op
   }"

lemma decomp_step_progress:
  assumes "decomp_step inp in_end ip out out_end op = Some (Inr (ip', out', op'))"
  shows "ip < ip'"
  using assms by (auto simp: decomp_step_def decomp_lit_def decomp_ref_def Let_def split: bind_splits if_splits)

function decomp_loop :: "byte list \<Rightarrow> nat \<Rightarrow> nat \<Rightarrow> byte list \<Rightarrow> nat \<Rightarrow> nat \<Rightarrow> (lzf_error + byte list \<times> nat) option" where
  "decomp_loop inp in_end ip out out_end op =
     (case decomp_step inp in_end ip out out_end op of
        None \<Rightarrow> None
      | Some (Inl e) \<Rightarrow> Some (Inl e)
      | Some (Inr (ip', out', op')) \<Rightarrow>
          if ip' < in_end then decomp_loop inp in_end ip' out' out_end op' else Some (Inr (out', op')))"
  by pat_completeness auto
termination
  by (relation "measure (\<lambda>(inp, in_end, ip, out, out_end, op). in_end - ip)") (auto dest: decomp_step_progress)

declare decomp_loop.simps [simp del]

text \<open>\<open>Inr (out, n)\<close> is the return of \<open>n\<close>; the code leaves the bytes of a failed attempt in the output.\<close>

definition lzf_decompress :: "byte list \<Rightarrow> nat \<Rightarrow> byte list \<Rightarrow> nat \<Rightarrow> (lzf_error + byte list \<times> nat) option" where
  "lzf_decompress inp in_len out out_len = decomp_loop inp in_len 0 out out_len 0"

section \<open>The compressed format\<close>

text \<open>Which bytes encode which text, chunk by chunk: a run of literals, or a reference to text at a
  distance of \<open>off + 1\<close> bytes, which may reach into the text it produces.\<close>

definition ref_bytes :: "nat \<Rightarrow> nat \<Rightarrow> byte list" where
  "ref_bytes off n =
     (if n < 7 then [of_nat (off div 256 + n * 32), of_nat off]
      else [of_nat (off div 256 + 7 * 32), of_nat (n - 7), of_nat off])"

inductive lzf_enc :: "byte list \<Rightarrow> byte list \<Rightarrow> bool" where
  enc_nil: "lzf_enc [] []"
| enc_lit: "lzf_enc c t \<Longrightarrow> 0 < length l \<Longrightarrow> length l \<le> MAX_LIT \<Longrightarrow> lzf_enc (c @ (of_nat (length l) - 1) # l) (t @ l)"
| enc_ref: "lzf_enc c t \<Longrightarrow> off < length t \<Longrightarrow> off < 8192 \<Longrightarrow> 1 \<le> n \<Longrightarrow> n \<le> 262 \<Longrightarrow> length s = n + 2 \<Longrightarrow>
    (\<And>k. k < n + 2 \<Longrightarrow> s ! k = (t @ s) ! (length t - off - 1 + k)) \<Longrightarrow> lzf_enc (c @ ref_bytes off n) (t @ s)"

lemma enc_nonempty: "lzf_enc c t \<Longrightarrow> t \<noteq> [] \<Longrightarrow> c \<noteq> []"
  by (induction rule: lzf_enc.cases) (auto simp: ref_bytes_def)

section \<open>Decompression reads the format\<close>

lemma copy_ref_ok:
  assumes "length t = op" "length q = n" "ref < op"
    "\<And>k. k < length s \<Longrightarrow> s ! k = (t @ s) ! (ref + k)" "length s = n"
  shows "copy_ref (t @ q @ r) op ref n = Some (t @ s @ r)"
  using assms
proof (induction n arbitrary: t q s op ref)
  case (Suc n)
  obtain x q' where q: "q = x # q'" "length q' = n" using Suc.prems(2) by (cases q) auto
  obtain y s' where s: "s = y # s'" "length s' = n" using Suc.prems(5) by (cases s) auto
  have y: "y = t ! ref" using Suc.prems(4) [of 0] Suc.prems(1,3) s by (simp add: nth_append)
  have "s' ! k = ((t @ [y]) @ s') ! (ref + 1 + k)" if "k < length s'" for k
    using Suc.prems(4) [of "Suc k"] that s by simp
  then have "copy_ref ((t @ [y]) @ q' @ r) (op + 1) (ref + 1) n = Some ((t @ [y]) @ s' @ r)"
    using Suc.prems(1,3) q(2) s(2) by (intro Suc.IH) auto
  moreover have "rd (t @ q @ r) ref = Some y" using Suc.prems(1,3) y by (simp add: rd_def nth_append)
  moreover have "wr (t @ q @ r) op y = Some (t @ y # q' @ r)" using Suc.prems(1) q(1) by (simp add: wr_def list_update_append)
  ultimately show ?case using s(1) by simp
qed auto

lemma unat_byte_mod: "unat (of_nat n :: byte) = n mod 256"
  by (simp add: unsigned_of_nat take_bit_eq_mod)

lemma uint_byte_mod: "uint (of_nat n :: byte) = int (n mod 256)"
  unfolding unat_byte_mod [symmetric] by simp

lemma decomp_lit_ok:
  assumes "0 < length l" "length l \<le> MAX_LIT" "length c = ip" "length t = op" "length q = length l"
    "ip + 1 + length l \<le> in_end" "op + length l \<le> out_end"
  shows "decomp_step (c @ ((of_nat (length l) - 1) # l) @ z) in_end ip (t @ q @ r) out_end op =
    Some (Inr (ip + 1 + length l, t @ l @ r, op + length l))"
proof -
  have "of_nat (length l) - 1 = (of_nat (length l - 1) :: byte)" using assms(1) by (cases l) auto
  then have "unat (of_nat (length l) - 1 :: byte) = length l - 1" using assms(2) unat_byte [of "length l - 1"] by simp
  moreover have "rd (c @ ((of_nat (length l) - 1) # l) @ z) ip = Some (of_nat (length l) - 1)"
    by (simp add: rd_def assms(3) [symmetric])
  moreover have "memread (c @ ((of_nat (length l) - 1) # l) @ z) (ip + 1) (length l) = Some l"
    using assms(3) by (simp add: memread_def)
  moreover have "memwrite (t @ q @ r) op l = Some (t @ l @ r)" using assms(4,5) by (simp add: memwrite_def)
  ultimately show ?thesis using assms(1,2,6,7) by (cases l) (simp_all add: decomp_step_def decomp_lit_def Let_def)
qed

lemma decomp_ref_ok:
  assumes "off < length t" "off < 8192" "1 \<le> n" "n \<le> 262" "length s = n + 2"
    "\<And>k. k < n + 2 \<Longrightarrow> s ! k = (t @ s) ! (length t - off - 1 + k)"
    "length c = ip" "length t = op" "length q = length s" "ip + length (ref_bytes off n) \<le> in_end" "op + length s \<le> out_end"
  shows "decomp_step (c @ ref_bytes off n @ z) in_end ip (t @ q @ r) out_end op =
    Some (Inr (ip + length (ref_bytes off n), t @ s @ r, op + length s))"
proof -
  have hi: "off div 256 < 32" using assms(2) by (simp add: less_mult_imp_div_less)
  define m where "m = (if n < 7 then n else 7)"
  have ctrl: "unat (of_nat (off div 256 + m * 32) :: byte) = off div 256 + m * 32"
    using hi by (intro unat_byte) (simp add: m_def)
  have "(off div 256 + m * 32) div 32 = m" "(off div 256 + m * 32) mod 32 = off div 256" "\<not> off div 256 + m * 32 < 32"
    using hi assms(3) by (auto simp: m_def)
  moreover have "copy_ref (t @ q @ r) op (op - off - 1) (n + 2) = Some (t @ s @ r)"
    using assms by (intro copy_ref_ok) auto
  moreover have "nat (int op - int (off div 256) * 256 - 1 - int (off mod 256)) = op - off - 1"
    "\<not> int op - int (off div 256) * 256 - 1 - int (off mod 256) < 0"
    using assms(1,8) div_mult_mod_eq [of off 256] by linarith+
  moreover have "unat (of_nat (n - 7) :: byte) = n - 7" using assms(4) by (intro unat_byte) simp
  note facts = calculation this
  show ?thesis
  proof (cases "n < 7")
    case True
    then have "rd (c @ ref_bytes off n @ z) ip = Some (of_nat (off div 256 + m * 32))" "rd (c @ ref_bytes off n @ z) (ip + 1) = Some (of_nat off)"
      "length (ref_bytes off n) = 2" "m = n"
      using assms(7) by (simp_all add: ref_bytes_def m_def rd_def nth_append)
    then show ?thesis using facts ctrl assms(5,10,11) True
      by (simp add: decomp_step_def decomp_ref_def Let_def uint_byte_mod del: copy_ref.simps add_2_eq_Suc' of_nat_add of_nat_mult)
  next
    case False
    then have "rd (c @ ref_bytes off n @ z) ip = Some (of_nat (off div 256 + m * 32))"
      "rd (c @ ref_bytes off n @ z) (ip + 1) = Some (of_nat (n - 7))" "rd (c @ ref_bytes off n @ z) (Suc (Suc ip)) = Some (of_nat off)"
      "length (ref_bytes off n) = 3" "m = 7"
      using assms(7) by (simp_all add: ref_bytes_def m_def rd_def nth_append)
    then show ?thesis using facts ctrl assms(5,10,11) False
      by (simp add: decomp_step_def decomp_ref_def Let_def uint_byte_mod del: copy_ref.simps add_2_eq_Suc' of_nat_add of_nat_mult of_nat_diff add: numeral_3_eq_3)
  qed
qed

lemma decomp_loop_chunk:
  assumes "decomp_step (c @ chunk @ z) in_end (length c) (t @ q @ r) out_end (length t) =
    Some (Inr (length (c @ chunk), t @ s @ r, length (t @ s)))"
  shows "decomp_loop (c @ chunk @ z) in_end (length c) (t @ q @ r) out_end (length t) =
    (if length (c @ chunk) < in_end then decomp_loop (c @ chunk @ z) in_end (length (c @ chunk)) (t @ s @ r) out_end (length (t @ s))
     else Some (Inr (t @ s @ r, length (t @ s))))"
  unfolding decomp_loop.simps [of _ _ "length c"] assms by simp

lemma decomp_enc:
  assumes "lzf_enc c t" "length c \<le> in_end" "length q = length t" "length t \<le> out_end" "c \<noteq> []"
  shows "decomp_loop (c @ z) in_end 0 (q @ r) out_end 0 =
    (if length c < in_end then decomp_loop (c @ z) in_end (length c) (t @ r) out_end (length t)
     else Some (Inr (t @ r, length t)))"
  using assms
proof (induction arbitrary: z q r rule: lzf_enc.induct)
  case enc_nil
  then show ?case by simp
next
  case (enc_lit c t l)
  define chunk where "chunk = (of_nat (length l) - 1) # l"
  obtain q1 q2 where q: "q = q1 @ q2" "length q1 = length t" "length q2 = length l"
    using enc_lit.prems(2) split_prefix [of "length t" q] by auto
  have step: "decomp_loop (c @ chunk @ z) in_end (length c) (t @ q2 @ r) out_end (length t) =
      (if length (c @ chunk) < in_end then decomp_loop (c @ chunk @ z) in_end (length (c @ chunk)) (t @ l @ r) out_end (length (t @ l))
       else Some (Inr (t @ l @ r, length (t @ l))))"
    using decomp_lit_ok [of l c "length c" t "length t" q2 in_end out_end z r] enc_lit.hyps(2,3) enc_lit.prems(1,3) q(3)
    by (intro decomp_loop_chunk) (simp add: chunk_def)
  show ?case
  proof (cases "c = []")
    case True
    then have "t = []" using enc_nonempty [OF enc_lit.hyps(1)] by blast
    then show ?thesis using step True q by (simp add: chunk_def)
  next
    case False
    then show ?thesis
      using enc_lit.IH [of q1 "chunk @ z" "q2 @ r"] enc_lit.prems q step by (simp add: chunk_def)
  qed
next
  case (enc_ref c t off n s)
  define chunk where "chunk = ref_bytes off n"
  obtain q1 q2 where q: "q = q1 @ q2" "length q1 = length t" "length q2 = length s"
    using enc_ref.prems(2) split_prefix [of "length t" q] by auto
  have step: "decomp_loop (c @ chunk @ z) in_end (length c) (t @ q2 @ r) out_end (length t) =
      (if length (c @ chunk) < in_end then decomp_loop (c @ chunk @ z) in_end (length (c @ chunk)) (t @ s @ r) out_end (length (t @ s))
       else Some (Inr (t @ s @ r, length (t @ s))))"
    using decomp_ref_ok [of off t n s c "length c" "length t" q2 in_end out_end z r] enc_ref.hyps(2-7) enc_ref.prems(1,3) q(3)
    by (intro decomp_loop_chunk) (simp add: chunk_def)
  show ?case
  proof (cases "c = []")
    case True
    then have "t = []" using enc_nonempty [OF enc_ref.hyps(1)] by blast
    then show ?thesis using enc_ref.hyps(2) by simp
  next
    case False
    moreover have "length c < in_end" using enc_ref.prems(1) by (auto simp: ref_bytes_def split: if_splits)
    ultimately show ?thesis
      using enc_ref.IH [of q1 "chunk @ z" "q2 @ r"] enc_ref.prems q step by (simp add: chunk_def)
  qed
qed

lemma lzf_decompress_enc:
  assumes "lzf_enc c t" "t \<noteq> []" "length t \<le> out_len" "out_len \<le> length out"
  shows "lzf_decompress (c @ z) (length c) out out_len = Some (Inr (t @ drop (length t) out, length t))"
  using decomp_enc [OF assms(1), of "length c" "take (length t) out" out_len z "drop (length t) out"] assms enc_nonempty [OF assms(1,2)]
  by (simp add: lzf_decompress_def)

section \<open>Compression writes the format\<close>

text \<open>The state of the compressor: complete chunks \<open>c\<close> for the input before the run, the byte kept for
  the run's header, and the literals of the run.\<close>

definition lzf_inv :: "byte list \<Rightarrow> nat \<Rightarrow> nat \<Rightarrow> lzf_state \<Rightarrow> bool" where
  "lzf_inv inp in_end out_end st \<longleftrightarrow>
     lz_lit st < MAX_LIT \<and> (0 < lz_lit st \<longrightarrow> lz_op st \<le> out_end) \<and> lz_ip st \<le> in_end \<and> in_end \<le> length inp \<and> lz_lit st \<le> lz_ip st \<and>
     (\<exists>c h l r. lz_out st = c @ h # l @ r \<and> length (c @ h # l @ r) = out_end + 1 \<and>
        lz_op st = length c + 1 + length l \<and> length l = lz_lit st \<and>
        lzf_enc c (take (lz_ip st - lz_lit st) inp) \<and> take (lz_ip st) inp = take (lz_ip st - lz_lit st) inp @ l)"

lemma stop_run_ok:
  assumes "lzf_inv inp in_end out_end st"
  shows "\<exists>c r. stop_run (lz_out st) (lz_op st) (lz_lit st) = Some (c @ r) \<and> length (c @ r) = out_end + 1 \<and>
    (if lz_lit st = 0 then lz_op st - 1 else lz_op st) = length c \<and> lzf_enc c (take (lz_ip st) inp)"
proof -
  obtain c h l r where i: "lz_out st = c @ h # l @ r" "length (c @ h # l @ r) = out_end + 1" "lz_op st = length c + 1 + length l"
     "length l = lz_lit st" "lzf_enc c (take (lz_ip st - lz_lit st) inp)"
     "take (lz_ip st) inp = take (lz_ip st - lz_lit st) inp @ l" "lz_lit st < MAX_LIT"
    using assms unfolding lzf_inv_def by blast
  have w: "stop_run (lz_out st) (lz_op st) (lz_lit st) = Some (c @ (of_nat (length l) - 1) # l @ r)"
    using i(1,3,4) by (simp add: stop_run_def wr_def)
  show ?thesis
  proof (cases "lz_lit st = 0")
    case True
    then show ?thesis using w i(2-5) by (intro exI [of _ c] exI [of _ "(of_nat (length l) - 1) # l @ r"]) simp
  next
    case False
    then show ?thesis unfolding i(6) using w i(2-4,7) enc_lit [OF i(5), of l]
      by (intro exI [of _ "c @ (of_nat (length l) - 1) # l"] exI [of _ r]) simp
  qed
qed

lemma start_run:
  assumes "lz_out st = c @ r" "r \<noteq> []" "length (c @ r) = out_end + 1" "lz_op st = length c + 1" "lz_lit st = 0"
    "lzf_enc c (take (lz_ip st) inp)" "lz_ip st \<le> in_end" "in_end \<le> length inp"
  shows "lzf_inv inp in_end out_end st"
proof -
  obtain h r' where "r = h # r'" using assms(2) by (cases r) auto
  then show ?thesis unfolding lzf_inv_def using assms by (intro conjI exI [of _ c] exI [of _ h] exI [of _ "[]"] exI [of _ r']) auto
qed

lemma put_literal_ok:
  assumes "lzf_inv inp in_end out_end st" "lz_op st < out_end" "lz_ip st < in_end"
  shows "\<exists>st'. put_literal inp st = Some st' \<and> lzf_inv inp in_end out_end st' \<and> lz_ip st' = lz_ip st + 1 \<and> lz_op st' \<le> lz_op st + 2"
proof -
  obtain c h l r where i: "lz_out st = c @ h # l @ r" "length (c @ h # l @ r) = out_end + 1" "lz_op st = length c + 1 + length l"
     "length l = lz_lit st" "lzf_enc c (take (lz_ip st - lz_lit st) inp)"
     "take (lz_ip st) inp = take (lz_ip st - lz_lit st) inp @ l" "lz_lit st < MAX_LIT" "lz_lit st \<le> lz_ip st" "in_end \<le> length inp"
    using assms(1) unfolding lzf_inv_def by blast
  obtain x y r' where r: "r = x # y # r'" using i(2,3) assms(2) by (cases r; cases "tl r") auto
  define b where "b = inp ! lz_ip st"
  have rd: "rd inp (lz_ip st) = Some b" using assms(3) i(9) by (simp add: rd_def b_def)
  have wr: "wr (lz_out st) (lz_op st) b = Some ((c @ h # l @ [b]) @ y # r')"
    using i(1,3) r by (simp add: wr_def list_update_append)
  have t: "take (lz_ip st + 1) inp = take (lz_ip st - lz_lit st) inp @ l @ [b]"
    using i(6,9) assms(3) by (simp add: take_Suc_conv_app_nth b_def)
  show ?thesis
  proof (cases "lz_lit st + 1 = MAX_LIT")
    case False
    define st' where "st' = st\<lparr>lz_ip := lz_ip st + 1, lz_op := lz_op st + 1, lz_lit := lz_lit st + 1, lz_out := (c @ h # l @ [b]) @ y # r'\<rparr>"
    have "put_literal inp st = Some st'" using rd wr False by (simp add: put_literal_def Let_def st'_def)
    moreover have "lzf_inv inp in_end out_end st'"
      unfolding lzf_inv_def st'_def using i(2-5,7-9) t False assms(2,3) r
      by (intro conjI exI [of _ c] exI [of _ h] exI [of _ "l @ [b]"] exI [of _ "y # r'"]) auto
    ultimately show ?thesis by (simp add: st'_def)
  next
    case True
    let ?chunk = "(of_nat (length (l @ [b])) - 1) # l @ [b]"
    define st' where "st' = st\<lparr>lz_ip := lz_ip st + 1, lz_op := lz_op st + 2, lz_lit := 0, lz_out := (c @ ?chunk) @ y # r'\<rparr>"
    have "stop_run ((c @ h # l @ [b]) @ y # r') (lz_op st + 1) (lz_lit st + 1) = Some ((c @ ?chunk) @ y # r')"
      using i(3,4) by (simp add: stop_run_def wr_def)
    then have "put_literal inp st = Some st'" using rd wr True by (simp add: put_literal_def Let_def st'_def)
    moreover have "lzf_enc (c @ ?chunk) (take (lz_ip st + 1) inp)" unfolding t using i(4,5) True by (intro enc_lit) auto
    then have "lzf_inv inp in_end out_end st'"
      using i(2-4,9) assms(3) r True by (intro start_run [of st' "c @ ?chunk" "y # r'"]) (auto simp: st'_def)
    ultimately show ?thesis by (simp add: st'_def)
  qed
qed

text \<open>The first \<open>n\<close> bytes at \<open>ref\<close> are those at \<open>ip\<close>.\<close>

definition same :: "byte list \<Rightarrow> nat \<Rightarrow> nat \<Rightarrow> nat \<Rightarrow> bool" where
  "same inp ref ip n \<longleftrightarrow> (\<forall>j<n. inp ! (ref + j) = inp ! (ip + j))"

lemma same_Suc: "same inp ref ip (Suc n) \<longleftrightarrow> same inp ref ip n \<and> inp ! (ref + n) = inp ! (ip + n)"
  by (auto simp: same_def less_Suc_eq)

lemma match_unrolled_ok:
  assumes "ref < ip" "ip + len + k < length inp" "same inp ref ip (len + 1)"
  shows "\<exists>len' differ. match_unrolled inp ref ip k len = Some (len', differ) \<and>
    (if differ then len < len' \<and> len' \<le> len + k \<and> same inp ref ip len' else len' = len + k \<and> same inp ref ip (len' + 1))"
  using assms
proof (induction k arbitrary: len)
  case (Suc k)
  have r: "rd inp (ref + (len + 1)) = Some (inp ! (ref + (len + 1)))" "rd inp (ip + (len + 1)) = Some (inp ! (ip + (len + 1)))"
    using Suc.prems(1,2) by (simp_all add: rd_def)
  show ?case
  proof (cases "inp ! (ref + (len + 1)) = inp ! (ip + (len + 1))")
    case True
    then have "same inp ref ip (len + 1 + 1)" using Suc.prems(3) by (simp add: same_Suc)
    then obtain len' differ where "match_unrolled inp ref ip k (len + 1) = Some (len', differ)"
      "if differ then len + 1 < len' \<and> len' \<le> len + 1 + k \<and> same inp ref ip len' else len' = len + 1 + k \<and> same inp ref ip (len' + 1)"
      using Suc.IH [of "len + 1"] Suc.prems(1,2) by auto
    then show ?thesis using r True by (intro exI [of _ len'] exI [of _ differ]) (auto split: if_splits)
  next
    case False
    then show ?thesis using r Suc.prems(3) by (intro exI [of _ "len + 1"] exI [of _ True]) simp
  qed
qed (auto intro: exI [of _ False])

lemma match_tail_ok:
  assumes "ref < ip" "ip + maxlen \<le> length inp" "same inp ref ip (len + 1)"
  shows "\<exists>len'. match_tail inp ref ip maxlen len = Some len' \<and> len < len' \<and> len' \<le> max (len + 1) maxlen \<and> same inp ref ip len'"
  using assms
proof (induction "maxlen - len" arbitrary: len)
  case 0
  then show ?case by (subst match_tail.simps) auto
next
  case (Suc n)
  show ?case
  proof (cases "len + 1 < maxlen")
    case True
    have r: "rd inp (ref + (len + 1)) = Some (inp ! (ref + (len + 1)))" "rd inp (ip + (len + 1)) = Some (inp ! (ip + (len + 1)))"
      using Suc.prems(1,2) True by (simp_all add: rd_def)
    show ?thesis
    proof (cases "inp ! (ref + (len + 1)) = inp ! (ip + (len + 1))")
      case eq: True
      then have "same inp ref ip (len + 1 + 1)" using Suc.prems(3) by (simp add: same_Suc)
      moreover have "n = maxlen - (len + 1)" using Suc.hyps(2) by simp
      ultimately obtain len' where "match_tail inp ref ip maxlen (len + 1) = Some len'" "len + 1 < len'" "len' \<le> max (len + 1 + 1) maxlen" "same inp ref ip len'"
        using Suc.hyps(1) [of "len + 1"] Suc.prems(1,2) by auto
      then show ?thesis using r True eq by (subst match_tail.simps) auto
    next
      case False
      then show ?thesis using r True Suc.prems(3) by (subst match_tail.simps) auto
    qed
  next
    case False
    then show ?thesis using Suc.prems(3) by (subst match_tail.simps) auto
  qed
qed

lemma match_len_ok:
  assumes "ref < ip" "ip + 4 < in_end" "in_end \<le> length inp" "same inp ref ip 3"
    "maxlen = (if in_end - ip - 2 > MAX_REF then MAX_REF else in_end - ip - 2)"
  shows "\<exists>len. match_len inp ref ip maxlen = Some len \<and> 3 \<le> len \<and> len \<le> MAX_REF \<and> ip + len \<le> in_end \<and> same inp ref ip len"
proof (cases "maxlen > 16")
  case True
  then have e: "ip + 19 \<le> in_end" "ip + maxlen + 2 \<le> in_end" "maxlen \<le> MAX_REF" using assms(2,5) by (auto split: if_splits)
  obtain len differ where u: "match_unrolled inp ref ip 16 2 = Some (len, differ)"
    "if differ then 2 < len \<and> len \<le> 2 + 16 \<and> same inp ref ip len else len = 2 + 16 \<and> same inp ref ip (len + 1)"
    using match_unrolled_ok [of ref ip 2 16 inp] assms(1,3,4) e(1) by auto
  show ?thesis
  proof (cases differ)
    case True
    then show ?thesis using u e \<open>maxlen > 16\<close> by (simp add: match_len_def)
  next
    case False
    then obtain len' where "match_tail inp ref ip maxlen len = Some len'" "len < len'" "len' \<le> max (len + 1) maxlen" "same inp ref ip len'"
      using match_tail_ok [of ref ip maxlen inp len] assms(1,3) u(2) e(2) by auto
    then show ?thesis using u False e \<open>maxlen > 16\<close> by (auto simp: match_len_def)
  qed
next
  case False
  then have e: "3 \<le> maxlen" "ip + maxlen + 2 \<le> in_end" "maxlen \<le> MAX_REF" using assms(2,5) by (auto split: if_splits)
  obtain len' where "match_tail inp ref ip maxlen 2 = Some len'" "2 < len'" "len' \<le> max (2 + 1) maxlen" "same inp ref ip len'"
    using match_tail_ok [of ref ip maxlen inp 2] assms(1,3,4) e(2) by auto
  then show ?thesis using False e by (auto simp: match_len_def)
qed

lemma length_ref_bytes: "length (ref_bytes off n) \<le> 3"
  by (simp add: ref_bytes_def)

lemma put_ref_ok:
  assumes "length c = op" "length (ref_bytes off n) < length r"
  shows "\<exists>r'. put_ref (c @ r) op off n = Some ((c @ ref_bytes off n) @ r', op + length (ref_bytes off n)) \<and>
    r' \<noteq> [] \<and> length ((c @ ref_bytes off n) @ r') = length (c @ r)"
proof (cases "n < 7")
  case True
  then obtain x y z r' where "r = x # y # z # r'" using assms(2) by (cases r; cases "tl r"; cases "tl (tl r)") (auto simp: ref_bytes_def)
  then show ?thesis using True assms(1)
    by (intro exI [of _ "z # r'"]) (simp add: put_ref_def ref_bytes_def wr_def list_update_append)
next
  case False
  then obtain x y z w r' where "r = x # y # z # w # r'"
    using assms(2) by (cases r; cases "tl r"; cases "tl (tl r)"; cases "tl (tl (tl r))") (auto simp: ref_bytes_def)
  then show ?thesis using False assms(1)
    by (intro exI [of _ "w # r'"]) (simp add: put_ref_def ref_bytes_def wr_def list_update_append)
qed

lemma rehash_match_ok:
  assumes "2 \<le> ip" "ip + 2 < in_end" "in_end \<le> length inp"
  shows "\<exists>htab' hval. rehash_match inp ip htab = Some (htab', hval)"
  using assms by (simp add: rehash_match_def FRST_def NEXT_def rd_def Let_def)

lemma enc_match:
  assumes "lzf_enc c (take ip inp)" "0 < ref" "ref < ip" "ip - ref - 1 < 8192" "3 \<le> len" "len \<le> MAX_REF" "ip + len \<le> length inp"
    "same inp ref ip len"
  shows "lzf_enc (c @ ref_bytes (ip - ref - 1) (len - 2)) (take (ip + len) inp)"
proof -
  define s where "s = take len (drop ip inp)"
  have t: "take (ip + len) inp = take ip inp @ s" "length s = len" using assms(7) by (simp_all add: s_def take_add)
  have "s ! k = (take ip inp @ s) ! (ip - (ip - ref - 1) - 1 + k)" if "k < len" for k
  proof -
    have "(take ip inp @ s) ! (ref + k) = inp ! (ref + k)"
      unfolding t(1) [symmetric] using that assms(3,7) by simp
    then show ?thesis using assms(2,3,7,8) that by (simp add: s_def same_def)
  qed
  then show ?thesis unfolding t(1) using assms t(2) by (intro enc_ref) auto
qed

fun lzf_good :: "byte list \<Rightarrow> nat \<Rightarrow> nat \<Rightarrow> lzf_next \<Rightarrow> bool" where
  "lzf_good inp in_end out_end (Full out) \<longleftrightarrow> True"
| "lzf_good inp in_end out_end (Break st) \<longleftrightarrow> lzf_inv inp in_end out_end st \<and> in_end \<le> lz_ip st + 2"
| "lzf_good inp in_end out_end (Go st) \<longleftrightarrow> lzf_inv inp in_end out_end st"

lemma lzf_match_step_ok:
  assumes "lzf_inv inp in_end out_end st" "0 < ref" "ref < lz_ip st" "lz_ip st - ref - 1 < 8192" "lz_ip st + 4 < in_end"
    "same inp ref (lz_ip st) 3"
  shows "\<exists>r. lzf_match_step inp in_end out_end st (int ref) = Some r \<and> lzf_good inp in_end out_end r"
proof -
  define ip where "ip = lz_ip st"
  define off where "off = ip - ref - 1"
  define op where "op = (if lz_lit st = 0 then lz_op st - 1 else lz_op st)"
  define maxlen where "maxlen = (if in_end - ip - 2 > MAX_REF then MAX_REF else in_end - ip - 2)"
  have e: "in_end \<le> length inp" using assms(1) by (simp add: lzf_inv_def)
  obtain c r where c: "stop_run (lz_out st) (lz_op st) (lz_lit st) = Some (c @ r)" "length (c @ r) = out_end + 1" "op = length c"
      "lzf_enc c (take ip inp)"
    using stop_run_ok [OF assms(1)] by (auto simp: op_def ip_def)
  have off: "nat (int ip - int ref - 1) = off" using assms(3) by (simp add: off_def ip_def nat_diff_distrib')
  obtain len where len: "match_len inp ref ip maxlen = Some len" "3 \<le> len" "len \<le> MAX_REF" "ip + len \<le> in_end" "same inp ref ip len"
    using match_len_ok [of ref ip in_end inp maxlen] assms(3,5,6) e by (auto simp: ip_def maxlen_def)
  show ?thesis
  proof (cases "op + 3 + 1 \<ge> out_end")
    case True
    then show ?thesis using c(1) unfolding lzf_match_step_def Let_def
      by (intro exI [of _ "Full (c @ r)"]) (simp add: op_def)
  next
    case False
    obtain r' where r': "put_ref (c @ r) op off (len - 2) = Some ((c @ ref_bytes off (len - 2)) @ r', op + length (ref_bytes off (len - 2)))"
        "r' \<noteq> []" "length ((c @ ref_bytes off (len - 2)) @ r') = out_end + 1"
      using put_ref_ok [of c op off "len - 2" r] length_ref_bytes [of off "len - 2"] c(2,3) False by auto
    define st' where "st' = st\<lparr>lz_ip := ip + len, lz_op := op + length (ref_bytes off (len - 2)) + 1, lz_lit := 0,
      lz_out := (c @ ref_bytes off (len - 2)) @ r'\<rparr>"
    have "lzf_enc (c @ ref_bytes off (len - 2)) (take (ip + len) inp)"
      unfolding off_def using c(4) assms(2,3,4) len e by (intro enc_match) (auto simp: ip_def)
    then have inv: "lzf_inv inp in_end out_end st'" "lzf_inv inp in_end out_end (st'\<lparr>lz_hval := h, lz_htab := ht\<rparr>)" for h ht
      using r' c(3) len(4) e by (auto intro!: start_run [of _ "c @ ref_bytes off (len - 2)" r'] simp: st'_def)
    have ip': "ip + 1 + (len - 2 + 1) = ip + len" using len(2) by simp
    have step: "lzf_match_step inp in_end out_end st (int ref) =
        (if ip + len + 2 \<ge> in_end then Some (Break st')
         else do { (htab, hval) \<leftarrow> rehash_match inp (ip + len) (lz_htab st'); Some (Go (st'\<lparr>lz_hval := hval, lz_htab := htab\<rparr>)) })"
      unfolding lzf_match_step_def Let_def ip_def [symmetric] off maxlen_def [symmetric] c(1) bind.simps op_def [symmetric] nat_int
        len(1) r'(1) prod.case ip' st'_def [symmetric]
      using False by simp
    show ?thesis
    proof (cases "ip + len + 2 \<ge> in_end")
      case True
      then show ?thesis using step inv by (simp add: st'_def)
    next
      case False
      obtain ht h where "rehash_match inp (ip + len) (lz_htab st') = Some (ht, h)"
        using rehash_match_ok [of "ip + len" in_end inp "lz_htab st'"] len(2) e False by auto
      then show ?thesis using step inv False by simp
    qed
  qed
qed

lemma is_match_ok:
  assumes "ip + 2 < in_end" "in_end \<le> length inp"
  shows "\<exists>m. is_match inp in_end ip ref = Some m \<and>
    (m \<longrightarrow> (\<exists>k. ref = int k \<and> 0 < k \<and> k < ip \<and> ip - k - 1 < 8192 \<and> ip + 4 < in_end \<and> same inp k ip 3))"
proof (cases "0 \<le> int ip - ref - 1 \<and> int ip - ref - 1 < MAX_OFF \<and> ip + 4 < in_end \<and> 0 < ref")
  case True
  then obtain k where k: "ref = int k" "0 < k" "k < ip" "ip - k - 1 < 8192" "ip + 4 < in_end"
    by (cases ref) auto
  have two: "memread inp i 2 = Some [inp ! i, inp ! (i + 1)]" if "i \<le> ip" for i
    using that k(5) assms(2)
    by (simp add: memread_def take_Suc_conv_app_nth numeral_2_eq_2 Cons_nth_drop_Suc [symmetric] take_Suc)
  have "rd inp (k + 2) = Some (inp ! (k + 2))" "rd inp (ip + 2) = Some (inp ! (ip + 2))"
    using k(3,5) assms(2) by (simp_all add: rd_def)
  then show ?thesis using k True two [of k] two [of ip]
    by (auto simp: is_match_def Let_def numeral_3_eq_3 same_Suc same_def [of _ _ _ 0])
next
  case False
  then show ?thesis by (auto simp: is_match_def Let_def)
qed

lemma lzf_inv_hash: "lzf_inv inp in_end out_end (st\<lparr>lz_hval := h, lz_htab := t\<rparr>) = lzf_inv inp in_end out_end st"
  by (simp add: lzf_inv_def)

lemma lzf_step_ok:
  assumes "lzf_inv inp in_end out_end st" "lz_ip st + 2 < in_end"
  shows "\<exists>r. lzf_step inp in_end out_end st = Some r \<and> lzf_good inp in_end out_end r"
proof -
  have e: "in_end \<le> length inp" using assms(1) by (simp add: lzf_inv_def)
  obtain h where h: "NEXT inp (lz_hval st) (lz_ip st) = Some h" using assms(2) e by (simp add: NEXT_def rd_def)
  define st1 where "st1 = st\<lparr>lz_hval := h, lz_htab := (lz_htab st)(IDX h := int (lz_ip st))\<rparr>"
  have st1: "lzf_inv inp in_end out_end st1" "lz_ip st1 = lz_ip st" using assms(1) by (simp_all add: st1_def lzf_inv_hash)
  obtain m where m: "is_match inp in_end (lz_ip st) (lz_htab st (IDX h)) = Some m"
    "m \<longrightarrow> (\<exists>k. lz_htab st (IDX h) = int k \<and> 0 < k \<and> k < lz_ip st \<and> lz_ip st - k - 1 < 8192 \<and> lz_ip st + 4 < in_end \<and> same inp k (lz_ip st) 3)"
    using is_match_ok [OF assms(2) e] by blast
  have step: "lzf_step inp in_end out_end st =
      (if m then lzf_match_step inp in_end out_end st1 (lz_htab st (IDX h))
       else if lz_op st1 \<ge> out_end then Some (Full (lz_out st1)) else do { st \<leftarrow> put_literal inp st1; Some (Go st) })"
    unfolding lzf_step_def h bind.simps Let_def st1_def [symmetric] st1(2) m(1) ..
  show ?thesis
  proof (cases m)
    case True
    then show ?thesis using step m(2) lzf_match_step_ok [OF st1(1)] st1(2) by auto
  next
    case False
    then show ?thesis using step put_literal_ok [OF st1(1)] assms(2) st1(2) by (cases "lz_op st1 \<ge> out_end") auto
  qed
qed

lemma lzf_loop_ok:
  assumes "lzf_inv inp in_end out_end st"
  shows "(\<exists>out. lzf_loop inp in_end out_end st = Some (Full out)) \<or>
    (\<exists>st'. lzf_loop inp in_end out_end st = Some (Break st') \<and> lzf_inv inp in_end out_end st' \<and> in_end \<le> lz_ip st' + 2)"
  using assms
proof (induction inp in_end out_end st rule: lzf_loop.induct)
  case (1 inp in_end out_end st)
  show ?case
  proof (cases "lz_ip st + 2 < in_end")
    case True
    obtain r where r: "lzf_step inp in_end out_end st = Some r" "lzf_good inp in_end out_end r"
      using lzf_step_ok [OF "1.prems" True] by blast
    show ?thesis
    proof (cases r)
      case (Go st')
      then show ?thesis using r True "1.IH" [OF True r(1) Go]
        by (subst (1 2) lzf_loop.simps) simp
    qed (use r True in \<open>subst (1 2) lzf_loop.simps, simp\<close>)+
  next
    case False
    then show ?thesis using "1.prems" by (subst (1 2) lzf_loop.simps) simp
  qed
qed

lemma lzf_tail_ok:
  assumes "lzf_inv inp in_end out_end st" "lz_op st + 2 * (in_end - lz_ip st) \<le> out_end + 1"
  shows "\<exists>st'. lzf_tail inp in_end st = Some st' \<and> lzf_inv inp in_end out_end st' \<and> lz_ip st' = in_end \<and> lz_op st' \<le> out_end + 1"
  using assms
proof (induction inp in_end st rule: lzf_tail.induct)
  case (1 inp in_end st)
  show ?case
  proof (cases "lz_ip st < in_end")
    case True
    obtain st' where st': "put_literal inp st = Some st'" "lzf_inv inp in_end out_end st'" "lz_ip st' = lz_ip st + 1" "lz_op st' \<le> lz_op st + 2"
      using put_literal_ok [OF "1.prems"(1) _ True] "1.prems"(2) True by fastforce
    then show ?thesis using "1.IH" [OF True st'(1,2)] "1.prems"(2) True by (subst lzf_tail.simps) auto
  next
    case False
    then show ?thesis using "1.prems" by (subst lzf_tail.simps) (auto simp: lzf_inv_def)
  qed
qed

text \<open>With an output buffer of one byte more than \<open>out_len\<close>, and an input of at least two bytes, the
  compressor stays inside both buffers; what it returns is an encoding of the input.\<close>

lemma lzf_compress_ok:
  assumes "2 \<le> in_len" "in_len \<le> length inp" "length out = out_len + 1"
  shows "\<exists>out' n. lzf_compress htab inp in_len out out_len = Some (out', n) \<and>
    (n \<noteq> 0 \<longrightarrow> n \<le> out_len \<and> length out' = out_len + 1 \<and> lzf_enc (take n out') (take in_len inp))"
proof (cases "out_len = 0")
  case True
  then show ?thesis by (simp add: lzf_compress_def)
next
  case False
  obtain h where h: "FRST inp 0 = Some h" using assms(1,2) by (cases inp; cases "tl inp") (auto simp: FRST_def rd_def)
  define st where "st = \<lparr>lz_ip = 0, lz_op = 1, lz_lit = 0, lz_hval = h, lz_htab = htab, lz_out = out\<rparr>"
  have unf: "lzf_compress htab inp in_len out out_len = do {
      r \<leftarrow> lzf_loop inp in_len out_len st;
      (case r of
         Break st \<Rightarrow>
           if lz_op st + 3 > out_len then Some (lz_out st, 0)
           else do {
             st \<leftarrow> lzf_tail inp in_len st;
             out \<leftarrow> stop_run (lz_out st) (lz_op st) (lz_lit st);
             Some (out, if lz_lit st = 0 then lz_op st - 1 else lz_op st)
           }
       | Full out \<Rightarrow> Some (out, 0)
       | Go st \<Rightarrow> None) }"
    using False assms(1) h by (simp add: lzf_compress_def st_def)
  have "lzf_inv inp in_len out_len st"
    using assms by (intro start_run [of st "[]" out]) (auto simp: st_def enc_nil)
  from lzf_loop_ok [OF this] consider out' where "lzf_loop inp in_len out_len st = Some (Full out')"
    | st' where "lzf_loop inp in_len out_len st = Some (Break st')" "lzf_inv inp in_len out_len st'" "in_len \<le> lz_ip st' + 2"
    by blast
  then show ?thesis
  proof cases
    case 1
    then show ?thesis unfolding unf by simp
  next
    case 2
    show ?thesis
    proof (cases "lz_op st' + 3 > out_len")
      case True
      then show ?thesis unfolding unf 2(1) by simp
    next
      case False
      obtain st2 where st2: "lzf_tail inp in_len st' = Some st2" "lzf_inv inp in_len out_len st2" "lz_ip st2 = in_len" "lz_op st2 \<le> out_len + 1"
      proof -
        have "lz_op st' + 2 * (in_len - lz_ip st') \<le> out_len + 1" using 2(3) False by linarith
        then show ?thesis using lzf_tail_ok [OF 2(2)] that by blast
      qed
      obtain c r where c: "stop_run (lz_out st2) (lz_op st2) (lz_lit st2) = Some (c @ r)" "length (c @ r) = out_len + 1"
          "(if lz_lit st2 = 0 then lz_op st2 - 1 else lz_op st2) = length c" "lzf_enc c (take in_len inp)"
        using stop_run_ok [OF st2(2)] st2(3) by auto
      have "0 < lz_lit st2 \<longrightarrow> lz_op st2 \<le> out_len" using st2(2) unfolding lzf_inv_def by blast
      then have "length c \<le> out_len" using st2(4) c(3) by (auto split: if_splits)
      then show ?thesis unfolding unf 2(1) bind.simps lzf_next.case st2(1) c(1,3) using False c(2,4) by simp
    qed
  qed
qed

section \<open>Decompression of any input\<close>

lemma copy_ref_total:
  assumes "ref < op" "op + n \<le> length out"
  shows "\<exists>out'. copy_ref out op ref n = Some out' \<and> length out' = length out \<and> drop (op + n) out' = drop (op + n) out"
  using assms
proof (induction n arbitrary: out op ref)
  case (Suc n)
  then have "rd out ref = Some (out ! ref)" "wr out op (out ! ref) = Some (out[op := out ! ref])" by (simp_all add: rd_def wr_def)
  then show ?case using Suc.IH [of "ref + 1" "op + 1" "out[op := out ! ref]"] Suc.prems by auto
qed auto

lemma decomp_step_total:
  assumes "ip < in_end" "in_end \<le> length inp" "op \<le> out_end" "out_end \<le> length out"
  shows "\<exists>r. decomp_step inp in_end ip out out_end op = Some r \<and>
    (\<forall>ip' out' op'. r = Inr (ip', out', op') \<longrightarrow> op' \<le> out_end \<and> length out' = length out \<and> drop out_end out' = drop out_end out)"
proof -
  define ctrl where "ctrl = unat (inp ! ip)"
  have rd: "rd inp ip = Some (inp ! ip)" using assms(1,2) by (simp add: rd_def)
  show ?thesis
  proof (cases "ctrl < 32")
    case True
    then show ?thesis using rd assms
      by (auto simp: decomp_step_def decomp_lit_def ctrl_def [symmetric] memread_def memwrite_def)
  next
    case False
    define ref where "ref = int op - int (ctrl mod 32) * 256 - 1"
    define lip where "lip = (if ctrl div 32 = 7 then do { c \<leftarrow> rd inp (ip + 1); Some (ctrl div 32 + unat c, ip + 1 + 1) } else Some (ctrl div 32, ip + 1))"
    show ?thesis
    proof (cases "ip + 1 < in_end")
      case e: False
      then show ?thesis using rd False by (simp add: decomp_step_def decomp_ref_def ctrl_def [symmetric] Let_def)
    next
      case e: True
      obtain len ip2 where l: "lip = Some (len, ip2)" using e assms(2) by (cases "ctrl div 32 = 7") (auto simp: lip_def rd_def)
      have unf: "decomp_step inp in_end ip out out_end op =
        (if ip2 \<ge> in_end then Some (Inl EINVAL)
         else do {
           c \<leftarrow> rd inp ip2;
           if op + len + 2 > out_end then Some (Inl E2BIG)
           else if ref - int (unat c) < 0 then Some (Inl EINVAL)
           else do {
             out \<leftarrow> copy_ref out op (nat (ref - int (unat c))) (len + 2);
             Some (Inr (ip2 + 1, out, op + (len + 2)))
           }
         })"
        using False e unfolding decomp_step_def rd bind.simps Let_def ctrl_def [symmetric] decomp_ref_def lip_def [symmetric] l ref_def [symmetric]
        by simp
      show ?thesis
      proof (cases "ip2 < in_end \<and> op + len + 2 \<le> out_end \<and> 0 \<le> ref - int (unat (inp ! ip2))")
        case True
        then have r: "nat (ref - int (unat (inp ! ip2))) < op" unfolding ref_def by linarith
        have b: "op + (len + 2) \<le> length out" using True assms(4) by linarith
        obtain out' where out': "copy_ref out op (nat (ref - int (unat (inp ! ip2)))) (len + 2) = Some out'" "length out' = length out"
            "drop (op + (len + 2)) out' = drop (op + (len + 2)) out"
          using copy_ref_total [OF r b] by blast
        have "drop out_end x = drop (out_end - (op + (len + 2))) (drop (op + (len + 2)) x)" for x :: "byte list"
          unfolding drop_drop using True by (intro arg_cong [of _ _ "\<lambda>n. drop n x"]) linarith
        from this [of out'] this [of out] have "drop out_end out' = drop out_end out" unfolding out'(3) by (rule trans [OF _ sym])
        then show ?thesis unfolding unf using True out' assms(2) by (simp add: rd_def)
      next
        case no: False
        then show ?thesis unfolding unf using assms(2) by (auto simp: rd_def not_le)
      qed
    qed
  qed
qed

lemma decomp_loop_total:
  assumes "ip < in_end" "in_end \<le> length inp" "op \<le> out_end" "out_end \<le> length out"
  shows "\<exists>r. decomp_loop inp in_end ip out out_end op = Some r \<and>
    (\<forall>out' n. r = Inr (out', n) \<longrightarrow> n \<le> out_end \<and> length out' = length out \<and> drop out_end out' = drop out_end out)"
  using assms
proof (induction inp in_end ip out out_end op rule: decomp_loop.induct)
  case (1 inp in_end ip out out_end op)
  obtain r where r: "decomp_step inp in_end ip out out_end op = Some r"
    "\<forall>ip' out' op'. r = Inr (ip', out', op') \<longrightarrow> op' \<le> out_end \<and> length out' = length out \<and> drop out_end out' = drop out_end out"
    using decomp_step_total [OF "1.prems"] by blast
  show ?case
  proof (cases r)
    case (Inl e)
    then show ?thesis using r by (subst decomp_loop.simps) simp
  next
    case (Inr x)
    obtain ip' out' op' where x: "x = (ip', out', op')" by (cases x)
    have p: "op' \<le> out_end" "length out' = length out" "drop out_end out' = drop out_end out" using r(2) Inr x by auto
    show ?thesis
    proof (cases "ip' < in_end")
      case True
      then show ?thesis using "1.IH" [OF r(1) Inr x [symmetric] refl True] True "1.prems" p r(1) Inr x
        by (subst decomp_loop.simps) simp
    next
      case False
      then show ?thesis using p r(1) Inr x by (subst decomp_loop.simps) simp
    qed
  qed
qed

section \<open>Properties\<close>

text \<open>C8: compressing stays inside the input and an output buffer of \<open>out_len + 1\<close> bytes whatever the
  hash table holds at the start, and what it returns, when it fits in \<open>out_len\<close> bytes, decompresses to the input.\<close>

theorem lzf_roundtrip:
  assumes "2 \<le> length inp" "length out = out_len + 1" "length inp \<le> length out2"
  shows "\<exists>out' n. lzf_compress htab inp (length inp) out out_len = Some (out', n) \<and> n \<le> out_len \<and>
    (n \<noteq> 0 \<longrightarrow> lzf_decompress out' n out2 (length inp) = Some (Inr (inp @ drop (length inp) out2, length inp)))"
proof -
  obtain out' n where c: "lzf_compress htab inp (length inp) out out_len = Some (out', n)"
    "n \<noteq> 0 \<longrightarrow> n \<le> out_len \<and> length out' = out_len + 1 \<and> lzf_enc (take n out') inp"
    using lzf_compress_ok [OF assms(1) order.refl assms(2), of htab] by auto
  have "lzf_decompress out' n out2 (length inp) = Some (Inr (inp @ drop (length inp) out2, length inp))" if "n \<noteq> 0"
    using lzf_decompress_enc [of "take n out'" inp "length inp" out2 "drop n out'"] that c(2) assms(1,3) by (cases inp) auto
  then show ?thesis using c by (cases "n = 0") auto
qed

definition aaaa :: "byte list" where
  "aaaa = [98, 97, 97, 97, 97, 97, 97, 97, 97, 97]"

theorem lzf_roundtrip_witness:
  "\<exists>out' n. lzf_compress (\<lambda>_. 0) aaaa (length aaaa) (replicate 11 0) 10 = Some (out', n) \<and> n \<le> 10 \<and>
    (n \<noteq> 0 \<longrightarrow> lzf_decompress out' n (replicate 10 0) (length aaaa) = Some (Inr (aaaa @ drop (length aaaa) (replicate 10 0), length aaaa)))"
  using lzf_roundtrip [of aaaa "replicate 11 0" 10 "replicate 10 0" "\<lambda>_. 0"] by (simp add: aaaa_def)

text \<open>C30: decompressing any bytes, corrupt ones included, reads no byte behind a nonempty input and
  writes none behind \<open>out_len\<close>: it ends with an error or with at most \<open>out_len\<close> bytes.\<close>

theorem lzf_decompress_safe:
  assumes "0 < in_len" "in_len \<le> length inp" "out_len \<le> length out"
  shows "(\<exists>e. lzf_decompress inp in_len out out_len = Some (Inl e)) \<or>
    (\<exists>out' n. lzf_decompress inp in_len out out_len = Some (Inr (out', n)) \<and> n \<le> out_len \<and>
       length out' = length out \<and> drop out_len out' = drop out_len out)"
proof -
  obtain r where r: "lzf_decompress inp in_len out out_len = Some r"
    "\<forall>out' n. r = Inr (out', n) \<longrightarrow> n \<le> out_len \<and> length out' = length out \<and> drop out_len out' = drop out_len out"
    using decomp_loop_total [of 0 in_len inp 0 out_len out] assms by (auto simp: lzf_decompress_def)
  then show ?thesis by (cases r) auto
qed

theorem lzf_decompress_safe_witness:
  "(\<exists>e. lzf_decompress [255, 7] 2 [0, 0, 0] 2 = Some (Inl e)) \<or>
    (\<exists>out' n. lzf_decompress [255, 7] 2 [0, 0, 0] 2 = Some (Inr (out', n)) \<and> n \<le> 2 \<and>
       length out' = length [0 :: byte, 0, 0] \<and> drop 2 out' = drop 2 [0, 0, 0])"
  using lzf_decompress_safe [of 2 "[255, 7]" 2 "[0, 0, 0]"] by simp

end
