(* ===== verification/Rdb.thy ===== *)
theory Rdb
  imports Rio Lzf Object "HOL-Library.Sublist"
begin

text \<open>
  \<open>src/redis-2.8.24/src/rdb.c\<close> and \<open>migrate.c\<close>: the encodings of lengths, times, integers and
  strings in dump files, the objects of type string, and the payload of DUMP and RESTORE.

  \<open>rdb\<close> is \<open>None\<close> where the code passes \<open>NULL\<close> to learn the size of what it would write. A result of
  type \<open>int\<close> that is a number of bytes is cut to 32 bits (\<open>c_int\<close>). \<open>None\<close> as a result is a panic or
  an access outside a buffer. The parameters are the junk of fresh memory, the content of the hash
  table of the compressor, the table of shared integers, and the option \<open>rdb_compression\<close>.
\<close>

section \<open>Bytes, times and lengths\<close>

definition c_int :: "nat \<Rightarrow> int" where
  "c_int n = sint (of_nat n :: u32)"

definition rdbWriteRaw :: "(nat \<Rightarrow> byte) \<Rightarrow> rio option \<Rightarrow> byte list \<Rightarrow> nat \<Rightarrow> (rio option \<times> int) option" where
  "rdbWriteRaw junk rdb p len =
     (case rdb of
        None \<Rightarrow> Some (None, c_int len)
      | Some r \<Rightarrow> do {
          (r, ok) \<leftarrow> rioWrite junk r p len;
          Some (Some r, if ok then c_int len else -1)
        })"

definition rdbSaveType :: "(nat \<Rightarrow> byte) \<Rightarrow> rio option \<Rightarrow> byte \<Rightarrow> (rio option \<times> int) option" where
  "rdbSaveType junk rdb type = rdbWriteRaw junk rdb [type] 1"

definition rdbLoadType :: "rio \<Rightarrow> (rio \<times> int) option" where
  "rdbLoadType r = do {
     (r, b) \<leftarrow> rioRead r 1;
     (case b of
        None \<Rightarrow> Some (r, -1)
      | Some t \<Rightarrow> do { c \<leftarrow> rd t 0; Some (r, uint c) })
   }"

definition rdbLoadTime :: "rio \<Rightarrow> (rio \<times> int) option" where
  "rdbLoadTime r = do {
     (r, b) \<leftarrow> rioRead r 4;
     (case b of
        None \<Rightarrow> Some (r, -1)
      | Some t \<Rightarrow> Some (r, sint (of_nat (le_val t) :: u32)))
   }"

definition rdbSaveMillisecondTime :: "(nat \<Rightarrow> byte) \<Rightarrow> rio option \<Rightarrow> u64 \<Rightarrow> (rio option \<times> int) option" where
  "rdbSaveMillisecondTime junk rdb t = rdbWriteRaw junk rdb (le_bytes 8 (unat t)) 8"

definition rdbLoadMillisecondTime :: "rio \<Rightarrow> (rio \<times> u64) option" where
  "rdbLoadMillisecondTime r = do {
     (r, b) \<leftarrow> rioRead r 8;
     (case b of
        None \<Rightarrow> Some (r, -1)
      | Some t \<Rightarrow> Some (r, of_nat (le_val t)))
   }"

abbreviation REDIS_RDB_LENERR :: u32 where "REDIS_RDB_LENERR \<equiv> 0xFFFFFFFF"

definition htonl_bytes :: "u32 \<Rightarrow> byte list" where
  "htonl_bytes v = rev (le_bytes 4 (unat v))"

definition ntohl_bytes :: "byte list \<Rightarrow> u32" where
  "ntohl_bytes b = of_nat (le_val (rev b))"

definition rdbSaveLen :: "(nat \<Rightarrow> byte) \<Rightarrow> rio option \<Rightarrow> u32 \<Rightarrow> (rio option \<times> int) option" where
  "rdbSaveLen junk rdb len =
     (if len < 2 ^ 6 then do {
        (rdb, n) \<leftarrow> rdbWriteRaw junk rdb [ucast len] 1;
        Some (rdb, if n = -1 then -1 else 1)
      } else if len < 2 ^ 14 then do {
        (rdb, n) \<leftarrow> rdbWriteRaw junk rdb [ucast (drop_bit 8 len) OR push_bit 6 1, ucast len] 2;
        Some (rdb, if n = -1 then -1 else 2)
      } else do {
        (rdb, n) \<leftarrow> rdbWriteRaw junk rdb [push_bit 6 2] 1;
        if n = -1 then Some (rdb, -1)
        else do {
          (rdb, n) \<leftarrow> rdbWriteRaw junk rdb (htonl_bytes len) 4;
          Some (rdb, if n = -1 then -1 else 1 + 4)
        }
      })"

text \<open>The result is the flag \<open>isencoded\<close> and the length.\<close>

definition rdbLoadLen :: "rio \<Rightarrow> (rio \<times> bool \<times> u32) option" where
  "rdbLoadLen r = do {
     (r, b) \<leftarrow> rioRead r 1;
     (case b of
        None \<Rightarrow> Some (r, False, REDIS_RDB_LENERR)
      | Some t \<Rightarrow> do {
          b0 \<leftarrow> rd t 0;
          let type = drop_bit 6 (b0 AND 0xC0);
          if type = 3 then Some (r, True, ucast (b0 AND 0x3F))
          else if type = 0 then Some (r, False, ucast (b0 AND 0x3F))
          else if type = 1 then do {
            (r, b) \<leftarrow> rioRead r 1;
            (case b of
               None \<Rightarrow> Some (r, False, REDIS_RDB_LENERR)
             | Some u \<Rightarrow> do { b1 \<leftarrow> rd u 0; Some (r, False, push_bit 8 (ucast (b0 AND 0x3F)) OR ucast b1) })
          } else do {
            (r, b) \<leftarrow> rioRead r 4;
            (case b of
               None \<Rightarrow> Some (r, False, REDIS_RDB_LENERR)
             | Some u \<Rightarrow> Some (r, False, ntohl_bytes u))
          }
        })
   }"

section \<open>Integers\<close>

definition rdbEncodeInteger :: "u64 \<Rightarrow> byte list \<Rightarrow> (byte list \<times> nat) option" where
  "rdbEncodeInteger v enc =
     (if sint v \<ge> - (2 ^ 7) \<and> sint v \<le> 2 ^ 7 - 1 then do {
        enc \<leftarrow> memwrite enc 0 [push_bit 6 3 OR 0, ucast v];
        Some (enc, 2)
      } else if sint v \<ge> - (2 ^ 15) \<and> sint v \<le> 2 ^ 15 - 1 then do {
        enc \<leftarrow> memwrite enc 0 [push_bit 6 3 OR 1, ucast v, ucast (drop_bit 8 v)];
        Some (enc, 3)
      } else if sint v \<ge> - (2 ^ 31) \<and> sint v \<le> 2 ^ 31 - 1 then do {
        enc \<leftarrow> memwrite enc 0 [push_bit 6 3 OR 2, ucast v, ucast (drop_bit 8 v), ucast (drop_bit 16 v), ucast (drop_bit 24 v)];
        Some (enc, 5)
      } else Some (enc, 0))"

text \<open>The value of the bytes, least significant byte first, sign extended.\<close>

definition rdb_int_value :: "rio \<Rightarrow> u32 \<Rightarrow> (rio \<times> u64 option) option" where
  "rdb_int_value r enctype =
     (if enctype = 0 then do {
        (r, b) \<leftarrow> rioRead r 1;
        (case b of None \<Rightarrow> Some (r, None) | Some t \<Rightarrow> do { e0 \<leftarrow> rd t 0; Some (r, Some (scast e0)) })
      } else if enctype = 1 then do {
        (r, b) \<leftarrow> rioRead r 2;
        (case b of None \<Rightarrow> Some (r, None) | Some t \<Rightarrow> Some (r, Some (scast (of_nat (le_val t) :: u16))))
      } else if enctype = 2 then do {
        (r, b) \<leftarrow> rioRead r 4;
        (case b of None \<Rightarrow> Some (r, None) | Some t \<Rightarrow> Some (r, Some (scast (of_nat (le_val t) :: u32))))
      } else None)"

definition rdbLoadIntegerObject ::
    "(nat \<Rightarrow> byte) \<Rightarrow> (int \<Rightarrow> robj) \<Rightarrow> rio \<Rightarrow> u32 \<Rightarrow> bool \<Rightarrow> (rio \<times> robj option) option" where
  "rdbLoadIntegerObject junk shared r enctype encode = do {
     (r, val) \<leftarrow> rdb_int_value r enctype;
     (case val of
        None \<Rightarrow> Some (r, None)
      | Some v \<Rightarrow>
          if encode then Some (r, Some (createStringObjectFromLongLong shared v))
          else do { s \<leftarrow> sdsfromlonglong junk v; Some (r, Some (createStringObject (sds_str s))) })
   }"

text \<open>\<open>s\<close> is the string with the NUL behind it; the result is the buffer and the number of its bytes.\<close>

definition rdbTryIntegerEncoding :: "(nat \<Rightarrow> byte) \<Rightarrow> byte list \<Rightarrow> nat \<Rightarrow> byte list \<Rightarrow> (byte list \<times> nat) option" where
  "rdbTryIntegerEncoding junk s len enc =
     (let (v, endptr, erange) = strtoll s
      in do {
        c \<leftarrow> rd endptr 0;
        if c \<noteq> 0 then Some (enc, 0)
        else do {
          (buf, l) \<leftarrow> ll2string (stackbuf junk 32) 32 (word_of_int v);
          n \<leftarrow> strlen buf;
          if n \<noteq> len then Some (enc, 0)
          else do {
            a \<leftarrow> memread buf 0 len;
            b \<leftarrow> memread s 0 len;
            if memcmp a b \<noteq> 0 then Some (enc, 0) else rdbEncodeInteger (word_of_int v) enc
          }
        }
      })"

section \<open>Strings\<close>

text \<open>One write of the sequence that ends with \<open>goto writeerr\<close> when it fails.\<close>

definition save_lzf_data ::
    "(nat \<Rightarrow> byte) \<Rightarrow> rio option \<Rightarrow> byte list \<Rightarrow> nat \<Rightarrow> nat \<Rightarrow> (rio option \<times> int) option" where
  "save_lzf_data junk rdb out comprlen len = do {
     (rdb, n) \<leftarrow> rdbWriteRaw junk rdb [push_bit 6 3 OR 3] 1;
     if n = -1 then Some (rdb, -1)
     else do {
       let nwritten = n;
       (rdb, n) \<leftarrow> rdbSaveLen junk rdb (of_nat comprlen);
       if n = -1 then Some (rdb, -1)
       else do {
         let nwritten = nwritten + n;
         (rdb, n) \<leftarrow> rdbSaveLen junk rdb (of_nat len);
         if n = -1 then Some (rdb, -1)
         else do {
           let nwritten = nwritten + n;
           (rdb, n) \<leftarrow> rdbWriteRaw junk rdb out comprlen;
           Some (rdb, if n = -1 then -1 else nwritten + n)
         }
       }
     }
   }"

definition rdbSaveLzfStringObject ::
    "(nat \<Rightarrow> byte) \<Rightarrow> (nat \<Rightarrow> int) \<Rightarrow> rio option \<Rightarrow> byte list \<Rightarrow> nat \<Rightarrow> (rio option \<times> int) option" where
  "rdbSaveLzfStringObject junk htab rdb s len =
     (if len \<le> 4 then Some (rdb, 0)
      else do {
        let outlen = len - 4;
        (out, comprlen) \<leftarrow> lzf_compress htab s len (map junk [0..<outlen + 1]) outlen;
        if comprlen = 0 then Some (rdb, 0) else save_lzf_data junk rdb out comprlen len
      })"

definition rdbLoadLzfStringObject :: "(nat \<Rightarrow> byte) \<Rightarrow> rio \<Rightarrow> (rio \<times> robj option) option" where
  "rdbLoadLzfStringObject junk r = do {
     (r, e, clen) \<leftarrow> rdbLoadLen r;
     if clen = REDIS_RDB_LENERR then Some (r, None)
     else do {
       (r, e, len) \<leftarrow> rdbLoadLen r;
       if len = REDIS_RDB_LENERR then Some (r, None)
       else do {
         val \<leftarrow> sdsnewlen junk None (unat len);
         (r, c) \<leftarrow> rioRead r (unat clen);
         (case c of
            None \<Rightarrow> Some (r, None)
          | Some c \<Rightarrow> do {
              d \<leftarrow> lzf_decompress c (unat clen) (sds_buf val) (unat len);
              (case d of
                 Inl _ \<Rightarrow> Some (r, None)
               | Inr (buf, n) \<Rightarrow>
                   if n = 0 then Some (r, None)
                   else Some (r, Some (createStringObject (sds_str (val\<lparr>sds_buf := buf\<rparr>)))))
            })
       }
     }
   }"

text \<open>\<open>s\<close> is the string with the NUL behind it.\<close>

definition rdbSaveRawString ::
    "(nat \<Rightarrow> byte) \<Rightarrow> (nat \<Rightarrow> int) \<Rightarrow> bool \<Rightarrow> rio option \<Rightarrow> byte list \<Rightarrow> nat \<Rightarrow> (rio option \<times> int) option" where
  "rdbSaveRawString junk htab compression rdb s len = do {
     (buf, enclen) \<leftarrow>
       (if len \<le> 11 then rdbTryIntegerEncoding junk s len (stackbuf junk 5) else Some ([], 0));
     if enclen > 0 then do {
       (rdb, n) \<leftarrow> rdbWriteRaw junk rdb buf enclen;
       Some (rdb, if n = -1 then -1 else int enclen)
     } else do {
       (rdb, n) \<leftarrow> (if compression \<and> len > 20 then rdbSaveLzfStringObject junk htab rdb s len else Some (rdb, 0));
       if n = -1 then Some (rdb, -1)
       else if n > 0 then Some (rdb, n)
       else do {
         (rdb, n) \<leftarrow> rdbSaveLen junk rdb (of_nat len);
         if n = -1 then Some (rdb, -1)
         else do {
           let nwritten = n;
           if len > 0 then do {
             (rdb, n) \<leftarrow> rdbWriteRaw junk rdb s len;
             Some (rdb, if n = -1 then -1 else sint (word_of_int (nwritten + int len) :: u32))
           } else Some (rdb, nwritten)
         }
       }
     }
   }"

definition rdbSaveLongLongAsStringObject :: "(nat \<Rightarrow> byte) \<Rightarrow> rio option \<Rightarrow> u64 \<Rightarrow> (rio option \<times> int) option" where
  "rdbSaveLongLongAsStringObject junk rdb v = do {
     (buf, enclen) \<leftarrow> rdbEncodeInteger v (stackbuf junk 32);
     if enclen > 0 then rdbWriteRaw junk rdb buf enclen
     else do {
       (buf, l) \<leftarrow> ll2string buf 32 v;
       let enclen = unat l;
       if \<not> enclen < 32 then None
       else do {
         (rdb, n) \<leftarrow> rdbSaveLen junk rdb (of_nat enclen);
         if n = -1 then Some (rdb, -1)
         else do {
           let nwritten = n;
           (rdb, n) \<leftarrow> rdbWriteRaw junk rdb buf enclen;
           Some (rdb, if n = -1 then -1 else nwritten + n)
         }
       }
     }
   }"

definition rdbSaveStringObject ::
    "(nat \<Rightarrow> byte) \<Rightarrow> (nat \<Rightarrow> int) \<Rightarrow> bool \<Rightarrow> rio option \<Rightarrow> robj \<Rightarrow> (rio option \<times> int) option" where
  "rdbSaveStringObject junk htab compression rdb obj =
     (case o_ptr obj of
        REDIS_ENCODING_INT v \<Rightarrow> rdbSaveLongLongAsStringObject junk rdb v
      | REDIS_ENCODING_RAW s \<Rightarrow> rdbSaveRawString junk htab compression rdb (s @ [0]) (length s))"

definition rdbGenericLoadStringObject ::
    "(nat \<Rightarrow> byte) \<Rightarrow> (int \<Rightarrow> robj) \<Rightarrow> rio \<Rightarrow> bool \<Rightarrow> (rio \<times> robj option) option" where
  "rdbGenericLoadStringObject junk shared r encode = do {
     (r, isencoded, len) \<leftarrow> rdbLoadLen r;
     if isencoded then
       if len = 0 \<or> len = 1 \<or> len = 2 then rdbLoadIntegerObject junk shared r len encode
       else if len = 3 then rdbLoadLzfStringObject junk r
       else None
     else if len = REDIS_RDB_LENERR then Some (r, None)
     else do {
       val \<leftarrow> sdsnewlen junk None (unat len);
       (r, b) \<leftarrow> (if len \<noteq> 0 then rioRead r (unat len) else Some (r, Some []));
       (case b of
          None \<Rightarrow> Some (r, None)
        | Some t \<Rightarrow> do {
            buf \<leftarrow> memwrite (sds_buf val) 0 t;
            Some (r, Some (createStringObject (sds_str (val\<lparr>sds_buf := buf\<rparr>))))
          })
     }
   }"

definition rdbLoadStringObject :: "(nat \<Rightarrow> byte) \<Rightarrow> (int \<Rightarrow> robj) \<Rightarrow> rio \<Rightarrow> (rio \<times> robj option) option" where
  "rdbLoadStringObject junk shared r = rdbGenericLoadStringObject junk shared r False"

definition rdbLoadEncodedStringObject :: "(nat \<Rightarrow> byte) \<Rightarrow> (int \<Rightarrow> robj) \<Rightarrow> rio \<Rightarrow> (rio \<times> robj option) option" where
  "rdbLoadEncodedStringObject junk shared r = rdbGenericLoadStringObject junk shared r True"

section \<open>Objects and the payload of DUMP\<close>

text \<open>The branches for objects of type string of \<open>rdbSaveObjectType\<close>, \<open>rdbSaveObject\<close> and
  \<open>rdbLoadObject\<close>.\<close>

abbreviation REDIS_RDB_TYPE_STRING :: byte where "REDIS_RDB_TYPE_STRING \<equiv> 0"

definition rdbSaveObjectType :: "(nat \<Rightarrow> byte) \<Rightarrow> rio option \<Rightarrow> robj \<Rightarrow> (rio option \<times> int) option" where
  "rdbSaveObjectType junk rdb ob = rdbSaveType junk rdb REDIS_RDB_TYPE_STRING"

definition rdbSaveObject ::
    "(nat \<Rightarrow> byte) \<Rightarrow> (nat \<Rightarrow> int) \<Rightarrow> bool \<Rightarrow> rio option \<Rightarrow> robj \<Rightarrow> (rio option \<times> int) option" where
  "rdbSaveObject junk htab compression rdb ob = do {
     (rdb, n) \<leftarrow> rdbSaveStringObject junk htab compression rdb ob;
     Some (rdb, if n = -1 then -1 else n)
   }"

definition rdbIsObjectType :: "int \<Rightarrow> bool" where
  "rdbIsObjectType t \<longleftrightarrow> t \<ge> 0 \<and> t \<le> 4 \<or> t \<ge> 9 \<and> t \<le> 13"

definition rdbLoadObjectType :: "rio \<Rightarrow> (rio \<times> int) option" where
  "rdbLoadObjectType r = do {
     (r, type) \<leftarrow> rdbLoadType r;
     Some (r, if type = -1 then -1 else if \<not> rdbIsObjectType type then -1 else type)
   }"

definition rdbLoadObject_string ::
    "(nat \<Rightarrow> byte) \<Rightarrow> bool \<Rightarrow> (int \<Rightarrow> robj) \<Rightarrow> rio \<Rightarrow> (rio \<times> robj option) option" where
  "rdbLoadObject_string junk use_shared shared r = do {
     (r, ob) \<leftarrow> rdbLoadEncodedStringObject junk shared r;
     Some (r, map_option (tryObjectEncoding use_shared shared) ob)
   }"

abbreviation REDIS_RDB_VERSION :: u16 where "REDIS_RDB_VERSION \<equiv> 6"

definition createDumpPayload :: "(nat \<Rightarrow> byte) \<Rightarrow> (nat \<Rightarrow> int) \<Rightarrow> bool \<Rightarrow> robj \<Rightarrow> sds option" where
  "createDumpPayload junk htab compression ob = do {
     s \<leftarrow> sdsempty junk;
     (payload, n) \<leftarrow> rdbSaveObjectType junk (Some (rioInitWithBuffer s)) ob;
     if n = 0 then None
     else do {
       (payload, n) \<leftarrow> rdbSaveObject junk htab compression payload ob;
       if n = 0 then None
       else do {
         payload \<leftarrow> payload;
         ptr \<leftarrow> sdscatlen junk (rio_ptr payload) [ucast REDIS_RDB_VERSION, ucast (drop_bit 8 REDIS_RDB_VERSION)] 2;
         crc \<leftarrow> crc64 0 (sds_buf ptr) (sdslen ptr);
         sdscatlen junk ptr (le_bytes 8 (unat crc)) 8
       }
     }
   }"

text \<open>\<open>True\<close> is \<open>REDIS_OK\<close>.\<close>

definition verifyDumpPayload :: "byte list \<Rightarrow> nat \<Rightarrow> bool option" where
  "verifyDumpPayload p len =
     (if len < 10 then Some False
      else do {
        let footer = len - 10;
        f1 \<leftarrow> rd p (footer + 1);
        f0 \<leftarrow> rd p footer;
        let rdbver = (push_bit 8 (ucast f1) OR ucast f0 :: u16);
        if rdbver \<noteq> REDIS_RDB_VERSION then Some False
        else do {
          crc \<leftarrow> crc64 0 p (len - 8);
          f \<leftarrow> memread p (footer + 2) 8;
          Some (memcmp (le_bytes 8 (unat crc)) f = 0)
        }
      })"

text \<open>What \<open>restoreCommand\<close> does with the payload: the two errors it replies with, or the object.\<close>

datatype restore_error = Wrong_Checksum | Bad_Data

definition restore_payload ::
    "(nat \<Rightarrow> byte) \<Rightarrow> bool \<Rightarrow> (int \<Rightarrow> robj) \<Rightarrow> sds \<Rightarrow> (restore_error + robj) option" where
  "restore_payload junk use_shared shared arg = do {
     ok \<leftarrow> verifyDumpPayload (sds_buf arg) (sdslen arg);
     if \<not> ok then Some (Inl Wrong_Checksum)
     else do {
       (r, type) \<leftarrow> rdbLoadObjectType (rioInitWithBuffer arg);
       if type = -1 then Some (Inl Bad_Data)
       else if type \<noteq> uint REDIS_RDB_TYPE_STRING then None
       else do {
         (r, ob) \<leftarrow> rdbLoadObject_string junk use_shared shared r;
         (case ob of None \<Rightarrow> Some (Inl Bad_Data) | Some ob \<Rightarrow> Some (Inr ob))
       }
     }
   }"

section \<open>Lengths\<close>

lemma c_int_small: "n < 2 ^ 31 \<Longrightarrow> c_int n = int n"
  using sint_of_int_range [of "int n", where ?'a = 32] by (simp add: c_int_def)

lemma rdbWriteRaw_ok:
  assumes "rio_room r len" "len \<le> length p" "len < 2 ^ 31"
  shows "\<exists>r'. rdbWriteRaw junk (Some r) p len = Some (Some r', int len) \<and> rio_wrote r (take len p) r'"
  using rioWrite_ok [OF assms(1,2), of junk] assms(3) by (auto simp: rdbWriteRaw_def c_int_small)

lemma rdbWriteRaw_all:
  assumes "rio_room r (length p)" "length p < 2 ^ 31"
  shows "\<exists>r'. rdbWriteRaw junk (Some r) p (length p) = Some (Some r', int (length p)) \<and> rio_wrote r p r'"
  using rdbWriteRaw_ok [OF assms(1) order.refl assms(2), of junk] by simp

lemma rioRead1:
  assumes "rio_at r (b # t)"
  shows "\<exists>r'. rioRead r 1 = Some (r', Some [b]) \<and> rio_at r' t"
  using rioRead_ok [of r "[b]" t] assms by auto

lemma rioReadn:
  assumes "rio_at r (b @ t)" "length b = n"
  shows "\<exists>r'. rioRead r n = Some (r', Some b) \<and> rio_at r' t"
  using rioRead_ok [OF assms(1)] assms(2) by auto

definition len_bytes :: "u32 \<Rightarrow> byte list" where
  "len_bytes len =
     (if len < 2 ^ 6 then [ucast len]
      else if len < 2 ^ 14 then [ucast (drop_bit 8 len) OR push_bit 6 1, ucast len]
      else [push_bit 6 2] @ htonl_bytes len)"

lemma length_len_bytes: "length (len_bytes len) \<le> 5" "0 < length (len_bytes len)"
  by (simp_all add: len_bytes_def htonl_bytes_def)

lemma rdbSaveLen_ok:
  assumes "rio_room r 5"
  shows "\<exists>r'. rdbSaveLen junk (Some r) len = Some (Some r', int (length (len_bytes len))) \<and> rio_wrote r (len_bytes len) r'"
proof -
  consider "len < 2 ^ 6" | "\<not> len < 2 ^ 6" "len < 2 ^ 14" | "\<not> len < 2 ^ 6" "\<not> len < 2 ^ 14" by blast
  then show ?thesis
  proof cases
    case 1
    then show ?thesis
      using rdbWriteRaw_all [of r "[ucast len]" junk] rio_room_mono [OF assms] by (auto simp: rdbSaveLen_def len_bytes_def)
  next
    case 2
    then show ?thesis
      using rdbWriteRaw_ok [of r 2 "[ucast (drop_bit 8 len) OR push_bit 6 1, ucast len]" junk] rio_room_mono [OF assms]
      by (auto simp: rdbSaveLen_def len_bytes_def)
  next
    case 3
    obtain r1 where r1: "rdbWriteRaw junk (Some r) [push_bit 6 2] 1 = Some (Some r1, 1)" "rio_wrote r [push_bit 6 2] r1"
      using rdbWriteRaw_all [of r "[push_bit 6 2]" junk] rio_room_mono [OF assms] by auto
    have l: "length (htonl_bytes len) = 4" by (simp add: htonl_bytes_def)
    obtain r2 where r2: "rdbWriteRaw junk (Some r1) (htonl_bytes len) 4 = Some (Some r2, 4)" "rio_wrote r1 (htonl_bytes len) r2"
      using rdbWriteRaw_all [of r1 "htonl_bytes len" junk] rio_room_wrote [OF _ r1(2), of 4] assms by (auto simp: l)
    show ?thesis using 3 r1 r2 rio_wrote_trans [OF r1(2) r2(2)] l by (simp add: rdbSaveLen_def len_bytes_def)
  qed
qed

lemma bit_below: "(w :: 'a::len word) < 2 ^ k \<Longrightarrow> bit w n \<Longrightarrow> n < k"
proof -
  assume w: "w < 2 ^ k" "bit w n"
  have "unat (2 ^ k :: 'a word) = 2 ^ k mod 2 ^ LENGTH('a)"
    using unsigned_of_nat [of "2 ^ k", where ?'b = 'a and ?'a = nat] by (simp add: take_bit_eq_mod)
  then have "unat (2 ^ k :: 'a word) \<le> 2 ^ k" by simp
  then have "unat w < 2 ^ k" using w(1) by (simp add: word_less_nat_alt)
  moreover have "odd (unat w div 2 ^ n)" using w(2) by (simp add: bit_unsigned_iff flip: bit_iff_odd)
  then have "2 ^ n \<le> unat w" by (metis div_less even_zero not_le)
  ultimately have "(2 :: nat) ^ n < 2 ^ k" by linarith
  then show "n < k" by simp
qed

lemma byte_bits_eqI: "(\<And>n. n < 8 \<Longrightarrow> bit a n = bit b n) \<Longrightarrow> a = (b :: byte)"
  by (rule bit_word_eqI) simp

lemma less_8_cases: "n < (8 :: nat) \<longleftrightarrow> n = 0 \<or> n = 1 \<or> n = 2 \<or> n = 3 \<or> n = 4 \<or> n = 5 \<or> n = 6 \<or> n = 7"
  by auto

lemma bit_small_int: "bit (63 :: int) n \<longleftrightarrow> n < 6" "bit (64 :: int) n \<longleftrightarrow> n = 6"
proof -
  have "bit (63 :: int) n = (n < 6) \<and> bit (64 :: int) n = (n = 6)"
  proof (cases "n < 8")
    case True
    then show ?thesis unfolding less_8_cases by (elim disjE) simp_all
  next
    case False
    then have "(2 :: int) ^ 8 \<le> 2 ^ n" by (intro power_increasing) auto
    then have "(63 :: int) div 2 ^ n = 0" "(64 :: int) div 2 ^ n = 0" by (auto intro: div_pos_pos_trivial)
    then show ?thesis using False by (auto simp: bit_iff_odd)
  qed
  then show "bit (63 :: int) n \<longleftrightarrow> n < 6" "bit (64 :: int) n \<longleftrightarrow> n = 6" by blast+
qed

lemma len_6bit:
  assumes "len < (2 ^ 6 :: u32)"
  shows "drop_bit 6 ((ucast len :: byte) AND 0xC0) = 0" "ucast ((ucast len :: byte) AND 0x3F) = len"
proof -
  have b: "bit len n \<Longrightarrow> n < 6" for n using bit_below [OF assms] by blast
  show "drop_bit 6 ((ucast len :: byte) AND 0xC0) = 0"
    using b by (intro byte_bits_eqI) (force simp: bit_drop_bit_eq bit_and_iff bit_ucast_iff)
  show "ucast ((ucast len :: byte) AND 0x3F) = len"
  proof (rule bit_word_eqI)
    fix n
    show "bit (ucast ((ucast len :: byte) AND 0x3F) :: u32) n = bit len n"
      using b [of n] by (auto simp: bit_ucast_iff bit_and_iff bit_small_int)
  qed
qed

lemma len_14bit:
  assumes "len < (2 ^ 14 :: u32)"
  defines "b0 \<equiv> ucast (drop_bit 8 len) OR push_bit 6 1 :: byte"
  shows "drop_bit 6 (b0 AND 0xC0) = 1" "push_bit 8 (ucast (b0 AND 0x3F)) OR ucast (ucast len :: byte) = len"
proof -
  have b: "bit len n \<Longrightarrow> n < 14" for n using bit_below [OF assms(1)] by blast
  show "drop_bit 6 (b0 AND 0xC0) = 1"
  proof (rule byte_bits_eqI)
    fix n :: nat assume "n < 8"
    moreover have "\<not> bit len 14" "\<not> bit len 15" using b [of 14] b [of 15] by auto
    ultimately show "bit (drop_bit 6 (b0 AND 0xC0)) n = bit 1 n"
      unfolding less_8_cases b0_def
      by (elim disjE) (simp_all add: bit_drop_bit_eq bit_and_iff bit_or_iff bit_ucast_iff)
  qed
  show "push_bit 8 (ucast (b0 AND 0x3F)) OR ucast (ucast len :: byte) = len"
  proof (rule bit_word_eqI)
    fix n
    show "bit (push_bit 8 (ucast (b0 AND 0x3F)) OR ucast (ucast len :: byte) :: u32) n = bit len n"
      using b [of n] unfolding b0_def
      by (auto simp: bit_push_bit_iff bit_ucast_iff bit_and_iff bit_or_iff bit_drop_bit_eq bit_small_int not_le)
  qed
qed

lemma ntohl_htonl: "ntohl_bytes (htonl_bytes v) = v"
proof -
  have "unat v mod 256 ^ 4 = unat v" using unsigned_less [of v, where ?'a = nat] by simp
  then show ?thesis by (simp add: ntohl_bytes_def htonl_bytes_def le_val_le_bytes)
qed

lemma rdbLoadLen_ok:
  assumes "rio_at r (len_bytes len @ t)"
  shows "\<exists>r'. rdbLoadLen r = Some (r', False, len) \<and> rio_at r' t"
proof -
  consider "len < 2 ^ 6" | "\<not> len < 2 ^ 6" "len < 2 ^ 14" | "\<not> len < 2 ^ 6" "\<not> len < 2 ^ 14" by blast
  then show ?thesis
  proof cases
    case 1
    obtain r1 where "rioRead r 1 = Some (r1, Some [ucast len])" "rio_at r1 t"
      using rioRead1 [of r "ucast len" t] assms 1 by (auto simp: len_bytes_def)
    then show ?thesis using len_6bit [OF 1] by (simp add: rdbLoadLen_def Let_def rd_def)
  next
    case 2
    define b0 where "b0 = (ucast (drop_bit 8 len) OR push_bit 6 1 :: byte)"
    obtain r1 where r1: "rioRead r 1 = Some (r1, Some [b0])" "rio_at r1 (ucast len # t)"
      using rioRead1 [of r b0 "ucast len # t"] assms 2 by (auto simp: len_bytes_def b0_def)
    obtain r2 where r2: "rioRead r1 1 = Some (r2, Some [ucast len])" "rio_at r2 t" using rioRead1 [OF r1(2)] by blast
    have "drop_bit 6 (b0 AND 0xC0) = 1" "push_bit 8 (ucast (b0 AND 0x3F)) OR ucast (ucast len :: byte) = len"
      unfolding b0_def by (rule len_14bit [OF 2(2)])+
    then show ?thesis using r1(1) r2 unfolding rdbLoadLen_def by (simp add: rd_def)
  next
    case 3
    obtain r1 where r1: "rioRead r 1 = Some (r1, Some [push_bit 6 2])" "rio_at r1 (htonl_bytes len @ t)"
      using rioRead1 [of r "push_bit 6 2" "htonl_bytes len @ t"] assms 3 by (auto simp: len_bytes_def)
    obtain r2 where r2: "rioRead r1 4 = Some (r2, Some (htonl_bytes len))" "rio_at r2 t"
      using rioReadn [OF r1(2), of 4] by (auto simp: htonl_bytes_def)
    show ?thesis using r1(1) r2 by (simp add: rdbLoadLen_def rd_def ntohl_htonl)
  qed
qed

section \<open>Integers\<close>

definition in_int32 :: "u64 \<Rightarrow> bool" where
  "in_int32 v \<longleftrightarrow> - (2 ^ 31) \<le> sint v \<and> sint v \<le> 2 ^ 31 - 1"

definition int_bytes :: "u64 \<Rightarrow> byte list" where
  "int_bytes v =
     (if sint v \<ge> - (2 ^ 7) \<and> sint v \<le> 2 ^ 7 - 1 then [0xC0, ucast v]
      else if sint v \<ge> - (2 ^ 15) \<and> sint v \<le> 2 ^ 15 - 1 then [0xC1, ucast v, ucast (drop_bit 8 v)]
      else [0xC2, ucast v, ucast (drop_bit 8 v), ucast (drop_bit 16 v), ucast (drop_bit 24 v)])"

lemma rdbEncodeInteger_ok:
  assumes "5 \<le> length enc"
  shows "rdbEncodeInteger v enc =
    (if in_int32 v then Some (int_bytes v @ drop (length (int_bytes v)) enc, length (int_bytes v)) else Some (enc, 0))"
  using assms by (simp add: rdbEncodeInteger_def in_int32_def int_bytes_def memwrite_def)

lemma length_int_bytes: "length (int_bytes v) \<le> 5" "0 < length (int_bytes v)"
  by (simp_all add: int_bytes_def)

lemma unat_ucast_byte: "unat (ucast (drop_bit n (v :: u64)) :: byte) = unat v div 2 ^ n mod 256"
  by (simp add: unsigned_ucast_eq unat_drop_bit_eq take_bit_eq_mod [where ?'a = nat] drop_bit_eq_div [where ?'a = nat])

lemma le_val_word:
  "(of_nat (le_val [ucast v, ucast (drop_bit 8 v)]) :: u16) = ucast (v :: u64)"
  "(of_nat (le_val [ucast v, ucast (drop_bit 8 v), ucast (drop_bit 16 v), ucast (drop_bit 24 v)]) :: u32) = ucast v"
proof -
  have a: "m mod 256 + 256 * (m div 256 mod 256) = m mod 65536" for m :: nat
    using mod_mult2_eq [of m 256 256] by simp
  have b: "m mod 65536 + 65536 * (m div 65536 mod 65536) = m mod 4294967296" for m :: nat
    using mod_mult2_eq [of m 65536 65536] by simp
  have "le_val [ucast v, ucast (drop_bit 8 v)] = unat v mod 65536"
    using unat_ucast_byte [of 0 v] unat_ucast_byte [of 8 v] a [of "unat v"] by simp
  then show "(of_nat (le_val [ucast v, ucast (drop_bit 8 v)]) :: u16) = ucast v"
    by (simp add: word_unat_eq_iff unsigned_of_nat unsigned_ucast_eq take_bit_eq_mod [where ?'a = nat])
  have "le_val [ucast v, ucast (drop_bit 8 v), ucast (drop_bit 16 v), ucast (drop_bit 24 v)] =
      unat v mod 65536 + 65536 * (unat v div 65536 mod 65536)"
    using unat_ucast_byte [of 0 v] unat_ucast_byte [of 8 v] unat_ucast_byte [of 16 v] unat_ucast_byte [of 24 v] a [of "unat v"]
      a [of "unat v div 65536"] by (simp add: div_mult2_eq [symmetric] algebra_simps)
  then have "le_val [ucast v, ucast (drop_bit 8 v), ucast (drop_bit 16 v), ucast (drop_bit 24 v)] = unat v mod 4294967296"
    using b [of "unat v"] by simp
  then show "(of_nat (le_val [ucast v, ucast (drop_bit 8 v), ucast (drop_bit 16 v), ucast (drop_bit 24 v)]) :: u32) = ucast v"
    by (simp add: word_unat_eq_iff unsigned_of_nat unsigned_ucast_eq take_bit_eq_mod [where ?'a = nat])
qed

lemma rdbLoadIntegerObject_ok:
  assumes "rio_at r (tl (int_bytes v) @ t)" "in_int32 v" "shared_ok shared"
    "k = (if length (int_bytes v) = 2 then 0 else if length (int_bytes v) = 3 then 1 else 2)"
  shows "\<exists>r' ob. rdbLoadIntegerObject junk shared r k encode = Some (r', Some ob) \<and> obj_string ob = sdec (sint v) \<and> rio_at r' t"
proof -
  have fin: "\<exists>ob. (if encode then Some (r', Some (createStringObjectFromLongLong shared v))
      else do { s \<leftarrow> sdsfromlonglong junk v; Some (r', Some (createStringObject (sds_str s))) }) = Some (r', Some ob) \<and>
      obj_string ob = sdec (sint v)" for r'
    using sdsfromlonglong_is [of junk v] assms(3)
    by (auto simp: sds_is_def obj_string_def createStringObject_def createStringObjectFromLongLong_def shared_ok_def incrRefCount_def)
  have "\<exists>r'. rdb_int_value r k = Some (r', Some v) \<and> rio_at r' t"
  proof -
    consider "sint v \<ge> - (2 ^ 7)" "sint v \<le> 2 ^ 7 - 1"
      | "\<not> (sint v \<ge> - (2 ^ 7) \<and> sint v \<le> 2 ^ 7 - 1)" "sint v \<ge> - (2 ^ 15)" "sint v \<le> 2 ^ 15 - 1"
      | "\<not> (sint v \<ge> - (2 ^ 7) \<and> sint v \<le> 2 ^ 7 - 1)" "\<not> (sint v \<ge> - (2 ^ 15) \<and> sint v \<le> 2 ^ 15 - 1)" by blast
    then show ?thesis
    proof cases
      case 1
      then have e: "int_bytes v = [0xC0, ucast v]" by (simp add: int_bytes_def)
      obtain r1 where "rioRead r 1 = Some (r1, Some [ucast v])" "rio_at r1 t" using rioRead1 [of r "ucast v" t] assms(1) e by auto
      moreover have "scast (ucast v :: byte) = v" using 1 by (intro scast_ucast) auto
      ultimately show ?thesis using assms(4) e by (simp add: rdb_int_value_def rd_def)
    next
      case 2
      then have e: "int_bytes v = [0xC1, ucast v, ucast (drop_bit 8 v)]" unfolding int_bytes_def by auto
      obtain r1 where "rioRead r 2 = Some (r1, Some [ucast v, ucast (drop_bit 8 v)])" "rio_at r1 t"
        using rioReadn [of r "[ucast v, ucast (drop_bit 8 v)]" t 2] assms(1) e by auto
      moreover have "scast (ucast v :: u16) = v" using 2 by (intro scast_ucast) auto
      ultimately show ?thesis using assms(4) e le_val_word(1) [of v] by (simp add: rdb_int_value_def del: le_val.simps)
    next
      case 3
      then have e: "int_bytes v = [0xC2, ucast v, ucast (drop_bit 8 v), ucast (drop_bit 16 v), ucast (drop_bit 24 v)]"
        unfolding int_bytes_def by auto
      obtain r1 where "rioRead r 4 = Some (r1, Some [ucast v, ucast (drop_bit 8 v), ucast (drop_bit 16 v), ucast (drop_bit 24 v)])" "rio_at r1 t"
        using rioReadn [of r "[ucast v, ucast (drop_bit 8 v), ucast (drop_bit 16 v), ucast (drop_bit 24 v)]" t 4] assms(1) e by auto
      moreover have "scast (ucast v :: u32) = v" using assms(2) by (intro scast_ucast) (auto simp: in_int32_def)
      ultimately show ?thesis using assms(4) e le_val_word(2) [of v] by (simp add: rdb_int_value_def del: le_val.simps)
    qed
  qed
  then obtain r' where r': "rdb_int_value r k = Some (r', Some v)" "rio_at r' t" by blast
  show ?thesis using fin [of r'] r'(2) unfolding rdbLoadIntegerObject_def r'(1) by auto
qed

section \<open>Strings\<close>

text \<open>The three ways to write a string.\<close>

inductive string_enc :: "byte list \<Rightarrow> byte list \<Rightarrow> bool" where
  se_int: "in_int32 v \<Longrightarrow> string_enc (int_bytes v) (sdec (sint v))"
| se_lzf: "lzf_enc c s \<Longrightarrow> s \<noteq> [] \<Longrightarrow> length c < 2 ^ 31 \<Longrightarrow> length s < 2 ^ 31 \<Longrightarrow> length c \<le> length s \<Longrightarrow>
    string_enc (0xC3 # len_bytes (of_nat (length c)) @ len_bytes (of_nat (length s)) @ c) s"
| se_raw: "length s < 2 ^ 31 \<Longrightarrow> string_enc (len_bytes (of_nat (length s)) @ s) s"

lemma string_enc_length:
  assumes "string_enc e s"
  shows "length e \<le> length s + 11"
  using assms
proof cases
  case (se_int v)
  then show ?thesis using length_int_bytes(1) [of v] by simp
next
  case (se_lzf c)
  then show ?thesis using length_len_bytes(1) [of "of_nat (length c)"] length_len_bytes(1) [of "of_nat (length s)"] by simp
next
  case se_raw
  then show ?thesis using length_len_bytes(1) [of "of_nat (length s)"] by simp
qed

lemma rdbLoadLen_encoded:
  assumes "rio_at r (b # t)" "drop_bit 6 (b AND 0xC0) = 3"
  shows "\<exists>r'. rdbLoadLen r = Some (r', True, ucast (b AND 0x3F)) \<and> rio_at r' t"
  using rioRead1 [OF assms(1)] assms(2) by (auto simp: rdbLoadLen_def rd_def)

lemma len_word:
  assumes "n < 2 ^ 31"
  shows "unat (of_nat n :: u32) = n" "(of_nat n :: u32) \<noteq> REDIS_RDB_LENERR"
proof -
  show u: "unat (of_nat n :: u32) = n" using assms by (intro unat_of_nat_small) simp
  have "unat REDIS_RDB_LENERR \<noteq> n" using assms by simp
  then show "(of_nat n :: u32) \<noteq> REDIS_RDB_LENERR" using u by metis
qed

lemma sdsnewlen_filled:
  assumes "sdsnewlen junk None (length s) = Some val" "length s < 2 ^ 31"
  shows "length (sds_buf val) = length s + 1" "sds_str (val\<lparr>sds_buf := s @ drop (length s) (sds_buf val)\<rparr>) = s"
proof -
  have v: "sds_is val (replicate (length s) 0) 0" using sdsnewlen_zero [of "length s" junk] assms by auto
  show "length (sds_buf val) = length s + 1" using v by (rule sds_is_cases) simp
  show "sds_str (val\<lparr>sds_buf := s @ drop (length s) (sds_buf val)\<rparr>) = s"
    using sds_isD(3) [OF v] by (simp add: sds_str_def sdslen_def)
qed

lemma rdbLoadLzf_ok:
  assumes "rio_at r (len_bytes (of_nat (length c)) @ len_bytes (of_nat (length s)) @ c @ t)" "lzf_enc c s" "s \<noteq> []"
    "length c < 2 ^ 31" "length s < 2 ^ 31"
  shows "\<exists>r'. rdbLoadLzfStringObject junk r = Some (r', Some (createStringObject s)) \<and> rio_at r' t"
proof -
  obtain r1 where r1: "rdbLoadLen r = Some (r1, False, of_nat (length c))" "rio_at r1 (len_bytes (of_nat (length s)) @ c @ t)"
    using rdbLoadLen_ok [OF assms(1)] by blast
  obtain r2 where r2: "rdbLoadLen r1 = Some (r2, False, of_nat (length s))" "rio_at r2 (c @ t)"
    using rdbLoadLen_ok [OF r1(2)] by blast
  obtain r3 where r3: "rioRead r2 (length c) = Some (r3, Some c)" "rio_at r3 t" using rioReadn [OF r2(2)] by blast
  obtain val where val: "sdsnewlen junk None (length s) = Some val" using sdsnewlen_zero [of "length s" junk] assms(5) by auto
  have "lzf_decompress c (length c) (sds_buf val) (length s) = Some (Inr (s @ drop (length s) (sds_buf val), length s))"
    using lzf_decompress_enc [OF assms(2,3), of "length s" "sds_buf val" "[]"] sdsnewlen_filled(1) [OF val assms(5)] by simp
  then show ?thesis
    using r1(1) r2(1) r3 val sdsnewlen_filled(2) [OF val assms(5)] len_word [OF assms(4)] len_word [OF assms(5)] assms(3)
    by (simp add: rdbLoadLzfStringObject_def)
qed

lemma rdbGenericLoad_ok:
  assumes "string_enc e s" "rio_at r (e @ t)" "shared_ok shared"
  shows "\<exists>r' ob. rdbGenericLoadStringObject junk shared r encode = Some (r', Some ob) \<and> obj_string ob = s \<and> rio_at r' t"
  using assms(1)
proof cases
  case (se_int v)
  define k :: u32 where "k = (if length (int_bytes v) = 2 then 0 else if length (int_bytes v) = 3 then 1 else 2)"
  have b: "int_bytes v = hd (int_bytes v) # tl (int_bytes v)" using length_int_bytes(2) [of v] by simp
  have "drop_bit 6 (hd (int_bytes v) AND 0xC0) = 3" "ucast (hd (int_bytes v) AND 0x3F) = k"
    by (auto simp: int_bytes_def k_def)
  then obtain r1 where r1: "rdbLoadLen r = Some (r1, True, k)" "rio_at r1 (tl (int_bytes v) @ t)"
    using rdbLoadLen_encoded [of r "hd (int_bytes v)" "tl (int_bytes v) @ t"] assms(2) se_int(1) b by (metis append_Cons)
  obtain r' ob where o: "rdbLoadIntegerObject junk shared r1 k encode = Some (r', Some ob)" "obj_string ob = sdec (sint v)" "rio_at r' t"
    using rdbLoadIntegerObject_ok [OF r1(2) se_int(3) assms(3) k_def] by blast
  have "k = 0 \<or> k = 1 \<or> k = 2" by (simp add: k_def)
  then show ?thesis using r1(1) o se_int(2) by (auto simp: rdbGenericLoadStringObject_def)
next
  case (se_lzf c)
  obtain r1 where r1: "rdbLoadLen r = Some (r1, True, 3)" "rio_at r1 (len_bytes (of_nat (length c)) @ len_bytes (of_nat (length s)) @ c @ t)"
    using rdbLoadLen_encoded [of r "0xC3" "len_bytes (of_nat (length c)) @ len_bytes (of_nat (length s)) @ c @ t"] assms(2) se_lzf(1) by auto
  then show ?thesis
    using rdbLoadLzf_ok [OF r1(2) se_lzf(2-5), of junk] by (auto simp: rdbGenericLoadStringObject_def createStringObject_def obj_string_def)
next
  case se_raw
  obtain r1 where r1: "rdbLoadLen r = Some (r1, False, of_nat (length s))" "rio_at r1 (s @ t)"
    using rdbLoadLen_ok [of r _ "s @ t"] assms(2) se_raw(1) by auto
  obtain val where val: "sdsnewlen junk None (length s) = Some val" using sdsnewlen_zero [of "length s" junk] se_raw(2) by auto
  obtain r2 where r2: "(if (of_nat (length s) :: u32) \<noteq> 0 then rioRead r1 (length s) else Some (r1, Some [])) = Some (r2, Some s)" "rio_at r2 t"
  proof (cases "s = []")
    case True
    then show ?thesis using that [of r1] r1(2) by simp
  next
    case False
    moreover have "(of_nat (length s) :: u32) \<noteq> 0" using len_word(1) [OF se_raw(2)] False by auto
    ultimately show ?thesis using that rioReadn [OF r1(2) refl] by auto
  qed
  have w: "memwrite (sds_buf val) 0 s = Some (s @ drop (length s) (sds_buf val))"
    using sdsnewlen_filled(1) [OF val se_raw(2)] by (simp add: memwrite_def)
  show ?thesis
    unfolding rdbGenericLoadStringObject_def r1(1) bind.simps prod.case len_word(1) [OF se_raw(2)] val r2(1) option.case w
      sdsnewlen_filled(2) [OF val se_raw(2)]
    using len_word(2) [OF se_raw(2)] r2(2) by (simp add: createStringObject_def obj_string_def)
qed

section \<open>Saving a string\<close>

lemma dropWhile_end: "\<not> P z \<Longrightarrow> \<exists>q. dropWhile P (p @ [z]) = q @ [z]"
  by (induction p) auto

lemma strtoll_rest: "fst (snd (strtoll (s @ [0]))) \<noteq> []"
proof -
  obtain q where q: "dropWhile isspace (s @ [0]) = q @ [0]" using dropWhile_end [of isspace 0 s] by (auto simp: isspace_def)
  obtain q' where q': "(case q @ [0] of c # p \<Rightarrow> if c = 45 \<or> c = 43 then p else q @ [0] | [] \<Rightarrow> []) = q' @ [0 :: byte]"
  proof (cases q)
    case (Cons a l)
    then show ?thesis using that [of "if a = 45 \<or> a = 43 then l else a # l"] by simp
  qed (use that [of "[]"] in simp)
  have "\<not> isdigit 0" by simp
  then have "dropWhile isdigit (q' @ [0]) \<noteq> []" using dropWhile_end [of isdigit 0 q'] by auto
  then show ?thesis unfolding strtoll_def q Let_def q' by simp
qed

lemma rdbTryIntegerEncoding_ok:
  assumes "5 \<le> length enc"
  shows "\<exists>enc' n. rdbTryIntegerEncoding junk (s @ [0]) (length s) enc = Some (enc', n) \<and>
    (n = 0 \<or> (\<exists>v. in_int32 v \<and> s = sdec (sint v) \<and> n = length (int_bytes v) \<and> n \<le> length enc' \<and> take n enc' = int_bytes v))"
proof -
  obtain v endptr er where st: "strtoll (s @ [0]) = (v, endptr, er)" by (cases "strtoll (s @ [0])")
  obtain c p where e: "endptr = c # p" using strtoll_rest [of s] st by (cases endptr) auto
  define w :: u64 where "w = word_of_int v"
  define d where "d = sdec (sint w)"
  obtain z where ll: "ll2string (stackbuf junk 32) 32 w = Some (d @ 0 # z, of_nat (length d))"
    using ll2string_stackbuf [of 32 junk w] by (simp add: d_def)
  have "0 \<notin> set d" using sdec_nonzero by (auto simp: d_def)
  then have sl: "strlen (d @ 0 # z) = Some (length d)" by (rule strlen_terminated)
  show ?thesis
  proof (cases "c = 0 \<and> d = s")
    case False
    have "memread (d @ 0 # z) 0 (length s) = Some d" "memread (s @ [0]) 0 (length s) = Some s" if "length d = length s"
      using that by (simp_all add: memread_def)
    then have "rdbTryIntegerEncoding junk (s @ [0]) (length s) enc = Some (enc, 0)"
      using False e memcmp_eq [of d s] unfolding rdbTryIntegerEncoding_def st by (auto simp: rd_def ll sl w_def [symmetric])
    then show ?thesis by simp
  next
    case True
    then have "rdbTryIntegerEncoding junk (s @ [0]) (length s) enc = rdbEncodeInteger w enc"
      using e memcmp_eq [of s s] sl unfolding rdbTryIntegerEncoding_def st by (simp add: rd_def ll w_def [symmetric] memread_def)
    then show ?thesis using True rdbEncodeInteger_ok [OF assms, of w] length_int_bytes [of w] by (auto simp: d_def)
  qed
qed

lemma save_lzf_data_ok:
  fixes len :: nat
  assumes "rio_room r (comprlen + 11)" "comprlen \<le> length out" "comprlen < 2 ^ 31 - 16"
  defines "e \<equiv> 0xC3 # len_bytes (of_nat comprlen) @ len_bytes (of_nat len) @ take comprlen out"
  shows "\<exists>r'. save_lzf_data junk (Some r) out comprlen len = Some (Some r', int (length e)) \<and> rio_wrote r e r'"
proof -
  let ?lc = "len_bytes (of_nat comprlen)" and ?ll = "len_bytes (of_nat len)"
  obtain r1 where r1: "rdbWriteRaw junk (Some r) [push_bit 6 3 OR 3] 1 = Some (Some r1, 1)" "rio_wrote r [0xC3] r1"
    using rdbWriteRaw_all [of r "[push_bit 6 3 OR 3]" junk] rio_room_mono [OF assms(1)] by auto
  have m1: "rio_room r1 (comprlen + 10)" using rio_room_wrote [OF _ r1(2), of "comprlen + 10"] assms(1) by (simp add: numeral_eq_Suc)
  obtain r2 where r2: "rdbSaveLen junk (Some r1) (of_nat comprlen) = Some (Some r2, int (length ?lc))" "rio_wrote r1 ?lc r2"
    using rdbSaveLen_ok [of r1 junk "of_nat comprlen"] rio_room_mono [OF m1] by auto
  have m2: "rio_room r2 (comprlen + 5)" using rio_room_wrote [OF _ r2(2)] rio_room_mono [OF m1] length_len_bytes by simp
  obtain r3 where r3: "rdbSaveLen junk (Some r2) (of_nat len) = Some (Some r3, int (length ?ll))" "rio_wrote r2 ?ll r3"
    using rdbSaveLen_ok [of r2 junk "of_nat len"] rio_room_mono [OF m2] by auto
  have m3: "rio_room r3 comprlen" using rio_room_wrote [OF _ r3(2)] rio_room_mono [OF m2] length_len_bytes by simp
  obtain r4 where r4: "rdbWriteRaw junk (Some r3) out comprlen = Some (Some r4, int comprlen)" "rio_wrote r3 (take comprlen out) r4"
    using rdbWriteRaw_ok [OF m3 assms(2), of junk] assms(3) by auto
  have "rio_wrote r e r4"
    using rio_wrote_trans [OF r1(2) rio_wrote_trans [OF r2(2) rio_wrote_trans [OF r3(2) r4(2)]]] by (simp add: e_def)
  then show ?thesis using r1(1) r2(1) r3(1) r4(1) assms(2) by (auto simp: save_lzf_data_def e_def)
qed

lemma rdbSaveLzf_ok:
  assumes "rio_room r (length s + 16)" "length s < 2 ^ 31 - 16"
  shows "(rdbSaveLzfStringObject junk htab (Some r) (s @ z) (length s) = Some (Some r, 0)) \<or>
    (\<exists>r' e. rdbSaveLzfStringObject junk htab (Some r) (s @ z) (length s) = Some (Some r', int (length e)) \<and>
       rio_wrote r e r' \<and> string_enc e s \<and> e \<noteq> [])"
proof (cases "length s \<le> 4")
  case True
  then show ?thesis by (simp add: rdbSaveLzfStringObject_def)
next
  case False
  define outlen where "outlen = length s - 4"
  obtain out n where c: "lzf_compress htab (s @ z) (length s) (map junk [0..<outlen + 1]) outlen = Some (out, n)"
    "n \<noteq> 0 \<longrightarrow> n \<le> outlen \<and> length out = outlen + 1 \<and> lzf_enc (take n out) s"
    using lzf_compress_ok [of "length s" "s @ z" "map junk [0..<outlen + 1]" outlen htab] False by auto
  show ?thesis
  proof (cases "n = 0")
    case True
    then show ?thesis using c(1) False by (simp add: rdbSaveLzfStringObject_def outlen_def [symmetric] del: upt_Suc)
  next
    case n: False
    then have c2: "n \<le> outlen" "n < length out" "lzf_enc (take n out) s" using c(2) by auto
    define e where "e = 0xC3 # len_bytes (of_nat n) @ len_bytes (of_nat (length s)) @ take n out"
    obtain r' where r': "save_lzf_data junk (Some r) out n (length s) = Some (Some r', int (length e))" "rio_wrote r e r'"
      using save_lzf_data_ok [of r n out junk "length s"] rio_room_mono [OF assms(1)] c2 assms(2) unfolding e_def [symmetric] outlen_def by fastforce
    have "string_enc e s"
    proof -
      have "s \<noteq> []" "n < 2 ^ 31" "n \<le> length s" using False c2(1) assms(2) by (auto simp: outlen_def)
      then show ?thesis using se_lzf [OF c2(3)] c2(2) assms(2) by (auto simp: e_def)
    qed
    then show ?thesis
      using c(1) n r' False
      by (intro disjI2 exI [of _ r'] exI [of _ e]) (auto simp: rdbSaveLzfStringObject_def outlen_def [symmetric] e_def simp del: upt_Suc)
  qed
qed

lemma raw_writes:
  assumes "rio_room r (length s + 5)" "length s < 2 ^ 31 - 16"
  shows "\<exists>r1 r2. rdbSaveLen junk (Some r) (of_nat (length s)) = Some (Some r1, int (length (len_bytes (of_nat (length s))))) \<and>
    rdbWriteRaw junk (Some r1) (s @ z) (length s) = Some (Some r2, int (length s)) \<and>
    rio_wrote r (len_bytes (of_nat (length s)) @ s) r2"
proof -
  let ?l = "len_bytes (of_nat (length s))"
  obtain r1 where r1: "rdbSaveLen junk (Some r) (of_nat (length s)) = Some (Some r1, int (length ?l))" "rio_wrote r ?l r1"
    using rdbSaveLen_ok [of r junk "of_nat (length s)"] rio_room_mono [OF assms(1)] by auto
  have "rio_room r1 (length s)" using rio_room_wrote [OF _ r1(2)] rio_room_mono [OF assms(1)] length_len_bytes by simp
  then obtain r2 where "rdbWriteRaw junk (Some r1) (s @ z) (length s) = Some (Some r2, int (length s))" "rio_wrote r1 s r2"
    using rdbWriteRaw_ok [of r1 "length s" "s @ z" junk] assms(2) by auto
  then show ?thesis using r1 rio_wrote_trans [OF r1(2)] by blast
qed

lemma rdbSaveRawString_ok:
  assumes "rio_room r (length s + 16)" "length s < 2 ^ 31 - 16"
  shows "\<exists>r' e. rdbSaveRawString junk htab compression (Some r) (s @ [0]) (length s) = Some (Some r', int (length e)) \<and>
    rio_wrote r e r' \<and> string_enc e s \<and> e \<noteq> []"
proof -
  obtain buf n where enc: "(if length s \<le> 11 then rdbTryIntegerEncoding junk (s @ [0]) (length s) (stackbuf junk 5) else Some ([], 0)) = Some (buf, n)"
    "n = 0 \<or> (\<exists>v. in_int32 v \<and> s = sdec (sint v) \<and> n = length (int_bytes v) \<and> n \<le> length buf \<and> take n buf = int_bytes v)"
    using rdbTryIntegerEncoding_ok [of "stackbuf junk 5" junk s] by (cases "length s \<le> 11") auto
  show ?thesis
  proof (cases "n = 0")
    case False
    then obtain v where v: "in_int32 v" "s = sdec (sint v)" "n = length (int_bytes v)" "n \<le> length buf" "take n buf = int_bytes v"
      using enc(2) by blast
    obtain r' where "rdbWriteRaw junk (Some r) buf n = Some (Some r', int n)" "rio_wrote r (int_bytes v) r'"
      using rdbWriteRaw_ok [of r n buf junk] v length_int_bytes [of v] rio_room_mono [OF assms(1)] by auto
    then show ?thesis unfolding rdbSaveRawString_def enc(1) using se_int [OF v(1)] v(2,3) False by auto
  next
    case True
    define lz where "lz = (if compression \<and> length s > 20 then rdbSaveLzfStringObject junk htab (Some r) (s @ [0]) (length s) else Some (Some r, 0))"
    consider "lz = Some (Some r, 0)" | r' e where "lz = Some (Some r', int (length e))" "rio_wrote r e r'" "string_enc e s" "e \<noteq> []"
    proof (cases "compression \<and> 20 < length s")
      case True
      then have "lz = rdbSaveLzfStringObject junk htab (Some r) (s @ [0]) (length s)" by (simp add: lz_def)
      then show ?thesis using rdbSaveLzf_ok [OF assms, of junk htab "[0]"] that by metis
    qed (use that in \<open>auto simp: lz_def\<close>)
    then show ?thesis
    proof cases
      case 1
      let ?l = "len_bytes (of_nat (length s))"
      obtain r1 r2 where w: "rdbSaveLen junk (Some r) (of_nat (length s)) = Some (Some r1, int (length ?l))"
        "rdbWriteRaw junk (Some r1) (s @ [0]) (length s) = Some (Some r2, int (length s))" "rio_wrote r (?l @ s) r2"
        using raw_writes [of r s junk "[0]"] rio_room_mono [OF assms(1)] assms(2) by auto
      have i: "sint (word_of_int (int (length ?l) + int (length s)) :: u32) = int (length (?l @ s))"
        using length_len_bytes(1) [of "of_nat (length s)"] assms(2) by (subst sint_of_int_range) auto
      have e: "string_enc (?l @ s) s" "?l @ s \<noteq> []" using se_raw [of s] assms(2) length_len_bytes(2) [of "of_nat (length s)"] by auto
      show ?thesis
      proof (cases "s = []")
        case True
        then have "rio_wrote r ?l r1" "?l = ?l @ s" using rdbSaveLen_ok [of r junk "of_nat (length s)"] rio_room_mono [OF assms(1)] w(1) by auto
        then show ?thesis unfolding rdbSaveRawString_def enc(1) lz_def [symmetric] 1 using True e w(1) \<open>n = 0\<close> by auto
      next
        case False
        then show ?thesis unfolding rdbSaveRawString_def enc(1) lz_def [symmetric] 1 using e w i \<open>n = 0\<close>
          by (auto simp: Let_def intro!: exI [of _ r2] exI [of _ "?l @ s"])
      qed
    next
      case 2
      then have "0 < int (length e)" by simp
      then show ?thesis unfolding rdbSaveRawString_def enc(1) lz_def [symmetric] 2(1) using 2(2-4) True by auto
    qed
  qed
qed

lemma rdbSaveLongLong_ok:
  assumes "rio_room r 40"
  shows "\<exists>r' e. rdbSaveLongLongAsStringObject junk (Some r) v = Some (Some r', int (length e)) \<and> rio_wrote r e r' \<and>
    string_enc e (sdec (sint v)) \<and> e \<noteq> []"
proof (cases "in_int32 v")
  case True
  define buf where "buf = int_bytes v @ drop (length (int_bytes v)) (stackbuf junk 32)"
  have "rdbEncodeInteger v (stackbuf junk 32) = Some (buf, length (int_bytes v))"
    using rdbEncodeInteger_ok [of "stackbuf junk 32" v] True by (simp add: buf_def)
  moreover obtain r' where "rdbWriteRaw junk (Some r) buf (length (int_bytes v)) = Some (Some r', int (length (int_bytes v)))"
      "rio_wrote r (int_bytes v) r'"
    using rdbWriteRaw_ok [of r "length (int_bytes v)" buf junk] length_int_bytes [of v] rio_room_mono [OF assms] by (auto simp: buf_def)
  ultimately show ?thesis using se_int [OF True] length_int_bytes(2) [of v] by (auto simp: rdbSaveLongLongAsStringObject_def)
next
  case False
  define d where "d = sdec (sint v)"
  have d: "length d \<le> 20" "d \<noteq> []" using length_sdec [of v] by (simp_all add: d_def)
  obtain z where ll: "ll2string (stackbuf junk 32) 32 v = Some (d @ z, of_nat (length d))"
    using ll2string_stackbuf [of 32 junk v] by (simp add: d_def)
  have ln: "unat (of_nat (length d) :: u32) = length d" using d(1) by (intro unat_of_nat_u32) simp
  let ?l = "len_bytes (of_nat (length d))"
  obtain r1 r2 where w: "rdbSaveLen junk (Some r) (of_nat (length d)) = Some (Some r1, int (length ?l))"
    "rdbWriteRaw junk (Some r1) (d @ z) (length d) = Some (Some r2, int (length d))" "rio_wrote r (?l @ d) r2"
    using raw_writes [of r d junk z] rio_room_mono [OF assms] d(1) by auto
  have "string_enc (?l @ d) d" using se_raw [of d] d(1) by simp
  then show ?thesis
    using False rdbEncodeInteger_ok [of "stackbuf junk 32" v] ll ln w d
    by (auto simp: rdbSaveLongLongAsStringObject_def Let_def d_def [symmetric] intro!: exI [of _ r2] exI [of _ "?l @ d"])
qed

lemma rdbSaveStringObject_ok:
  assumes "rio_room r (length (obj_string ob) + 40)" "length (obj_string ob) < 2 ^ 31 - 16"
  shows "\<exists>r' e. rdbSaveStringObject junk htab compression (Some r) ob = Some (Some r', int (length e)) \<and> rio_wrote r e r' \<and>
    string_enc e (obj_string ob) \<and> e \<noteq> []"
proof (cases "o_ptr ob")
  case (REDIS_ENCODING_RAW s)
  then show ?thesis using rdbSaveRawString_ok [of r s junk htab compression] rio_room_mono [OF assms(1)] assms(2)
    by (simp add: rdbSaveStringObject_def obj_string_def)
next
  case (REDIS_ENCODING_INT v)
  then show ?thesis using rdbSaveLongLong_ok [of r junk v] rio_room_mono [OF assms(1)]
    by (simp add: rdbSaveStringObject_def obj_string_def)
qed

section \<open>Truncated input\<close>

lemma rdbLoadLen_short:
  assumes "rio_at r p" "strict_prefix p (len_bytes len)"
  shows "\<exists>r'. rdbLoadLen r = Some (r', False, REDIS_RDB_LENERR)"
proof (cases p)
  case Nil
  then show ?thesis using rioRead_short [OF assms(1), of 1] by (auto simp: rdbLoadLen_def)
next
  case (Cons b p')
  obtain r1 where r1: "rioRead r 1 = Some (r1, Some [b])" "rio_at r1 p'" using rioRead1 assms(1) Cons by blast
  have l: "\<not> len < 2 ^ 6" using assms(2) Cons by (auto simp: len_bytes_def strict_prefix_def split: if_splits)
  show ?thesis
  proof (cases "len < 2 ^ 14")
    case True
    then have "p' = []" "b = ucast (drop_bit 8 len) OR push_bit 6 1"
      using assms(2) Cons l by (auto simp: len_bytes_def strict_prefix_def prefix_Cons)
    moreover have "\<exists>r'. rioRead r1 1 = Some (r', None)" using rioRead_short [OF r1(2), of 1] \<open>p' = []\<close> by simp
    ultimately show ?thesis using r1(1) len_14bit(1) [OF True] by (auto simp: rdbLoadLen_def rd_def)
  next
    case False
    then have "prefix p' (htonl_bytes len)" "p' \<noteq> htonl_bytes len" "b = push_bit 6 2"
      using assms(2) Cons l by (auto simp: len_bytes_def strict_prefix_def)
    then have "length p' < 4" using prefix_length_less [of p' "htonl_bytes len"] by (simp add: strict_prefix_def htonl_bytes_def)
    then show ?thesis using rioRead_short [OF r1(2), of 4] r1(1) \<open>b = push_bit 6 2\<close> by (auto simp: rdbLoadLen_def rd_def)
  qed
qed

lemma strict_prefix_appendD:
  assumes "strict_prefix p (a @ b)"
  shows "strict_prefix p a \<or> (\<exists>q. p = a @ q \<and> strict_prefix q b)"
  using assms unfolding strict_prefix_def by (auto simp: prefix_append)

lemma rdbLoadLzf_short:
  assumes "rio_at r p" "strict_prefix p (len_bytes (of_nat (length c)) @ len_bytes (of_nat (length s)) @ c)"
    "length c < 2 ^ 31" "length s < 2 ^ 31"
  shows "\<exists>r'. rdbLoadLzfStringObject junk r = Some (r', None)"
  using strict_prefix_appendD [OF assms(2)]
proof (elim disjE exE conjE)
  assume "strict_prefix p (len_bytes (of_nat (length c)))"
  then obtain r' where "rdbLoadLen r = Some (r', False, REDIS_RDB_LENERR)" using rdbLoadLen_short [OF assms(1)] by blast
  then show ?thesis by (simp add: rdbLoadLzfStringObject_def)
next
  fix q assume q: "p = len_bytes (of_nat (length c)) @ q" "strict_prefix q (len_bytes (of_nat (length s)) @ c)"
  obtain r1 where r1: "rdbLoadLen r = Some (r1, False, of_nat (length c))" "rio_at r1 q"
    using rdbLoadLen_ok [of r "of_nat (length c)" q] assms(1) q(1) by auto
  note c = len_word [OF assms(3)] and s = len_word [OF assms(4)]
  show ?thesis using strict_prefix_appendD [OF q(2)]
  proof (elim disjE exE conjE)
    assume "strict_prefix q (len_bytes (of_nat (length s)))"
    then obtain r' where "rdbLoadLen r1 = Some (r', False, REDIS_RDB_LENERR)" using rdbLoadLen_short [OF r1(2)] by blast
    then show ?thesis using r1(1) c(2) by (simp add: rdbLoadLzfStringObject_def)
  next
    fix q' assume q': "q = len_bytes (of_nat (length s)) @ q'" "strict_prefix q' c"
    obtain r2 where r2: "rdbLoadLen r1 = Some (r2, False, of_nat (length s))" "rio_at r2 q'"
      using rdbLoadLen_ok [of r1 "of_nat (length s)" q'] r1(2) q'(1) by auto
    obtain val where v: "sdsnewlen junk None (length s) = Some val" using sdsnewlen_zero [of "length s" junk] assms(4) by auto
    obtain r3 where "rioRead r2 (length c) = Some (r3, None)"
      using rioRead_short [OF r2(2), of "length c"] prefix_length_less [OF q'(2)] assms(3) by auto
    then show ?thesis using r1(1) r2(1) v c s by (auto simp: rdbLoadLzfStringObject_def)
  qed
qed

lemma rdb_int_value_short:
  assumes "rio_at r p" "strict_prefix p (tl (int_bytes v))"
    "k = (if length (int_bytes v) = 2 then 0 else if length (int_bytes v) = 3 then 1 else 2)"
  shows "\<exists>r'. rdb_int_value r k = Some (r', None)"
  using prefix_length_less [OF assms(2)] rioRead_short [OF assms(1), of 1] rioRead_short [OF assms(1), of 2]
    rioRead_short [OF assms(1), of 4] assms(3)
  by (auto simp: rdb_int_value_def int_bytes_def split: if_splits)

lemma strict_prefix_Cons_cases:
  assumes "strict_prefix p (x # t)"
  obtains "p = []" | q where "p = x # q" "strict_prefix q t"
  using assms by (cases p) (auto simp: strict_prefix_def)

lemma rdbGenericLoad_empty:
  assumes "rio_at r []"
  shows "\<exists>r'. rdbGenericLoadStringObject junk shared r encode = Some (r', None)"
  using rioRead_short [OF assms, of 1] by (auto simp: rdbGenericLoadStringObject_def rdbLoadLen_def)

lemma rdbGenericLoad_short:
  assumes "string_enc e s" "strict_prefix p e" "rio_at r p"
  shows "\<exists>r'. rdbGenericLoadStringObject junk shared r encode = Some (r', None)"
  using assms(1)
proof cases
  case (se_int v)
  define k :: u32 where "k = (if length (int_bytes v) = 2 then 0 else if length (int_bytes v) = 3 then 1 else 2)"
  have e: "e = hd (int_bytes v) # tl (int_bytes v)" "drop_bit 6 (hd (int_bytes v) AND 0xC0) = 3" "ucast (hd (int_bytes v) AND 0x3F) = k"
    using se_int by (simp_all add: int_bytes_def k_def)
  from assms(2) [unfolded e(1)] show ?thesis
  proof (cases rule: strict_prefix_Cons_cases)
    case (2 q)
    obtain r1 where r1: "rdbLoadLen r = Some (r1, True, k)" "rio_at r1 q"
      using rdbLoadLen_encoded [OF _ e(2)] assms(3) e(3) 2(1) by auto
    then obtain r2 where "rdb_int_value r1 k = Some (r2, None)" using rdb_int_value_short [OF _ 2(2) k_def] by blast
    moreover have "k = 0 \<or> k = 1 \<or> k = 2" by (auto simp: k_def)
    ultimately show ?thesis using r1(1) by (auto simp: rdbGenericLoadStringObject_def rdbLoadIntegerObject_def)
  qed (use rdbGenericLoad_empty assms(3) in simp)
next
  case (se_lzf c)
  from assms(2) [unfolded se_lzf(1)] show ?thesis
  proof (cases rule: strict_prefix_Cons_cases)
    case (2 q)
    obtain r1 where r1: "rdbLoadLen r = Some (r1, True, 3)" "rio_at r1 q"
      using rdbLoadLen_encoded [of r "0xC3" q] assms(3) 2(1) by auto
    then show ?thesis using rdbLoadLzf_short [OF r1(2) 2(2) se_lzf(4,5), of junk] by (auto simp: rdbGenericLoadStringObject_def)
  qed (use rdbGenericLoad_empty assms(3) in simp)
next
  case se_raw
  from strict_prefix_appendD [OF assms(2) [unfolded se_raw(1)]] show ?thesis
  proof (elim disjE exE conjE)
    assume "strict_prefix p (len_bytes (of_nat (length s)))"
    then obtain r' where "rdbLoadLen r = Some (r', False, REDIS_RDB_LENERR)" using rdbLoadLen_short [OF assms(3)] by blast
    then show ?thesis by (simp add: rdbGenericLoadStringObject_def)
  next
    fix q assume q: "p = len_bytes (of_nat (length s)) @ q" "strict_prefix q s"
    note w = len_word [OF se_raw(2)]
    obtain r1 where r1: "rdbLoadLen r = Some (r1, False, of_nat (length s))" "rio_at r1 q"
      using rdbLoadLen_ok [of r "of_nat (length s)" q] assms(3) q(1) by auto
    obtain val where v: "sdsnewlen junk None (length s) = Some val" using sdsnewlen_zero [of "length s" junk] se_raw(2) by auto
    have "(of_nat (length s) :: u32) \<noteq> 0" using prefix_length_less [OF q(2)] w(1) by (metis less_nat_zero_code unat_0)
    moreover obtain r2 where "rioRead r1 (length s) = Some (r2, None)"
      using rioRead_short [OF r1(2), of "length s"] prefix_length_less [OF q(2)] se_raw(2) by auto
    ultimately show ?thesis using r1(1) v w by (auto simp: rdbGenericLoadStringObject_def)
  qed
qed

section \<open>The payload\<close>

definition dump_body :: "byte list \<Rightarrow> byte list" where
  "dump_body e = 0 # e @ [6, 0]"

definition dump_bytes :: "byte list \<Rightarrow> byte list" where
  "dump_bytes e = dump_body e @ le_bytes 8 (unat (crc_ref 0 (dump_body e)))"

lemma length_dump: "length (dump_body e) = length e + 3" "length (dump_bytes e) = length e + 11"
  by (simp_all add: dump_body_def dump_bytes_def)

lemma sds_wrote: "sds_is (rio_ptr r) t f \<Longrightarrow> rio_wrote r b r' \<Longrightarrow> \<exists>f'. sds_is (rio_ptr r') (t @ b) f'"
  by (auto simp: rio_wrote_def sds_is_def)

lemma createDumpPayload_ok:
  assumes "length (obj_string ob) < 2 ^ 31 - 16"
  shows "\<exists>p e f. createDumpPayload junk htab compression ob = Some p \<and> string_enc e (obj_string ob) \<and> sds_is p (dump_bytes e) f"
proof -
  obtain s0 where s0: "sdsempty junk = Some s0" "sds_is s0 [] 0" using sdsempty_is by blast
  define r0 where "r0 = rioInitWithBuffer s0"
  have r0: "rio_ptr r0 = s0" by (simp add: r0_def rioInitWithBuffer_def)
  have m0: "rio_room r0 (length (obj_string ob) + 41)"
    using s0(2) assms by (auto simp: rio_room_def r0 sds_isD)
  obtain r1 where r1: "rdbSaveObjectType junk (Some r0) ob = Some (Some r1, 1)" "rio_wrote r0 [0] r1"
    using rdbWriteRaw_all [of r0 "[0]" junk] rio_room_mono [OF m0] by (auto simp: rdbSaveObjectType_def rdbSaveType_def)
  have m1: "rio_room r1 (length (obj_string ob) + 40)" using rio_room_wrote [OF _ r1(2)] m0 by (simp add: numeral_eq_Suc)
  obtain r2 e where r2: "rdbSaveStringObject junk htab compression (Some r1) ob = Some (Some r2, int (length e))" "rio_wrote r1 e r2"
      "string_enc e (obj_string ob)" "e \<noteq> []"
    using rdbSaveStringObject_ok [OF m1 assms] by blast
  have w: "rio_wrote r0 (0 # e) r2" using rio_wrote_trans [OF r1(2) r2(2)] by simp
  obtain f2 where f2: "sds_is (rio_ptr r2) (0 # e) f2" using sds_wrote [OF s0(2) [folded r0] w] by auto
  have le: "length e < 2 ^ 31" using string_enc_length [OF r2(3)] assms by simp
  obtain p3 f3 where p3: "sdscatlen junk (rio_ptr r2) [6, 0] 2 = Some p3" "sds_is p3 (dump_body e) f3"
    using sdscatlen_is [OF f2, of 2 "[6, 0]" junk] le by (auto simp: dump_body_def)
  have crc: "crc64 0 (sds_buf p3) (sdslen p3) = Some (crc_ref 0 (dump_body e))"
    using sds_is_mem [OF p3(2)] by (simp add: crc64_def crc64_loop_ref)
  obtain p f where p: "sdscatlen junk p3 (le_bytes 8 (unat (crc_ref 0 (dump_body e)))) 8 = Some p" "sds_is p (dump_bytes e) f"
    using sdscatlen_is [OF p3(2), of 8 "le_bytes 8 (unat (crc_ref 0 (dump_body e)))" junk] le
    by (auto simp: dump_bytes_def length_dump)
  show ?thesis
    using s0(1) r1(1) r2(1,3,4) p3(1) crc p by (auto simp: createDumpPayload_def rdbSaveObject_def r0_def)
qed

lemma rdbver_bytes: "(push_bit 8 (ucast y) OR ucast (x :: byte) :: u16) = REDIS_RDB_VERSION \<longleftrightarrow> x = 6 \<and> y = (0 :: byte)"
proof
  let ?v = "push_bit 8 (ucast y) OR ucast x :: u16"
  assume v: "?v = 6"
  have "x = ucast ?v" by (rule byte_bits_eqI [of x]) (simp add: bit_or_iff bit_ucast_iff bit_push_bit_iff)
  moreover have "y = ucast (drop_bit 8 ?v)"
    by (rule byte_bits_eqI [of y]) (auto simp: bit_or_iff bit_ucast_iff bit_push_bit_iff bit_drop_bit_eq dest: bit_imp_le_length)
  ultimately show "x = 6 \<and> y = 0" unfolding v by simp
qed simp

lemma list_length2: "length t = 2 \<Longrightarrow> \<exists>x y. t = [x, y]"
  by (auto simp: numeral_2_eq_2 length_Suc_conv)

lemma split_footer:
  assumes "10 \<le> length t"
  obtains b x y c where "t = b @ [x, y] @ c" "length c = 8" "length b = length t - 10"
proof -
  have "length t - 8 = 2 + (length t - 10)" using assms by simp
  then have "take 2 (drop (length t - 10) t) @ drop (length t - 8) t = drop (length t - 10) t"
    using append_take_drop_id [of 2 "drop (length t - 10) t"] by (simp only: drop_drop)
  then have "take (length t - 10) t @ take 2 (drop (length t - 10) t) @ drop (length t - 8) t = t" by simp
  moreover obtain x y where "take 2 (drop (length t - 10) t) = [x, y]"
    using list_length2 [of "take 2 (drop (length t - 10) t)"] assms by auto
  ultimately have "t = take (length t - 10) t @ [x, y] @ drop (length t - 8) t" by simp
  then show ?thesis by (rule that) (use assms in simp_all)
qed

definition payload_ok :: "byte list \<Rightarrow> bool" where
  "payload_ok t \<longleftrightarrow> (\<exists>b. t = b @ [6, 0] @ le_bytes 8 (unat (crc_ref 0 (b @ [6, 0]))))"

lemma verifyDumpPayload_iff: "verifyDumpPayload (t @ z) (length t) = Some (payload_ok t)"
proof (cases "length t < 10")
  case True
  then show ?thesis by (auto simp: verifyDumpPayload_def payload_ok_def)
next
  case False
  then have "10 \<le> length t" by simp
  then obtain b x y c where t: "t = b @ [x, y] @ c" "length c = 8" "length b = length t - 10" by (rule split_footer)
  define m where "m = memcmp (le_bytes 8 (unat (crc_ref 0 (b @ [x, y])))) c"
  have m: "m = 0 \<longleftrightarrow> le_bytes 8 (unat (crc_ref 0 (b @ [x, y]))) = c" unfolding m_def using memcmp_eq t(2) by simp
  have "rd (t @ z) (length t - 10) = Some x" "rd (t @ z) (length t - 10 + 1) = Some y" "memread (t @ z) (length t - 10 + 2) 8 = Some c"
    unfolding t(3) [symmetric] by (simp_all add: t(1,2) rd_def nth_append memread_def)
  moreover have "crc64 0 (t @ z) (length t - 8) = Some (crc_ref 0 (b @ [x, y]))"
    using t(2) by (simp add: t(1) crc64_def memread_def crc64_loop_ref)
  ultimately have "verifyDumpPayload (t @ z) (length t) = Some (x = 6 \<and> y = 0 \<and> m = 0)"
    using False unfolding verifyDumpPayload_def Let_def by (auto simp: rdbver_bytes m_def)
  moreover have "payload_ok t \<longleftrightarrow> x = 6 \<and> y = 0 \<and> m = 0"
    unfolding payload_ok_def m t(1) using t(2) by auto
  ultimately show ?thesis by simp
qed

lemma rdbLoadType_at:
  assumes "rio_at r (b # t)"
  shows "\<exists>r'. rdbLoadType r = Some (r', uint b) \<and> rio_at r' t"
  using rioRead1 [OF assms] by (auto simp: rdbLoadType_def rd_def)

lemma rio_at_init: "sds_is s t f \<Longrightarrow> rio_at (rioInitWithBuffer s) t"
  using sds_isD [of s t f] by (auto simp: rio_at_def rioInitWithBuffer_def)

lemma verifyDumpPayload_sds: "sds_is p t f \<Longrightarrow> verifyDumpPayload (sds_buf p) (sdslen p) = Some (payload_ok t)"
  using verifyDumpPayload_iff [of t] by (auto elim!: sds_is_cases simp: sdslen_def unat_of_nat_u32)

lemma restore_payload_ok:
  assumes "sds_is p (dump_bytes e) f" "string_enc e s" "shared_ok shared"
  shows "\<exists>ob. restore_payload junk use_shared shared p = Some (Inr ob) \<and> obj_string ob = s"
proof -
  let ?c = "[6, 0] @ le_bytes 8 (unat (crc_ref 0 (dump_body e)))"
  have d: "dump_bytes e = 0 # e @ ?c" by (simp add: dump_bytes_def dump_body_def)
  have "payload_ok (dump_bytes e)"
    unfolding payload_ok_def by (rule exI [of _ "0 # e"]) (simp add: dump_bytes_def dump_body_def)
  then have v: "verifyDumpPayload (sds_buf p) (sdslen p) = Some True" using verifyDumpPayload_sds [OF assms(1)] by simp
  obtain r1 where r1: "rdbLoadType (rioInitWithBuffer p) = Some (r1, 0)" "rio_at r1 (e @ ?c)"
    using rdbLoadType_at [OF rio_at_init [OF assms(1), unfolded d]] by auto
  obtain r2 ob where "rdbGenericLoadStringObject junk shared r1 True = Some (r2, Some ob)" "obj_string ob = s"
    using rdbGenericLoad_ok [OF assms(2) r1(2) assms(3)] by blast
  then show ?thesis
    using v r1(1) tryObjectEncoding_string [OF assms(3), of use_shared ob]
    by (simp add: restore_payload_def rdbLoadObjectType_def rdbIsObjectType_def rdbLoadObject_string_def rdbLoadEncodedStringObject_def)
qed

lemma payload_ok_byte:
  assumes "payload_ok (a @ x # z)" "payload_ok (a @ y # z)"
  shows "x = y"
proof -
  obtain b b' where b: "a @ x # z = (b @ [6, 0]) @ le_bytes 8 (unat (crc_ref 0 (b @ [6, 0])))"
      "a @ y # z = (b' @ [6, 0]) @ le_bytes 8 (unat (crc_ref 0 (b' @ [6, 0])))"
    using assms unfolding payload_ok_def by (metis append.assoc)
  define d d' where "d = b @ [6, 0]" and "d' = b' @ [6, 0]"
  define k k' where "k = le_bytes 8 (unat (crc_ref 0 d))" and "k' = le_bytes 8 (unat (crc_ref 0 d'))"
  have e: "a @ x # z = d @ k" "a @ y # z = d' @ k'" using b by (simp_all only: d_def d'_def k_def k'_def)
  have lk: "length k = 8" "length k' = 8" by (simp_all add: k_def k'_def)
  have l: "length d = length d'" using arg_cong [OF e(1), of length] arg_cong [OF e(2), of length] lk by simp
  show ?thesis
  proof (cases "length a < length d")
    case True
    have "take (length d) (a @ x # z) = d" "take (length d) (a @ y # z) = d'" using e l by simp_all
    then have dd: "d = a @ x # take (length d - length a - 1) z" "d' = a @ y # take (length d - length a - 1) z"
      using True by (auto simp: take_Cons')
    have "drop (length d) (a @ x # z) = k" "drop (length d) (a @ y # z) = k'" using e l by simp_all
    then have "k = k'" using True by (simp add: drop_Cons')
    then have "unat (crc_ref 0 d) mod 256 ^ 8 = unat (crc_ref 0 d') mod 256 ^ 8"
      unfolding k_def k'_def by (metis le_val_le_bytes)
    then have "crc_ref 0 d = crc_ref 0 d'" using unsigned_less [of "crc_ref 0 d", where ?'a = nat]
        unsigned_less [of "crc_ref 0 d'", where ?'a = nat] by (simp add: word_unat_eq_iff)
    then show ?thesis using crc_ref_byte dd by metis
  next
    case False
    have "take (length d) (a @ x # z) = d" "take (length d) (a @ y # z) = d'" using e l by simp_all
    then have "d = d'" using False by simp
    then have "k = k'" by (simp add: k_def k'_def)
    then show ?thesis using e \<open>d = d'\<close> by (metis append_eq_append_conv list.inject)
  qed
qed

text \<open>C29: what \<open>rdbSaveStringObject\<close> writes for an object, \<open>rdbLoadStringObject\<close> and
  \<open>rdbLoadEncodedStringObject\<close> read back as an object with the same string, leaving the stream right
  behind it; the result is the number of bytes written, the checksum of the stream is updated with
  them, and no proper prefix of them is accepted.\<close>

theorem rdb_string_roundtrip:
  assumes "sds_ok (rio_ptr r)" "sdslen (rio_ptr r) + length (obj_string ob) < 2 ^ 31 - 100" "shared_ok shared"
  shows "\<exists>r' e. rdbSaveStringObject junk htab compression (Some r) ob = Some (Some r', int (length e)) \<and>
    sds_str (rio_ptr r') = sds_str (rio_ptr r) @ e \<and>
    rio_cksum r' = (if rio_update_cksum r then crc_ref (rio_cksum r) e else rio_cksum r) \<and>
    (\<forall>s t f. sds_is s (e @ t) f \<longrightarrow>
      (\<exists>q ob'. rdbLoadStringObject junk shared (rioInitWithBuffer s) = Some (q, Some ob') \<and> obj_string ob' = obj_string ob \<and> rio_at q t) \<and>
      (\<exists>q ob'. rdbLoadEncodedStringObject junk shared (rioInitWithBuffer s) = Some (q, Some ob') \<and> obj_string ob' = obj_string ob \<and> rio_at q t)) \<and>
    (\<forall>s p f. strict_prefix p e \<longrightarrow> sds_is s p f \<longrightarrow>
      (\<exists>q. rdbLoadStringObject junk shared (rioInitWithBuffer s) = Some (q, None)) \<and>
      (\<exists>q. rdbLoadEncodedStringObject junk shared (rioInitWithBuffer s) = Some (q, None)))"
proof -
  have "rio_room r (length (obj_string ob) + 40)" "length (obj_string ob) < 2 ^ 31 - 16"
    using assms(1,2) by (simp_all add: rio_room_def)
  then obtain r' e where w: "rdbSaveStringObject junk htab compression (Some r) ob = Some (Some r', int (length e))"
      "rio_wrote r e r'" "string_enc e (obj_string ob)"
    using rdbSaveStringObject_ok by blast
  show ?thesis
    using w rdbGenericLoad_ok [OF w(3) rio_at_init assms(3)] rdbGenericLoad_short [OF w(3) _ rio_at_init]
    unfolding rdbLoadStringObject_def rdbLoadEncodedStringObject_def rio_wrote_def by blast
qed

theorem rdb_string_roundtrip_witness:
  "\<exists>r' e. rdbSaveStringObject (\<lambda>i. 170) (\<lambda>i. 0) True
      (Some (rioInitWithBuffer \<lparr>sds_len = 0, sds_free = 0, sds_buf = [0]\<rparr>)) (createStringObject [49, 50]) = Some (Some r', int (length e)) \<and>
    sds_str (rio_ptr r') = e"
proof -
  let ?s = "\<lparr>sds_len = 0, sds_free = 0, sds_buf = [0]\<rparr>" and ?o = "createStringObject [49, 50]"
  have a: "sds_ok (rio_ptr (rioInitWithBuffer ?s))" "sds_str ?s = []"
    by (simp_all add: rioInitWithBuffer_def sds_ok_def sdslen_def sdsavail_def sds_str_def)
  have b: "sdslen (rio_ptr (rioInitWithBuffer ?s)) + length (obj_string ?o) < 2 ^ 31 - 100"
    by (simp add: rioInitWithBuffer_def sdslen_def createStringObject_def obj_string_def)
  have c: "shared_ok (\<lambda>i. \<lparr>o_ptr = REDIS_ENCODING_INT (word_of_int i), o_refcount = 1\<rparr>)" by (simp add: shared_ok_def)
  from rdb_string_roundtrip [OF a(1) b c, of "\<lambda>i. 170" "\<lambda>i. 0" True] show ?thesis
    using a(2) by (auto simp: rioInitWithBuffer_def)
qed

text \<open>C6: the payload that DUMP creates for a string object is accepted by RESTORE, which loads an
  object with the same string. Every payload that \<open>verifyDumpPayload\<close> accepts is refused when one of
  its bytes is changed, and RESTORE then replies with the error on the checksum.\<close>

theorem dump_restore:
  assumes "length (obj_string ob) < 2 ^ 31 - 100" "shared_ok shared"
  shows "\<exists>p ob'. createDumpPayload junk htab compression ob = Some p \<and>
    restore_payload junk use_shared shared p = Some (Inr ob') \<and> obj_string ob' = obj_string ob \<and>
    (\<forall>a x y z q f. sds_str p = a @ x # z \<longrightarrow> x \<noteq> y \<longrightarrow> sds_is q (a @ y # z) f \<longrightarrow>
      restore_payload junk use_shared shared q = Some (Inl Wrong_Checksum))"
proof -
  obtain p e f where p: "createDumpPayload junk htab compression ob = Some p" "string_enc e (obj_string ob)" "sds_is p (dump_bytes e) f"
    using createDumpPayload_ok [of ob junk htab compression] assms(1) by auto
  have ok: "payload_ok (dump_bytes e)"
    unfolding payload_ok_def by (rule exI [of _ "0 # e"]) (simp add: dump_bytes_def dump_body_def)
  have "restore_payload junk use_shared shared q = Some (Inl Wrong_Checksum)"
    if "sds_str p = a @ x # z" "x \<noteq> y" "sds_is q (a @ y # z) g" for a x y z q g
  proof -
    have "payload_ok (a @ x # z)" using ok that(1) sds_isD(2) [OF p(3)] by simp
    then have "\<not> payload_ok (a @ y # z)" using payload_ok_byte that(2) by blast
    then show ?thesis using verifyDumpPayload_sds [OF that(3)] by (simp add: restore_payload_def)
  qed
  then show ?thesis using p(1) restore_payload_ok [OF p(3,2) assms(2), of junk use_shared] by blast
qed

theorem dump_restore_witness:
  "\<exists>p ob'. createDumpPayload (\<lambda>i. 170) (\<lambda>i. 0) True (createStringObject [104, 105]) = Some p \<and>
    restore_payload (\<lambda>i. 170) True (\<lambda>i. \<lparr>o_ptr = REDIS_ENCODING_INT (word_of_int i), o_refcount = 1\<rparr>) p = Some (Inr ob') \<and>
    obj_string ob' = [104, 105]"
proof -
  have a: "length (obj_string (createStringObject [104, 105])) < 2 ^ 31 - 100"
    by (simp add: createStringObject_def obj_string_def)
  have c: "shared_ok (\<lambda>i. \<lparr>o_ptr = REDIS_ENCODING_INT (word_of_int i), o_refcount = 1\<rparr>)" by (simp add: shared_ok_def)
  have s: "obj_string (createStringObject [104, 105]) = [104, 105]" by (simp add: createStringObject_def obj_string_def)
  from dump_restore [OF a c, of "\<lambda>i. 170" "\<lambda>i. 0" True True] show ?thesis unfolding s by blast
qed

end
