(* ===== verification/Reply.thy ===== *)
theory Reply
  imports Rio Object "HOL-Library.Signed_Division"
begin

text \<open>
  The output side of \<open>src/redis-2.8.24/src/networking.c\<close>: the functions that queue replies to a client
  in its static buffer and its list of reply objects, the limits on the size of the output, the
  callback that sends the queued bytes to the socket, and \<open>sdscatvprintf\<close> of \<open>sds.c\<close>.

  A client is the record of the fields these functions use, with the two fields of the server they
  change. Flags are a set. A node of the reply list is an object with its reference count; \<open>None\<close> as
  its pointer is the \<open>NULL\<close> of a length that is not known yet, and a pointer to a node is its position
  in the list. Parameters: \<open>zsize\<close>, the size the allocator reports for an allocation; \<open>ae\<close>, whether
  \<open>aeCreateFileEvent\<close> succeeds; the results of \<open>write\<close>. \<open>None\<close> as a result is a failed assertion or
  an access outside a buffer. Logging and releasing memory are not modelled.
\<close>

section \<open>Formatted strings\<close>

text \<open>\<open>t\<close> is the text that \<open>vsnprintf\<close> formats; it writes at most \<open>buflen - 1\<close> bytes of it and a NUL.\<close>

definition vsnprintf :: "byte list \<Rightarrow> nat \<Rightarrow> byte list \<Rightarrow> byte list option" where
  "vsnprintf buf buflen t = memwrite buf 0 (take (buflen - 1) t @ [0])"

lemma vsnprintf_short:
  assumes "wr buf (n - 2) 0 = Some b" "vsnprintf b n t = Some b'" "rd b' (n - 2) = Some c" "c \<noteq> 0" "2 \<le> n"
  shows "n \<le> length t + 1"
proof (rule ccontr)
  assume "\<not> n \<le> length t + 1"
  then have l: "length t \<le> n - 2" by simp
  have b: "n - 2 < length b" "b ! (n - 2) = 0" using assms(1) by (auto simp: wr_def split: if_splits)
  have b': "b' = (t @ [0]) @ drop (length t + 1) b" "length t + 1 \<le> length b"
    using assms(2) l by (auto simp: vsnprintf_def memwrite_def split: if_splits)
  have "b' ! (n - 2) = 0"
  proof (cases "n - 2 = length t")
    case False
    then have "length t + 1 \<le> n - 2" "Suc (n - 3) = n - 2" using l by simp_all
    then show ?thesis using b b'(2) unfolding b'(1) by (subst nth_append) simp
  qed (simp add: b'(1) nth_append)
  then show False using assms(3,4) by (auto simp: rd_def split: if_splits)
qed

function sdscatvprintf_loop :: "(nat \<Rightarrow> byte) \<Rightarrow> byte list \<Rightarrow> byte list \<Rightarrow> nat \<Rightarrow> byte list option" where
  "sdscatvprintf_loop junk t buf buflen =
     (if buflen < 2 then None
      else case wr buf (buflen - 2) 0 of
        None \<Rightarrow> None
      | Some buf \<Rightarrow> (case vsnprintf buf buflen t of
          None \<Rightarrow> None
        | Some buf \<Rightarrow> (case rd buf (buflen - 2) of
            None \<Rightarrow> None
          | Some c \<Rightarrow>
              if c \<noteq> 0 then sdscatvprintf_loop junk t (map junk [0..<buflen * 2]) (buflen * 2)
              else Some buf)))"
  by pat_completeness auto
termination
proof (relation "measure (\<lambda>(junk, t, buf, n). length t + 2 - n)", goal_cases)
  case (2 junk t buf n b b' c)
  then show ?case using vsnprintf_short [of buf n b t b' c] by simp
qed simp

declare sdscatvprintf_loop.simps [simp del]

text \<open>\<open>fmtlen\<close> is the length of the format.\<close>

definition sdscatvprintf :: "(nat \<Rightarrow> byte) \<Rightarrow> sds \<Rightarrow> nat \<Rightarrow> byte list \<Rightarrow> sds option" where
  "sdscatvprintf junk s fmtlen t = do {
     let buflen = fmtlen * 2;
     let buflen = (if buflen > 1024 then buflen else 1024);
     buf \<leftarrow> sdscatvprintf_loop junk t (map junk [0..<buflen]) buflen;
     sdscat junk s buf
   }"

section \<open>The client\<close>

datatype client_flag =
  REDIS_SLAVE | REDIS_MASTER | REDIS_MONITOR | REDIS_MULTI | REDIS_BLOCKED | REDIS_CLOSE_AFTER_REPLY |
  REDIS_LUA_CLIENT | REDIS_ASKING | REDIS_CLOSE_ASAP | REDIS_MASTER_FORCE_REPLY | REDIS_PUBSUB

datatype client_class = REDIS_CLIENT_TYPE_NORMAL | REDIS_CLIENT_TYPE_SLAVE | REDIS_CLIENT_TYPE_PUBSUB

record reply_obj =
  ro_ptr :: "sds option"
  ro_refcount :: int

record redisClient =
  c_id :: u64
  c_fd :: int
  c_flags :: "client_flag set"
  c_replstate :: int
  c_repl_put_online_on_ack :: bool
  c_reply :: "reply_obj list"
  c_reply_bytes :: u64
  c_sentlen :: nat
  c_lastinteraction :: int
  c_obuf_soft_limit_reached_time :: int
  c_bufpos :: nat
  c_buf :: "byte list"
  server_clients_to_close :: "u64 list"
  server_stat_net_output_bytes :: u64

record clientBufferLimitsConfig =
  hard_limit_bytes :: u64
  soft_limit_bytes :: u64
  soft_limit_seconds :: int

record redisServer =
  server_unixtime :: int
  server_client_obuf_limits :: "client_class \<Rightarrow> clientBufferLimitsConfig"

abbreviation REDIS_REPLY_CHUNK_BYTES :: nat where "REDIS_REPLY_CHUNK_BYTES \<equiv> 16384"
abbreviation REDIS_REPL_NONE :: int where "REDIS_REPL_NONE \<equiv> 0"
abbreviation REDIS_REPL_ONLINE :: int where "REDIS_REPL_ONLINE \<equiv> 17"
abbreviation REDIS_MAX_WRITE_PER_EVENT :: nat where "REDIS_MAX_WRITE_PER_EVENT \<equiv> 65536"
abbreviation REDIS_SHARED_BULKHDR_LEN :: int where "REDIS_SHARED_BULKHDR_LEN \<equiv> 32"

definition zmalloc_size_sds :: "(nat \<Rightarrow> nat) \<Rightarrow> sds \<Rightarrow> u64" where
  "zmalloc_size_sds zsize s = of_nat (zsize (sdsAllocSize s))"

definition getClientOutputBufferMemoryUsage :: "'a redisClient_scheme \<Rightarrow> u64" where
  "getClientOutputBufferMemoryUsage c = c_reply_bytes c + (24 + 16) * of_nat (length (c_reply c))"

definition getClientType :: "'a redisClient_scheme \<Rightarrow> client_class" where
  "getClientType c =
     (if REDIS_SLAVE \<in> c_flags c \<and> REDIS_MONITOR \<notin> c_flags c then REDIS_CLIENT_TYPE_SLAVE
      else if REDIS_PUBSUB \<in> c_flags c then REDIS_CLIENT_TYPE_PUBSUB
      else REDIS_CLIENT_TYPE_NORMAL)"

definition checkClientOutputBufferLimits :: "redisServer \<Rightarrow> 'a redisClient_scheme \<Rightarrow> 'a redisClient_scheme \<times> bool" where
  "checkClientOutputBufferLimits server c =
     (let used_mem = getClientOutputBufferMemoryUsage c;
          lim = server_client_obuf_limits server (getClientType c);
          hard = (hard_limit_bytes lim \<noteq> 0 \<and> used_mem \<ge> hard_limit_bytes lim);
          soft = (soft_limit_bytes lim \<noteq> 0 \<and> used_mem \<ge> soft_limit_bytes lim)
      in if soft then
           if c_obuf_soft_limit_reached_time c = 0 then
             (c\<lparr>c_obuf_soft_limit_reached_time := server_unixtime server\<rparr>, hard)
           else
             let elapsed = server_unixtime server - c_obuf_soft_limit_reached_time c
             in (c, \<not> elapsed \<le> soft_limit_seconds lim \<or> hard)
         else (c\<lparr>c_obuf_soft_limit_reached_time := 0\<rparr>, hard))"

definition freeClientAsync :: "'a redisClient_scheme \<Rightarrow> 'a redisClient_scheme" where
  "freeClientAsync c =
     (if REDIS_CLOSE_ASAP \<in> c_flags c \<or> REDIS_LUA_CLIENT \<in> c_flags c then c
      else c\<lparr>c_flags := insert REDIS_CLOSE_ASAP (c_flags c),
             server_clients_to_close := server_clients_to_close c @ [c_id c]\<rparr>)"

definition asyncCloseClientOnOutputBufferLimitReached ::
    "redisServer \<Rightarrow> 'a redisClient_scheme \<Rightarrow> 'a redisClient_scheme option" where
  "asyncCloseClientOnOutputBufferLimitReached server c =
     (if \<not> c_reply_bytes c < - 1 - 1024 * 64 then None
      else if c_reply_bytes c = 0 \<or> REDIS_CLOSE_ASAP \<in> c_flags c then Some c
      else let (c, reached) = checkClientOutputBufferLimits server c
           in Some (if reached then freeClientAsync c else c))"

section \<open>Queueing bytes\<close>

definition prepareClientToWrite :: "('a redisClient_scheme \<Rightarrow> bool) \<Rightarrow> 'a redisClient_scheme \<Rightarrow> bool" where
  "prepareClientToWrite ae c =
     (if REDIS_LUA_CLIENT \<in> c_flags c then True
      else if REDIS_MASTER \<in> c_flags c \<and> REDIS_MASTER_FORCE_REPLY \<notin> c_flags c then False
      else if c_fd c \<le> 0 then False
      else if c_bufpos c = 0 \<and> length (c_reply c) = 0 \<and>
              (c_replstate c = REDIS_REPL_NONE \<or> c_replstate c = REDIS_REPL_ONLINE) \<and>
              \<not> c_repl_put_online_on_ack c \<and> \<not> ae c then False
      else True)"

definition createReplyObject :: "(nat \<Rightarrow> byte) \<Rightarrow> byte list \<Rightarrow> nat \<Rightarrow> reply_obj option" where
  "createReplyObject junk s len = do {
     p \<leftarrow> sdsnewlen junk (Some s) len;
     Some \<lparr>ro_ptr = Some p, ro_refcount = 1\<rparr>
   }"

text \<open>The list with an exclusively owned last object, and that object.\<close>

definition dupLastObjectIfNeeded :: "(nat \<Rightarrow> byte) \<Rightarrow> reply_obj list \<Rightarrow> (reply_obj list \<times> reply_obj) option" where
  "dupLastObjectIfNeeded junk reply =
     (if \<not> length reply > 0 then None
      else let cur = last reply
           in if ro_refcount cur > 1 then do {
                p \<leftarrow> ro_ptr cur;
                new \<leftarrow> createReplyObject junk (sds_buf p) (sdslen p);
                Some (butlast reply @ [new], new)
              } else Some (reply, cur))"

definition p_addReplyToBuffer :: "'a redisClient_scheme \<Rightarrow> byte list \<Rightarrow> nat \<Rightarrow> ('a redisClient_scheme \<times> bool) option" where
  "p_addReplyToBuffer c s len =
     (let available = REDIS_REPLY_CHUNK_BYTES - c_bufpos c
      in if REDIS_CLOSE_AFTER_REPLY \<in> c_flags c then Some (c, True)
         else if length (c_reply c) > 0 then Some (c, False)
         else if len > available then Some (c, False)
         else do {
           d \<leftarrow> memread s 0 len;
           buf \<leftarrow> memwrite (c_buf c) (c_bufpos c) d;
           Some (c\<lparr>c_buf := buf, c_bufpos := c_bufpos c + len\<rparr>, True)
         })"

text \<open>\<open>listAddNodeTail(c->reply, o)\<close> with the account of its memory.\<close>

definition add_node :: "(nat \<Rightarrow> nat) \<Rightarrow> 'a redisClient_scheme \<Rightarrow> reply_obj \<Rightarrow> 'a redisClient_scheme option" where
  "add_node zsize c ob = do {
     p \<leftarrow> ro_ptr ob;
     Some (c\<lparr>c_reply := c_reply c @ [ob], c_reply_bytes := c_reply_bytes c + zmalloc_size_sds zsize p\<rparr>)
   }"

text \<open>Appending to the last object.\<close>

definition glue_tail ::
    "(nat \<Rightarrow> byte) \<Rightarrow> (nat \<Rightarrow> nat) \<Rightarrow> 'a redisClient_scheme \<Rightarrow> byte list \<Rightarrow> nat \<Rightarrow> 'a redisClient_scheme option" where
  "glue_tail junk zsize c s len = do {
     p \<leftarrow> ro_ptr (last (c_reply c));
     let bytes = c_reply_bytes c - zmalloc_size_sds zsize p;
     (reply, tail) \<leftarrow> dupLastObjectIfNeeded junk (c_reply c);
     p \<leftarrow> ro_ptr tail;
     p \<leftarrow> sdscatlen junk p s len;
     Some (c\<lparr>c_reply := butlast reply @ [tail\<lparr>ro_ptr := Some p\<rparr>],
             c_reply_bytes := bytes + zmalloc_size_sds zsize p\<rparr>)
   }"

text \<open>\<open>tail->ptr != NULL && sdslen(tail->ptr) + len <= REDIS_REPLY_CHUNK_BYTES\<close>.\<close>

definition tail_fits :: "'a redisClient_scheme \<Rightarrow> nat \<Rightarrow> bool" where
  "tail_fits c len =
     (case ro_ptr (last (c_reply c)) of None \<Rightarrow> False | Some p \<Rightarrow> sdslen p + len \<le> REDIS_REPLY_CHUNK_BYTES)"

definition p_addReplyObjectToList ::
    "(nat \<Rightarrow> byte) \<Rightarrow> (nat \<Rightarrow> nat) \<Rightarrow> redisServer \<Rightarrow> 'a redisClient_scheme \<Rightarrow> reply_obj \<Rightarrow> 'a redisClient_scheme option" where
  "p_addReplyObjectToList junk zsize server c ob =
     (if REDIS_CLOSE_AFTER_REPLY \<in> c_flags c then Some c
      else do {
        p \<leftarrow> ro_ptr ob;
        c \<leftarrow> (if length (c_reply c) = 0 then add_node zsize c (ob\<lparr>ro_refcount := ro_refcount ob + 1\<rparr>)
              else if tail_fits c (sdslen p) then glue_tail junk zsize c (sds_buf p) (sdslen p)
              else add_node zsize c (ob\<lparr>ro_refcount := ro_refcount ob + 1\<rparr>));
        asyncCloseClientOnOutputBufferLimitReached server c
      })"

definition p_addReplySdsToList ::
    "(nat \<Rightarrow> byte) \<Rightarrow> (nat \<Rightarrow> nat) \<Rightarrow> redisServer \<Rightarrow> 'a redisClient_scheme \<Rightarrow> sds \<Rightarrow> 'a redisClient_scheme option" where
  "p_addReplySdsToList junk zsize server c s =
     (if REDIS_CLOSE_AFTER_REPLY \<in> c_flags c then Some c
      else do {
        c \<leftarrow> (if length (c_reply c) = 0 then add_node zsize c \<lparr>ro_ptr = Some s, ro_refcount = 1\<rparr>
              else if tail_fits c (sdslen s) then glue_tail junk zsize c (sds_buf s) (sdslen s)
              else add_node zsize c \<lparr>ro_ptr = Some s, ro_refcount = 1\<rparr>);
        asyncCloseClientOnOutputBufferLimitReached server c
      })"

definition p_addReplyStringToList ::
    "(nat \<Rightarrow> byte) \<Rightarrow> (nat \<Rightarrow> nat) \<Rightarrow> redisServer \<Rightarrow> 'a redisClient_scheme \<Rightarrow> byte list \<Rightarrow> nat \<Rightarrow> 'a redisClient_scheme option" where
  "p_addReplyStringToList junk zsize server c s len =
     (if REDIS_CLOSE_AFTER_REPLY \<in> c_flags c then Some c
      else do {
        c \<leftarrow> (if length (c_reply c) = 0 then do { ob \<leftarrow> createReplyObject junk s len; add_node zsize c ob }
              else if tail_fits c len then glue_tail junk zsize c s len
              else do { ob \<leftarrow> createReplyObject junk s len; add_node zsize c ob });
        asyncCloseClientOnOutputBufferLimitReached server c
      })"

section \<open>Replies\<close>

text \<open>An object that is a reply: a string with its object, or an integer.\<close>

datatype reply_arg = Reply_Raw reply_obj | Reply_Int u64

text \<open>In the integer branch \<open>decrRefCount\<close> takes back the reference that \<open>getDecodedObject\<close> made.\<close>

definition addReply ::
    "(nat \<Rightarrow> byte) \<Rightarrow> (nat \<Rightarrow> nat) \<Rightarrow> redisServer \<Rightarrow> ('a redisClient_scheme \<Rightarrow> bool) \<Rightarrow> 'a redisClient_scheme \<Rightarrow> reply_arg \<Rightarrow>
     'a redisClient_scheme option" where
  "addReply junk zsize server ae c obj =
     (if \<not> prepareClientToWrite ae c then Some c
      else case obj of
        Reply_Raw ob \<Rightarrow> do {
          p \<leftarrow> ro_ptr ob;
          (c, ok) \<leftarrow> p_addReplyToBuffer c (sds_buf p) (sdslen p);
          if ok then Some c else p_addReplyObjectToList junk zsize server c ob
        }
      | Reply_Int v \<Rightarrow> do {
          (c, ok) \<leftarrow> (if length (c_reply c) = 0 \<and> REDIS_REPLY_CHUNK_BYTES - c_bufpos c \<ge> 32 then do {
                        (buf, len) \<leftarrow> ll2string (stackbuf junk 32) 32 v;
                        p_addReplyToBuffer c buf (unat len)
                      } else Some (c, False));
          if ok then Some c
          else do {
            (buf, len) \<leftarrow> ll2string (stackbuf junk 32) 32 v;
            n \<leftarrow> strlen buf;
            p \<leftarrow> sdsnewlen junk (Some buf) n;
            (c, ok) \<leftarrow> p_addReplyToBuffer c (sds_buf p) (sdslen p);
            if ok then Some c else p_addReplyObjectToList junk zsize server c \<lparr>ro_ptr = Some p, ro_refcount = 0\<rparr>
          }
        })"

definition addReplySds ::
    "(nat \<Rightarrow> byte) \<Rightarrow> (nat \<Rightarrow> nat) \<Rightarrow> redisServer \<Rightarrow> ('a redisClient_scheme \<Rightarrow> bool) \<Rightarrow> 'a redisClient_scheme \<Rightarrow> sds \<Rightarrow>
     'a redisClient_scheme option" where
  "addReplySds junk zsize server ae c s =
     (if \<not> prepareClientToWrite ae c then Some c
      else do {
        (c, ok) \<leftarrow> p_addReplyToBuffer c (sds_buf s) (sdslen s);
        if ok then Some c else p_addReplySdsToList junk zsize server c s
      })"

definition addReplyString ::
    "(nat \<Rightarrow> byte) \<Rightarrow> (nat \<Rightarrow> nat) \<Rightarrow> redisServer \<Rightarrow> ('a redisClient_scheme \<Rightarrow> bool) \<Rightarrow> 'a redisClient_scheme \<Rightarrow> byte list \<Rightarrow> nat \<Rightarrow>
     'a redisClient_scheme option" where
  "addReplyString junk zsize server ae c s len =
     (if \<not> prepareClientToWrite ae c then Some c
      else do {
        (c, ok) \<leftarrow> p_addReplyToBuffer c s len;
        if ok then Some c else p_addReplyStringToList junk zsize server c s len
      })"

definition addReplyErrorLength ::
    "(nat \<Rightarrow> byte) \<Rightarrow> (nat \<Rightarrow> nat) \<Rightarrow> redisServer \<Rightarrow> ('a redisClient_scheme \<Rightarrow> bool) \<Rightarrow> 'a redisClient_scheme \<Rightarrow> byte list \<Rightarrow> nat \<Rightarrow>
     'a redisClient_scheme option" where
  "addReplyErrorLength junk zsize server ae c s len = do {
     c \<leftarrow> addReplyString junk zsize server ae c (bytes_of ''-ERR '') 5;
     c \<leftarrow> addReplyString junk zsize server ae c s len;
     addReplyString junk zsize server ae c [13, 10] 2
   }"

definition addReplyError ::
    "(nat \<Rightarrow> byte) \<Rightarrow> (nat \<Rightarrow> nat) \<Rightarrow> redisServer \<Rightarrow> ('a redisClient_scheme \<Rightarrow> bool) \<Rightarrow> 'a redisClient_scheme \<Rightarrow> byte list \<Rightarrow>
     'a redisClient_scheme option" where
  "addReplyError junk zsize server ae c err = do {
     n \<leftarrow> strlen err;
     addReplyErrorLength junk zsize server ae c err n
   }"

text \<open>\<open>t\<close> is the text that the format and its arguments describe.\<close>

definition addReplyErrorFormat ::
    "(nat \<Rightarrow> byte) \<Rightarrow> (nat \<Rightarrow> nat) \<Rightarrow> redisServer \<Rightarrow> ('a redisClient_scheme \<Rightarrow> bool) \<Rightarrow> 'a redisClient_scheme \<Rightarrow> nat \<Rightarrow> byte list \<Rightarrow>
     'a redisClient_scheme option" where
  "addReplyErrorFormat junk zsize server ae c fmtlen t = do {
     s \<leftarrow> sdsempty junk;
     s \<leftarrow> sdscatvprintf junk s fmtlen t;
     d \<leftarrow> memread (sds_buf s) 0 (sdslen s);
     let d = map (\<lambda>b. if b = 13 \<or> b = 10 then 32 else b) d;
     addReplyErrorLength junk zsize server ae c d (sdslen s)
   }"

definition addReplyStatusLength ::
    "(nat \<Rightarrow> byte) \<Rightarrow> (nat \<Rightarrow> nat) \<Rightarrow> redisServer \<Rightarrow> ('a redisClient_scheme \<Rightarrow> bool) \<Rightarrow> 'a redisClient_scheme \<Rightarrow> byte list \<Rightarrow> nat \<Rightarrow>
     'a redisClient_scheme option" where
  "addReplyStatusLength junk zsize server ae c s len = do {
     c \<leftarrow> addReplyString junk zsize server ae c (bytes_of ''+'') 1;
     c \<leftarrow> addReplyString junk zsize server ae c s len;
     addReplyString junk zsize server ae c [13, 10] 2
   }"

definition addReplyStatus ::
    "(nat \<Rightarrow> byte) \<Rightarrow> (nat \<Rightarrow> nat) \<Rightarrow> redisServer \<Rightarrow> ('a redisClient_scheme \<Rightarrow> bool) \<Rightarrow> 'a redisClient_scheme \<Rightarrow> byte list \<Rightarrow>
     'a redisClient_scheme option" where
  "addReplyStatus junk zsize server ae c status = do {
     n \<leftarrow> strlen status;
     addReplyStatusLength junk zsize server ae c status n
   }"

definition addDeferredMultiBulkLength ::
    "('a redisClient_scheme \<Rightarrow> bool) \<Rightarrow> 'a redisClient_scheme \<Rightarrow> 'a redisClient_scheme \<times> nat option" where
  "addDeferredMultiBulkLength ae c =
     (if \<not> prepareClientToWrite ae c then (c, None)
      else (c\<lparr>c_reply := c_reply c @ [\<lparr>ro_ptr = None, ro_refcount = 1\<rparr>]\<rparr>, Some (length (c_reply c))))"

text \<open>The string \<open>*<length>\<close> and CRLF, made with \<open>sdscatprintf\<close>.\<close>

definition setDeferredMultiBulkLength ::
    "(nat \<Rightarrow> byte) \<Rightarrow> (nat \<Rightarrow> nat) \<Rightarrow> redisServer \<Rightarrow> 'a redisClient_scheme \<Rightarrow> nat option \<Rightarrow> int \<Rightarrow> 'a redisClient_scheme option" where
  "setDeferredMultiBulkLength junk zsize server c node len =
     (case node of
        None \<Rightarrow> Some c
      | Some ln \<Rightarrow> do {
          ob \<leftarrow> rd (c_reply c) ln;
          s \<leftarrow> sdsempty junk;
          s \<leftarrow> sdscatvprintf junk s 6 (ch CHR ''*'' # sdec len @ [13, 10]);
          let c = c\<lparr>c_reply := (c_reply c)[ln := ob\<lparr>ro_ptr := Some s\<rparr>], c_reply_bytes := c_reply_bytes c + zmalloc_size_sds zsize s\<rparr>;
          c \<leftarrow> (case rd (c_reply c) (ln + 1) of
                  None \<Rightarrow> Some c
                | Some nxt \<Rightarrow> (case ro_ptr nxt of
                    None \<Rightarrow> Some c
                  | Some p \<Rightarrow> do {
                      let bytes = c_reply_bytes c - zmalloc_size_sds zsize s - zmalloc_size_sds zsize p;
                      s \<leftarrow> sdscatlen junk s (sds_buf p) (sdslen p);
                      Some (c\<lparr>c_reply := take ln (c_reply c) @ ob\<lparr>ro_ptr := Some s\<rparr> # drop (ln + 2) (c_reply c),
                              c_reply_bytes := bytes + zmalloc_size_sds zsize s\<rparr>)
                    }));
          asyncCloseClientOnOutputBufferLimitReached server c
        })"

text \<open>The shared objects the functions below use.\<close>

record sharedObjectsStruct =
  sh_crlf :: reply_obj
  sh_czero :: reply_obj
  sh_cone :: reply_obj
  sh_nullbulk :: reply_obj
  sh_mbulkhdr :: "nat \<Rightarrow> reply_obj"
  sh_bulkhdr :: "nat \<Rightarrow> reply_obj"

definition shared_string :: "(nat \<Rightarrow> byte) \<Rightarrow> byte list \<Rightarrow> reply_obj option" where
  "shared_string junk t = map_option (\<lambda>s. \<lparr>ro_ptr = Some s, ro_refcount = 1\<rparr>) (sdsnew junk (Some (t @ [0])))"

text \<open>The header \<open>c<j>\<close> and CRLF, made with \<open>sdscatprintf\<close>.\<close>

definition shared_header :: "(nat \<Rightarrow> byte) \<Rightarrow> byte \<Rightarrow> nat \<Rightarrow> reply_obj option" where
  "shared_header junk c j = do {
     s \<leftarrow> sdsempty junk;
     s \<leftarrow> sdscatvprintf junk s 5 (c # sdec (int j) @ [13, 10]);
     Some \<lparr>ro_ptr = Some s, ro_refcount = 1\<rparr>
   }"

definition createSharedObjects :: "(nat \<Rightarrow> byte) \<Rightarrow> sharedObjectsStruct option" where
  "createSharedObjects junk = do {
     crlf \<leftarrow> shared_string junk [13, 10];
     czero \<leftarrow> shared_string junk (bytes_of '':0'' @ [13, 10]);
     cone \<leftarrow> shared_string junk (bytes_of '':1'' @ [13, 10]);
     nullbulk \<leftarrow> shared_string junk (bytes_of ''$-1'' @ [13, 10]);
     mbulkhdr \<leftarrow> those (map (shared_header junk (ch CHR ''*'')) [0..<32]);
     bulkhdr \<leftarrow> those (map (shared_header junk (ch CHR ''$'')) [0..<32]);
     Some \<lparr>sh_crlf = crlf, sh_czero = czero, sh_cone = cone, sh_nullbulk = nullbulk,
       sh_mbulkhdr = (\<lambda>j. mbulkhdr ! j), sh_bulkhdr = (\<lambda>j. bulkhdr ! j)\<rparr>
   }"

text \<open>An element of one of the arrays of 32 headers.\<close>

definition shared_at :: "(nat \<Rightarrow> reply_obj) \<Rightarrow> int \<Rightarrow> reply_obj option" where
  "shared_at a i = (if 0 \<le> i \<and> i < REDIS_SHARED_BULKHDR_LEN then Some (a (nat i)) else None)"

definition addReplyLongLongWithPrefix ::
    "(nat \<Rightarrow> byte) \<Rightarrow> (nat \<Rightarrow> nat) \<Rightarrow> redisServer \<Rightarrow> ('a redisClient_scheme \<Rightarrow> bool) \<Rightarrow> sharedObjectsStruct \<Rightarrow> 'a redisClient_scheme \<Rightarrow>
     u64 \<Rightarrow> byte \<Rightarrow> 'a redisClient_scheme option" where
  "addReplyLongLongWithPrefix junk zsize server ae shared c ll prefix =
     (if prefix = ch CHR ''*'' \<and> sint ll < REDIS_SHARED_BULKHDR_LEN then do {
        ob \<leftarrow> shared_at (sh_mbulkhdr shared) (sint ll);
        addReply junk zsize server ae c (Reply_Raw ob)
      } else if prefix = ch CHR ''$'' \<and> sint ll < REDIS_SHARED_BULKHDR_LEN then do {
        ob \<leftarrow> shared_at (sh_bulkhdr shared) (sint ll);
        addReply junk zsize server ae c (Reply_Raw ob)
      } else do {
        let buf = stackbuf junk 128;
        buf \<leftarrow> wr buf 0 prefix;
        (rest, len) \<leftarrow> ll2string (drop 1 buf) 127 ll;
        let buf = take 1 buf @ rest;
        let len = unat len;
        buf \<leftarrow> wr buf (len + 1) 13;
        buf \<leftarrow> wr buf (len + 2) 10;
        addReplyString junk zsize server ae c buf (len + 3)
      })"

definition addReplyLongLong ::
    "(nat \<Rightarrow> byte) \<Rightarrow> (nat \<Rightarrow> nat) \<Rightarrow> redisServer \<Rightarrow> ('a redisClient_scheme \<Rightarrow> bool) \<Rightarrow> sharedObjectsStruct \<Rightarrow> 'a redisClient_scheme \<Rightarrow>
     u64 \<Rightarrow> 'a redisClient_scheme option" where
  "addReplyLongLong junk zsize server ae shared c ll =
     (if ll = 0 then addReply junk zsize server ae c (Reply_Raw (sh_czero shared))
      else if ll = 1 then addReply junk zsize server ae c (Reply_Raw (sh_cone shared))
      else addReplyLongLongWithPrefix junk zsize server ae shared c ll (ch CHR '':''))"

definition addReplyMultiBulkLen ::
    "(nat \<Rightarrow> byte) \<Rightarrow> (nat \<Rightarrow> nat) \<Rightarrow> redisServer \<Rightarrow> ('a redisClient_scheme \<Rightarrow> bool) \<Rightarrow> sharedObjectsStruct \<Rightarrow> 'a redisClient_scheme \<Rightarrow>
     u64 \<Rightarrow> 'a redisClient_scheme option" where
  "addReplyMultiBulkLen junk zsize server ae shared c len =
     (if sint len < REDIS_SHARED_BULKHDR_LEN then do {
        ob \<leftarrow> shared_at (sh_mbulkhdr shared) (sint len);
        addReply junk zsize server ae c (Reply_Raw ob)
      } else addReplyLongLongWithPrefix junk zsize server ae shared c len (ch CHR ''*''))"

text \<open>The number of characters of a \<open>long\<close>; the negation of the least one wraps to itself, and the
  division of a negative number truncates.\<close>

lemma sint_sdiv_10: "sint (word_of_int (sint (n :: u64) sdiv 10) :: u64) = sint n sdiv 10"
proof -
  have "\<bar>sint n\<bar> div 10 \<le> \<bar>sint n\<bar>" "0 \<le> \<bar>sint n\<bar> div 10" by simp_all
  moreover have "- (2 ^ 63) \<le> sint n" "sint n < 2 ^ 63" using sint_greater_eq [of n] sint_less [of n] by simp_all
  ultimately have "- (2 ^ 63) \<le> sint n sdiv 10" "sint n sdiv 10 < 2 ^ 63"
    by (auto simp: signed_divide_int_def sgn_if)
  then show ?thesis by (intro sint_of_int_range) simp_all
qed

function count_digits :: "u64 \<Rightarrow> nat \<Rightarrow> nat" where
  "count_digits n len =
     (let n = word_of_int (sint n sdiv 10) in if n \<noteq> 0 then count_digits n (len + 1) else len)"
  by pat_completeness auto
termination
proof (relation "measure (\<lambda>(n, len). nat \<bar>sint n\<bar>)", goal_cases)
  case (2 n len m)
  then have "sint n \<noteq> 0" by (auto simp: signed_divide_int_def)
  then have "\<bar>sint n sdiv 10\<bar> < \<bar>sint n\<bar>" by (auto simp: signed_divide_int_def sgn_if)
  then show ?case using 2(1) sint_sdiv_10 [of n] by simp
qed simp

declare count_digits.simps [simp del]

definition addReplyBulkLen ::
    "(nat \<Rightarrow> byte) \<Rightarrow> (nat \<Rightarrow> nat) \<Rightarrow> redisServer \<Rightarrow> ('a redisClient_scheme \<Rightarrow> bool) \<Rightarrow> sharedObjectsStruct \<Rightarrow> 'a redisClient_scheme \<Rightarrow>
     reply_arg \<Rightarrow> 'a redisClient_scheme option" where
  "addReplyBulkLen junk zsize server ae shared c obj = do {
     len \<leftarrow> (case obj of
        Reply_Raw ob \<Rightarrow> map_option sdslen (ro_ptr ob)
      | Reply_Int n \<Rightarrow> Some (if sint n < 0 then count_digits (- n) 2 else count_digits n 1));
     if int len < REDIS_SHARED_BULKHDR_LEN then do {
       ob \<leftarrow> shared_at (sh_bulkhdr shared) (int len);
       addReply junk zsize server ae c (Reply_Raw ob)
     } else addReplyLongLongWithPrefix junk zsize server ae shared c (of_nat len) (ch CHR ''$'')
   }"

definition addReplyBulk ::
    "(nat \<Rightarrow> byte) \<Rightarrow> (nat \<Rightarrow> nat) \<Rightarrow> redisServer \<Rightarrow> ('a redisClient_scheme \<Rightarrow> bool) \<Rightarrow> sharedObjectsStruct \<Rightarrow> 'a redisClient_scheme \<Rightarrow>
     reply_arg \<Rightarrow> 'a redisClient_scheme option" where
  "addReplyBulk junk zsize server ae shared c obj = do {
     c \<leftarrow> addReplyBulkLen junk zsize server ae shared c obj;
     c \<leftarrow> addReply junk zsize server ae c obj;
     addReply junk zsize server ae c (Reply_Raw (sh_crlf shared))
   }"

definition addReplyBulkCBuffer ::
    "(nat \<Rightarrow> byte) \<Rightarrow> (nat \<Rightarrow> nat) \<Rightarrow> redisServer \<Rightarrow> ('a redisClient_scheme \<Rightarrow> bool) \<Rightarrow> sharedObjectsStruct \<Rightarrow> 'a redisClient_scheme \<Rightarrow>
     byte list \<Rightarrow> nat \<Rightarrow> 'a redisClient_scheme option" where
  "addReplyBulkCBuffer junk zsize server ae shared c p len = do {
     c \<leftarrow> addReplyLongLongWithPrefix junk zsize server ae shared c (of_nat len) (ch CHR ''$'');
     c \<leftarrow> addReplyString junk zsize server ae c p len;
     addReply junk zsize server ae c (Reply_Raw (sh_crlf shared))
   }"

definition addReplyBulkCString ::
    "(nat \<Rightarrow> byte) \<Rightarrow> (nat \<Rightarrow> nat) \<Rightarrow> redisServer \<Rightarrow> ('a redisClient_scheme \<Rightarrow> bool) \<Rightarrow> sharedObjectsStruct \<Rightarrow> 'a redisClient_scheme \<Rightarrow>
     byte list option \<Rightarrow> 'a redisClient_scheme option" where
  "addReplyBulkCString junk zsize server ae shared c s =
     (case s of
        None \<Rightarrow> addReply junk zsize server ae c (Reply_Raw (sh_nullbulk shared))
      | Some s \<Rightarrow> do { n \<leftarrow> strlen s; addReplyBulkCBuffer junk zsize server ae shared c s n })"

definition addReplyBulkLongLong ::
    "(nat \<Rightarrow> byte) \<Rightarrow> (nat \<Rightarrow> nat) \<Rightarrow> redisServer \<Rightarrow> ('a redisClient_scheme \<Rightarrow> bool) \<Rightarrow> sharedObjectsStruct \<Rightarrow> 'a redisClient_scheme \<Rightarrow>
     u64 \<Rightarrow> 'a redisClient_scheme option" where
  "addReplyBulkLongLong junk zsize server ae shared c ll = do {
     (buf, len) \<leftarrow> ll2string (stackbuf junk 64) 64 ll;
     addReplyBulkCBuffer junk zsize server ae shared c buf (unat len)
   }"

text \<open>\<open>listDup\<close> adds a reference to every object.\<close>

definition copyClientOutputBuffer :: "'a redisClient_scheme \<Rightarrow> 'a redisClient_scheme \<Rightarrow> 'a redisClient_scheme option" where
  "copyClientOutputBuffer dst src = do {
     d \<leftarrow> memread (c_buf src) 0 (c_bufpos src);
     buf \<leftarrow> memwrite (c_buf dst) 0 d;
     Some (dst\<lparr>c_reply := map (\<lambda>ob. ob\<lparr>ro_refcount := ro_refcount ob + 1\<rparr>) (c_reply src), c_buf := buf,
               c_bufpos := c_bufpos src, c_reply_bytes := c_reply_bytes src\<rparr>)
   }"

section \<open>Sending\<close>

text \<open>What one call of \<open>write\<close> does: it accepts some of the bytes, at most as many as it is given, or
  it fails, with or without \<open>EAGAIN\<close>. A socket with no result left is not writable.\<close>

datatype write_result = Wrote nat | Again | Failed

definition sys_write :: "write_result list \<Rightarrow> nat \<Rightarrow> write_result \<times> write_result list" where
  "sys_write ws n = (case ws of [] \<Rightarrow> (Again, []) | Wrote k # ws \<Rightarrow> (Wrote (min k n), ws) | w # ws \<Rightarrow> (w, ws))"

text \<open>The state of the loop: the client, \<open>totwritten\<close>, the bytes accepted so far and the results of
  \<open>write\<close> that are left. The flag of the result is that \<open>write\<close> failed for good. \<open>limited\<close> is the test
  on \<open>maxmemory\<close>.\<close>

definition send_chunk :: "byte list \<Rightarrow> nat \<Rightarrow> nat \<Rightarrow> write_result list \<Rightarrow> ((nat \<times> byte list + bool) \<times> write_result list) option" where
  "send_chunk b sentlen len ws = do {
     d \<leftarrow> memread b sentlen (len - sentlen);
     let (w, ws) = sys_write ws (len - sentlen);
     Some (case w of
       Wrote n \<Rightarrow> if n = 0 then (Inr False, ws) else (Inl (n, take n d), ws)
     | Again \<Rightarrow> (Inr False, ws)
     | Failed \<Rightarrow> (Inr True, ws))
   }"

lemma send_chunk_ws: "send_chunk b s len ws = Some (Inl x, ws') \<Longrightarrow> length ws' < length ws"
  by (auto simp: send_chunk_def sys_write_def Let_def split: option.splits list.splits write_result.splits if_splits
      bind_splits prod.splits)

definition count_output :: "'a redisClient_scheme \<Rightarrow> nat \<Rightarrow> 'a redisClient_scheme" where
  "count_output c tot = c\<lparr>server_stat_net_output_bytes := server_stat_net_output_bytes c + of_nat tot\<rparr>"

function send_loop ::
    "(nat \<Rightarrow> nat) \<Rightarrow> bool \<Rightarrow> 'a redisClient_scheme \<Rightarrow> nat \<Rightarrow> byte list \<Rightarrow> write_result list \<Rightarrow>
     ('a redisClient_scheme \<times> nat \<times> byte list \<times> bool) option" where
  "send_loop zsize limited c tot out ws =
     (if c_bufpos c > 0 then
        (case send_chunk (c_buf c) (c_sentlen c) (c_bufpos c) ws of
           None \<Rightarrow> None
         | Some (Inr err, ws) \<Rightarrow> Some (c, tot, out, err)
         | Some (Inl (n, d), ws) \<Rightarrow>
             let sent = c_sentlen c + n;
                 c = (if sent = c_bufpos c then c\<lparr>c_bufpos := 0, c_sentlen := 0\<rparr> else c\<lparr>c_sentlen := sent\<rparr>);
                 c = count_output c (tot + n)
             in if tot + n > REDIS_MAX_WRITE_PER_EVENT \<and> limited then Some (c, tot + n, out @ d, False)
                else send_loop zsize limited c (tot + n) (out @ d) ws)
      else (case c_reply c of
          [] \<Rightarrow> Some (c, tot, out, False)
        | ob # reply \<Rightarrow> (case ro_ptr ob of
            None \<Rightarrow> None
          | Some p \<Rightarrow>
              if sdslen p = 0 then send_loop zsize limited (c\<lparr>c_reply := reply\<rparr>) tot out ws
              else (case send_chunk (sds_buf p) (c_sentlen c) (sdslen p) ws of
                 None \<Rightarrow> None
               | Some (Inr err, ws) \<Rightarrow> Some (c, tot, out, err)
               | Some (Inl (n, d), ws) \<Rightarrow>
                   let sent = c_sentlen c + n;
                       c = (if sent = sdslen p
                            then c\<lparr>c_reply := reply, c_sentlen := 0, c_reply_bytes := c_reply_bytes c - zmalloc_size_sds zsize p\<rparr>
                            else c\<lparr>c_sentlen := sent\<rparr>);
                       c = count_output c (tot + n)
                   in if tot + n > REDIS_MAX_WRITE_PER_EVENT \<and> limited then Some (c, tot + n, out @ d, False)
                      else send_loop zsize limited c (tot + n) (out @ d) ws))))"
  by pat_completeness auto
termination
  by (relation "measures [\<lambda>(zsize, limited, c, tot, out, ws). length ws, \<lambda>(zsize, limited, c, tot, out, ws). length (c_reply c)]")
    (auto dest!: send_chunk_ws)

declare send_loop.simps [simp del]

text \<open>The bytes the socket accepted, and the client unless it was freed.\<close>

definition sendReplyToClient ::
    "(nat \<Rightarrow> nat) \<Rightarrow> redisServer \<Rightarrow> bool \<Rightarrow> 'a redisClient_scheme \<Rightarrow> write_result list \<Rightarrow>
     (byte list \<times> 'a redisClient_scheme option) option" where
  "sendReplyToClient zsize server limited c ws = do {
     (c, totwritten, out, failed) \<leftarrow> send_loop zsize limited c 0 [] ws;
     if failed then Some (out, None)
     else do {
       let c = (if totwritten > 0 \<and> REDIS_MASTER \<notin> c_flags c then c\<lparr>c_lastinteraction := server_unixtime server\<rparr> else c);
       if c_bufpos c = 0 \<and> length (c_reply c) = 0 then
         Some (out, if REDIS_CLOSE_AFTER_REPLY \<in> c_flags c then None else Some (c\<lparr>c_sentlen := 0\<rparr>))
       else Some (out, Some c)
     }
   }"

end
