(* ===== verification/Query.thy ===== *)
theory Query
  imports Reply Sds_Split
begin

text \<open>
  The input side of \<open>src/redis-2.8.24/src/networking.c\<close>: the callback for a readable socket, the
  parsers for inline and multi bulk requests and the loop that runs the commands.

  The client is the record of \<open>Reply\<close> extended with the fields of the input. An argument is the
  string of its object; \<open>argc\<close> is the number of arguments, \<open>c_argv_size\<close> the number of cells allocated for
  \<open>argv\<close>. \<open>multibulklen\<close> is never negative and is a natural. Parameters: \<open>processCommand\<close>, the command
  dispatcher, with its return value as a flag; the result of \<open>read\<close>; those of \<open>Reply\<close>. \<open>None\<close> is a
  failed assertion, a panic or an access outside a buffer. Logging is not modelled.
\<close>

section \<open>The client\<close>

record queryClient = redisClient +
  c_querybuf :: sds
  c_querybuf_peak :: nat
  c_argv :: "sds list"
  c_argv_size :: nat
  c_reqtype :: nat
  c_multibulklen :: nat
  c_bulklen :: int
  c_reploff :: int
  c_repl_ack_time :: int
  server_stat_net_input_bytes :: u64

abbreviation REDIS_REQ_INLINE :: nat where "REDIS_REQ_INLINE \<equiv> 1"
abbreviation REDIS_REQ_MULTIBULK :: nat where "REDIS_REQ_MULTIBULK \<equiv> 2"
abbreviation REDIS_INLINE_MAX_SIZE :: nat where "REDIS_INLINE_MAX_SIZE \<equiv> 65536"
abbreviation REDIS_MBULK_BIG_ARG :: int where "REDIS_MBULK_BIG_ARG \<equiv> 32768"
abbreviation REDIS_IOBUF_LEN :: int where "REDIS_IOBUF_LEN \<equiv> 16384"
abbreviation REDIS_MAX_QUERYBUF_LEN :: nat where "REDIS_MAX_QUERYBUF_LEN \<equiv> 1024 * 1024 * 1024"

text \<open>A new client. \<open>cid\<close> is \<open>server.next_client_id\<close>, \<open>listen\<close> tells whether \<open>aeCreateFileEvent\<close> succeeds, \<open>cl\<close>,
  \<open>outb\<close> and \<open>inb\<close> are the fields of the server that the record holds, \<open>x\<close> is everything else. The
  result is \<open>Some None\<close> for \<open>NULL\<close>; the static buffer is not initialised.\<close>

definition createClient ::
    "(nat \<Rightarrow> byte) \<Rightarrow> redisServer \<Rightarrow> bool \<Rightarrow> u64 \<Rightarrow> u64 list \<Rightarrow> u64 \<Rightarrow> u64 \<Rightarrow> 'a \<Rightarrow> int \<Rightarrow> 'a queryClient_scheme option option" where
  "createClient junk server listen cid cl outb inb x fd =
     (if fd \<noteq> - 1 \<and> \<not> listen then Some None
      else do {
        q \<leftarrow> sdsempty junk;
        Some (Some \<lparr>c_id = cid, c_fd = fd, c_flags = {}, c_replstate = REDIS_REPL_NONE, c_repl_put_online_on_ack = False,
          c_reply = [], c_reply_bytes = 0, c_sentlen = 0, c_lastinteraction = server_unixtime server,
          c_obuf_soft_limit_reached_time = 0, c_bufpos = 0, c_buf = stackbuf junk REDIS_REPLY_CHUNK_BYTES,
          server_clients_to_close = cl, server_stat_net_output_bytes = outb,
          c_querybuf = q, c_querybuf_peak = 0, c_argv = [], c_argv_size = 0, c_reqtype = 0, c_multibulklen = 0, c_bulklen = - 1,
          c_reploff = 0, c_repl_ack_time = 0, server_stat_net_input_bytes = inb, \<dots> = x\<rparr>)
      })"

text \<open>\<open>strchr(b + i, c)\<close>: the position of the first \<open>c\<close> in front of the NUL; \<open>Some None\<close> is \<open>NULL\<close>.\<close>

definition strchr_at :: "byte list \<Rightarrow> nat \<Rightarrow> byte \<Rightarrow> nat option option" where
  "strchr_at b i c =
     (let j = i + length (takeWhile (\<lambda>x. x \<noteq> c \<and> x \<noteq> 0) (drop i b))
      in do { x \<leftarrow> rd b j; Some (if x = c then Some j else None) })"

definition freeClientArgv :: "'a queryClient_scheme \<Rightarrow> 'a queryClient_scheme" where
  "freeClientArgv c = c\<lparr>c_argv := []\<rparr>"

definition resetClient :: "'a queryClient_scheme \<Rightarrow> 'a queryClient_scheme" where
  "resetClient c =
     (let c = (freeClientArgv c)\<lparr>c_reqtype := 0, c_multibulklen := 0, c_bulklen := - 1\<rparr>
      in if REDIS_MULTI \<notin> c_flags c then c\<lparr>c_flags := c_flags c - {REDIS_ASKING}\<rparr> else c)"

text \<open>\<open>c->argv[c->argc++] = o\<close>.\<close>

definition argv_push :: "'a queryClient_scheme \<Rightarrow> sds \<Rightarrow> 'a queryClient_scheme option" where
  "argv_push c a = (if length (c_argv c) < c_argv_size c then Some (c\<lparr>c_argv := c_argv c @ [a]\<rparr>) else None)"

definition setProtocolError :: "'a queryClient_scheme \<Rightarrow> nat \<Rightarrow> 'a queryClient_scheme option" where
  "setProtocolError c pos = do {
     let c = c\<lparr>c_flags := insert REDIS_CLOSE_AFTER_REPLY (c_flags c)\<rparr>;
     q \<leftarrow> sdsrange (c_querybuf c) (of_nat pos) (- 1);
     Some (c\<lparr>c_querybuf := q\<rparr>)
   }"

text \<open>An error reply with a constant text, followed by \<open>setProtocolError\<close>.\<close>

definition protocol_error ::
    "(nat \<Rightarrow> byte) \<Rightarrow> (nat \<Rightarrow> nat) \<Rightarrow> redisServer \<Rightarrow> ('a queryClient_scheme \<Rightarrow> bool) \<Rightarrow> 'a queryClient_scheme \<Rightarrow> string \<Rightarrow> nat \<Rightarrow>
     'a queryClient_scheme option" where
  "protocol_error junk zsize server ae c msg pos = do {
     c \<leftarrow> addReplyError junk zsize server ae c (bytes_of msg @ [0]);
     setProtocolError c pos
   }"

section \<open>Inline requests\<close>

fun inline_args :: "'a queryClient_scheme \<Rightarrow> sds list \<Rightarrow> 'a queryClient_scheme option" where
  "inline_args c [] = Some c"
| "inline_args c (a # as) = do {
     c \<leftarrow> (if sdslen a \<noteq> 0 then argv_push c a else Some c);
     inline_args c as
   }"

definition processInlineBuffer ::
    "(nat \<Rightarrow> byte) \<Rightarrow> (nat \<Rightarrow> nat) \<Rightarrow> redisServer \<Rightarrow> ('a queryClient_scheme \<Rightarrow> bool) \<Rightarrow> 'a queryClient_scheme \<Rightarrow>
     ('a queryClient_scheme \<times> bool) option" where
  "processInlineBuffer junk zsize server ae c = do {
     let q = c_querybuf c;
     newline \<leftarrow> strchr_at (sds_buf q) 0 10;
     case newline of
       None \<Rightarrow>
         if sdslen q > REDIS_INLINE_MAX_SIZE then do {
           c \<leftarrow> protocol_error junk zsize server ae c ''Protocol error: too big inline request'' 0;
           Some (c, False)
         } else Some (c, False)
     | Some newline \<Rightarrow> do {
         cr \<leftarrow> (if newline \<noteq> 0 then map_option (\<lambda>x. x = 13) (rd (sds_buf q) (newline - 1)) else Some False);
         let querylen = (if cr then newline - 1 else newline);
         aux \<leftarrow> sdsnewlen junk (Some (sds_buf q)) querylen;
         argv \<leftarrow> sdssplitargs junk (sds_buf aux);
         case argv of
           None \<Rightarrow> do {
             c \<leftarrow> protocol_error junk zsize server ae c ''Protocol error: unbalanced quotes in request'' 0;
             Some (c, False)
           }
         | Some argv \<Rightarrow> do {
             let c = (if querylen = 0 \<and> REDIS_SLAVE \<in> c_flags c then c\<lparr>c_repl_ack_time := server_unixtime server\<rparr> else c);
             q \<leftarrow> sdsrange q (of_nat (querylen + 2)) (- 1);
             let c = c\<lparr>c_querybuf := q\<rparr>;
             let c = (if argv \<noteq> [] then c\<lparr>c_argv_size := length argv\<rparr> else c);
             c \<leftarrow> inline_args (c\<lparr>c_argv := []\<rparr>) argv;
             Some (c, True)
           }
       }
   }"

section \<open>Multi bulk requests\<close>

text \<open>What a part of \<open>processMultibulkBuffer\<close> does next: go on at a position, leave the loop, or return.\<close>

datatype 'c mbulk = Go 'c nat | Break 'c nat | Return 'c bool

definition mbulk_error ::
    "(nat \<Rightarrow> byte) \<Rightarrow> (nat \<Rightarrow> nat) \<Rightarrow> redisServer \<Rightarrow> ('a queryClient_scheme \<Rightarrow> bool) \<Rightarrow> 'a queryClient_scheme \<Rightarrow> string \<Rightarrow> nat \<Rightarrow>
     'a queryClient_scheme mbulk option" where
  "mbulk_error junk zsize server ae c msg pos =
     map_option (\<lambda>c. Return c False) (protocol_error junk zsize server ae c msg pos)"

text \<open>The number of arguments.\<close>

definition mbulk_count ::
    "(nat \<Rightarrow> byte) \<Rightarrow> (nat \<Rightarrow> nat) \<Rightarrow> redisServer \<Rightarrow> ('a queryClient_scheme \<Rightarrow> bool) \<Rightarrow> 'a queryClient_scheme \<Rightarrow>
     'a queryClient_scheme mbulk option" where
  "mbulk_count junk zsize server ae c =
     (if c_argv c \<noteq> [] then None
      else do {
        let q = c_querybuf c;
        newline \<leftarrow> strchr_at (sds_buf q) 0 13;
        case newline of
          None \<Rightarrow>
            if sdslen q > REDIS_INLINE_MAX_SIZE
            then mbulk_error junk zsize server ae c ''Protocol error: too big mbulk count string'' 0
            else Some (Return c False)
        | Some newline \<Rightarrow>
            if int newline > sint (sds_len q) - 2 then Some (Return c False)
            else do {
              b \<leftarrow> rd (sds_buf q) 0;
              if b \<noteq> ch CHR ''*'' then None
              else do {
                t \<leftarrow> memread (sds_buf q) 1 (newline - 1);
                case string2ll t of
                  None \<Rightarrow> mbulk_error junk zsize server ae c ''Protocol error: invalid multibulk length'' 0
                | Some ll \<Rightarrow>
                    if sint ll > 1024 * 1024
                    then mbulk_error junk zsize server ae c ''Protocol error: invalid multibulk length'' 0
                    else if sint ll \<le> 0 then do {
                      q \<leftarrow> sdsrange q (of_nat (newline + 2)) (- 1);
                      Some (Return (c\<lparr>c_querybuf := q\<rparr>) True)
                    } else Some (Go (c\<lparr>c_multibulklen := nat (sint ll), c_argv_size := nat (sint ll)\<rparr>) (newline + 2))
              }
            }
      })"

text \<open>The length of an argument, unless it is known.\<close>

definition bulk_length ::
    "(nat \<Rightarrow> byte) \<Rightarrow> (nat \<Rightarrow> nat) \<Rightarrow> redisServer \<Rightarrow> ('a queryClient_scheme \<Rightarrow> bool) \<Rightarrow> 'a queryClient_scheme \<Rightarrow> nat \<Rightarrow>
     'a queryClient_scheme mbulk option" where
  "bulk_length junk zsize server ae c pos =
     (if c_bulklen c \<noteq> - 1 then Some (Go c pos)
      else do {
        let q = c_querybuf c;
        newline \<leftarrow> strchr_at (sds_buf q) pos 13;
        case newline of
          None \<Rightarrow>
            if sdslen q > REDIS_INLINE_MAX_SIZE
            then mbulk_error junk zsize server ae c ''Protocol error: too big bulk count string'' 0
            else Some (Break c pos)
        | Some newline \<Rightarrow>
            if int newline > sint (sds_len q) - 2 then Some (Break c pos)
            else do {
              b \<leftarrow> rd (sds_buf q) pos;
              if b \<noteq> ch CHR ''$'' then do {
                c \<leftarrow> addReplyErrorFormat junk zsize server ae c 38
                       (bytes_of ''Protocol error: expected '' @ [39, ch CHR ''$'', 39] @ bytes_of '', got '' @ [39, b, 39]);
                c \<leftarrow> setProtocolError c pos;
                Some (Return c False)
              } else do {
                t \<leftarrow> memread (sds_buf q) (pos + 1) (newline - (pos + 1));
                case string2ll t of
                  None \<Rightarrow> mbulk_error junk zsize server ae c ''Protocol error: invalid bulk length'' pos
                | Some ll \<Rightarrow>
                    if sint ll < 0 \<or> sint ll > 512 * 1024 * 1024
                    then mbulk_error junk zsize server ae c ''Protocol error: invalid bulk length'' pos
                    else do {
                      (q, pos) \<leftarrow>
                        (if sint ll \<ge> REDIS_MBULK_BIG_ARG then do {
                           q \<leftarrow> sdsrange q (of_nat (newline + 2)) (- 1);
                           let qblen = sdslen q;
                           let q = (if qblen < nat (sint ll) + 2 then sdsMakeRoomFor junk q (nat (sint ll) + 2 - qblen) else q);
                           Some (q, 0)
                         } else Some (q, newline + 2));
                      Some (Go (c\<lparr>c_querybuf := q, c_bulklen := sint ll\<rparr>) pos)
                    }
              }
            }
      })"

text \<open>The argument itself. The subtraction is of type \<open>size_t\<close>.\<close>

definition read_bulk :: "(nat \<Rightarrow> byte) \<Rightarrow> 'a queryClient_scheme \<Rightarrow> nat \<Rightarrow> 'a queryClient_scheme mbulk option" where
  "read_bulk junk c pos =
     (let q = c_querybuf c
      in if (of_nat (sdslen q) - of_nat pos :: u64) < ucast (word_of_int (c_bulklen c + 2) :: u32) then Some (Break c pos)
         else do {
           (c, pos) \<leftarrow>
             (if pos = 0 \<and> c_bulklen c \<ge> REDIS_MBULK_BIG_ARG \<and> sint (sds_len q) = c_bulklen c + 2 then do {
                a \<leftarrow> sdsIncrLen q (- 2);
                c \<leftarrow> argv_push c a;
                q \<leftarrow> sdsempty junk;
                Some (c\<lparr>c_querybuf := sdsMakeRoomFor junk q (nat (c_bulklen c + 2))\<rparr>, 0)
              } else do {
                a \<leftarrow> sdsnewlen junk (Some (drop pos (sds_buf q))) (nat (c_bulklen c));
                c \<leftarrow> argv_push c a;
                Some (c, pos + nat (c_bulklen c + 2))
              });
           Some (Go (c\<lparr>c_bulklen := - 1, c_multibulklen := c_multibulklen c - 1\<rparr>) pos)
         })"

lemma mbulk_error_Go [simp]: "mbulk_error junk zsize server ae c msg pos \<noteq> Some (Go c' pos')"
  by (auto simp: mbulk_error_def)

lemma argv_push_multibulklen: "argv_push c a = Some c' \<Longrightarrow> c_multibulklen c' = c_multibulklen c"
  by (auto simp: argv_push_def split: if_splits)

lemma bulk_length_multibulklen:
  "bulk_length junk zsize server ae c pos = Some (Go c' pos') \<Longrightarrow> c_multibulklen c' = c_multibulklen c"
  by (auto simp: bulk_length_def Let_def split: if_splits bind_splits option.splits)

lemma read_bulk_multibulklen:
  "read_bulk junk c pos = Some (Go c' pos') \<Longrightarrow> c_multibulklen c' = c_multibulklen c - 1"
  by (auto simp: read_bulk_def Let_def dest!: argv_push_multibulklen split: if_splits bind_splits)

function mbulk_loop ::
    "(nat \<Rightarrow> byte) \<Rightarrow> (nat \<Rightarrow> nat) \<Rightarrow> redisServer \<Rightarrow> ('a queryClient_scheme \<Rightarrow> bool) \<Rightarrow> 'a queryClient_scheme \<Rightarrow> nat \<Rightarrow>
     'a queryClient_scheme mbulk option" where
  "mbulk_loop junk zsize server ae c pos =
     (if c_multibulklen c = 0 then Some (Break c pos)
      else case bulk_length junk zsize server ae c pos of
        Some (Go c pos) \<Rightarrow>
          (case read_bulk junk c pos of
             Some (Go c pos) \<Rightarrow> mbulk_loop junk zsize server ae c pos
           | r \<Rightarrow> r)
      | r \<Rightarrow> r)"
  by pat_completeness auto
termination
  by (relation "measure (\<lambda>(junk, zsize, server, ae, c, pos). c_multibulklen c)")
    (auto dest!: bulk_length_multibulklen read_bulk_multibulklen)

declare mbulk_loop.simps [simp del]

text \<open>Behind the loop.\<close>

definition mbulk_end :: "'a queryClient_scheme mbulk \<Rightarrow> ('a queryClient_scheme \<times> bool) option" where
  "mbulk_end r =
     (case r of
        Return c ok \<Rightarrow> Some (c, ok)
      | Break c pos \<Rightarrow> do {
          q \<leftarrow> (if pos \<noteq> 0 then sdsrange (c_querybuf c) (of_nat pos) (- 1) else Some (c_querybuf c));
          Some (c\<lparr>c_querybuf := q\<rparr>, c_multibulklen c = 0)
        }
      | Go c pos \<Rightarrow> None)"

definition processMultibulkBuffer ::
    "(nat \<Rightarrow> byte) \<Rightarrow> (nat \<Rightarrow> nat) \<Rightarrow> redisServer \<Rightarrow> ('a queryClient_scheme \<Rightarrow> bool) \<Rightarrow> 'a queryClient_scheme \<Rightarrow>
     ('a queryClient_scheme \<times> bool) option" where
  "processMultibulkBuffer junk zsize server ae c = do {
     r \<leftarrow> (if c_multibulklen c = 0 then mbulk_count junk zsize server ae c else Some (Go c 0));
     r \<leftarrow> (case r of
             Go c pos \<Rightarrow> if c_multibulklen c > 0 then mbulk_loop junk zsize server ae c pos else None
           | _ \<Rightarrow> Some r);
     mbulk_end r
   }"

section \<open>Running commands and reading the socket\<close>

partial_function (option) processInputBuffer ::
    "('a queryClient_scheme \<Rightarrow> 'a queryClient_scheme \<times> bool) \<Rightarrow> (nat \<Rightarrow> byte) \<Rightarrow> (nat \<Rightarrow> nat) \<Rightarrow> redisServer \<Rightarrow>
     ('a queryClient_scheme \<Rightarrow> bool) \<Rightarrow> 'a queryClient_scheme \<Rightarrow> 'a queryClient_scheme option" where
  "processInputBuffer processCommand junk zsize server ae c =
     (if sdslen (c_querybuf c) = 0 then Some c
      else if REDIS_BLOCKED \<in> c_flags c then Some c
      else if REDIS_CLOSE_AFTER_REPLY \<in> c_flags c then Some c
      else do {
        b \<leftarrow> rd (sds_buf (c_querybuf c)) 0;
        let c = (if c_reqtype c = 0
                 then c\<lparr>c_reqtype := (if b = ch CHR ''*'' then REDIS_REQ_MULTIBULK else REDIS_REQ_INLINE)\<rparr> else c);
        (c, ok) \<leftarrow> (if c_reqtype c = REDIS_REQ_INLINE then processInlineBuffer junk zsize server ae c
                    else if c_reqtype c = REDIS_REQ_MULTIBULK then processMultibulkBuffer junk zsize server ae c
                    else None);
        if \<not> ok then Some c
        else if c_argv c = [] then processInputBuffer processCommand junk zsize server ae (resetClient c)
        else case processCommand c of
          (c, ok) \<Rightarrow> processInputBuffer processCommand junk zsize server ae (if ok then resetClient c else c)
      })"

text \<open>What \<open>read\<close> finds on the socket: bytes that have arrived, of which it takes at most as many as it
  is asked for, nothing yet, an error, or the end of the connection.\<close>

datatype read_result = Arrived "byte list" | NoData | ReadError | EndOfFile

definition read_len :: "'a queryClient_scheme \<Rightarrow> int" where
  "read_len c =
     (if c_reqtype c = REDIS_REQ_MULTIBULK \<and> c_multibulklen c \<noteq> 0 \<and> c_bulklen c \<noteq> - 1 \<and> c_bulklen c \<ge> REDIS_MBULK_BIG_ARG then
        let remaining = sint (word_of_int (c_bulklen c + 2) - sds_len (c_querybuf c) :: u32)
        in if remaining < REDIS_IOBUF_LEN then remaining else REDIS_IOBUF_LEN
      else REDIS_IOBUF_LEN)"

text \<open>The client, unless it was freed, and the number of bytes taken from the socket. \<open>maxlen\<close> is
  \<open>server.client_max_querybuf_len\<close>.\<close>

definition readQueryFromClient ::
    "('a queryClient_scheme \<Rightarrow> 'a queryClient_scheme \<times> bool) \<Rightarrow> (nat \<Rightarrow> byte) \<Rightarrow> (nat \<Rightarrow> nat) \<Rightarrow> redisServer \<Rightarrow>
     ('a queryClient_scheme \<Rightarrow> bool) \<Rightarrow> nat \<Rightarrow> 'a queryClient_scheme \<Rightarrow> read_result \<Rightarrow> ('a queryClient_scheme option \<times> nat) option" where
  "readQueryFromClient processCommand junk zsize server ae maxlen c r =
     (let readlen = read_len c
      in if readlen < 0 then None
         else do {
           let qblen = sdslen (c_querybuf c);
           let c = (if c_querybuf_peak c < qblen then c\<lparr>c_querybuf_peak := qblen\<rparr> else c);
           let q = sdsMakeRoomFor junk (c_querybuf c) (nat readlen);
           let c = c\<lparr>c_querybuf := q\<rparr>;
           case r of
             NoData \<Rightarrow> Some (Some c, 0)
           | ReadError \<Rightarrow> Some (None, 0)
           | EndOfFile \<Rightarrow> Some (None, 0)
           | Arrived d \<Rightarrow> do {
               let d = take (nat readlen) d;
               let nread = length d;
               if nread = 0 then Some (None, 0)
               else do {
                 buf \<leftarrow> memwrite (sds_buf q) qblen d;
                 q \<leftarrow> sdsIncrLen (q\<lparr>sds_buf := buf\<rparr>) (of_nat nread);
                 let c = c\<lparr>c_querybuf := q, c_lastinteraction := server_unixtime server,
                           c_reploff := (if REDIS_MASTER \<in> c_flags c then c_reploff c + int nread else c_reploff c),
                           server_stat_net_input_bytes := server_stat_net_input_bytes c + of_nat nread\<rparr>;
                 if sdslen q > maxlen then Some (None, nread)
                 else do {
                   c \<leftarrow> processInputBuffer processCommand junk zsize server ae c;
                   Some (Some c, nread)
                 }
               }
             }
         })"

end
