(* ===== verification/Aof.thy ===== *)
theory Aof
  imports Query
begin

text \<open>
  \<open>src/redis-2.8.24/src/aof.c\<close>: the append-only file. Commands are appended to a buffer, which is flushed to
  the file before the server sleeps; at a restart the file is loaded and its commands are run again; a
  child process rewrites the file while the server collects the commands it runs in the meantime.

  The state is the record of the fields of \<open>server\<close> that \<open>aof.c\<close> uses and of what the system knows of the
  file: \<open>aof_file\<close>, the content of the file named \<open>aof_filename\<close>, to which \<open>aof_fd\<close> refers while the
  append-only file is in use; \<open>aof_synced\<close>, how many bytes of it the last completed \<open>fsync\<close> has brought to
  the disk; the background jobs for \<open>fsync\<close> and the descriptors given to the background thread for closing.
  Parameters: the results of the system calls, the clock, the junk of fresh memory, the shared integers, and
  for loading the command table and the commands. \<open>None\<close> is a failed assertion or an access outside a
  buffer; \<open>Exit\<close> is a call of \<open>exit(1)\<close>. Logging, latency samples and the times of rewrites are not modelled.
\<close>

section \<open>The state\<close>

datatype aof_mode = REDIS_AOF_OFF | REDIS_AOF_ON | REDIS_AOF_WAIT_REWRITE

datatype aof_policy = AOF_FSYNC_NO | AOF_FSYNC_ALWAYS | AOF_FSYNC_EVERYSEC

record aofrwblock =
  rw_used :: nat
  rw_free :: nat
  rw_buf :: "byte list"

record aofServer =
  aof_state :: aof_mode
  aof_fsync :: aof_policy
  aof_no_fsync_on_rewrite :: bool
  aof_rewrite_base_size :: nat
  aof_current_size :: nat
  aof_rewrite_scheduled :: bool
  aof_child_pid :: int
  rdb_child_pid :: int
  aof_rewrite_buf_blocks :: "aofrwblock list"
  aof_buf :: sds
  aof_fd :: int
  aof_selected_db :: int
  aof_flush_postponed_start :: int
  aof_last_fsync :: int
  aof_lastbgrewrite_status :: bool
  aof_delayed_fsync :: nat
  aof_last_write_status :: bool
  aof_last_write_errno :: int
  aof_load_truncated :: bool
  last_write_error_log :: int
  aof_file :: "byte list"
  aof_synced :: nat
  aof_fsync_jobs :: nat
  aof_closing :: "int list"

datatype 's run = Continue 's | Exit 's

abbreviation AOF_RW_BUF_BLOCK_SIZE :: nat where "AOF_RW_BUF_BLOCK_SIZE \<equiv> 1024 * 1024 * 10"
abbreviation AOF_WRITE_LOG_ERROR_RATE :: int where "AOF_WRITE_LOG_ERROR_RATE \<equiv> 30"
abbreviation ENOSPC :: int where "ENOSPC \<equiv> 28"

section \<open>The buffer of a rewrite\<close>

definition aofRewriteBufferReset :: "aofServer \<Rightarrow> aofServer" where
  "aofRewriteBufferReset sv = sv\<lparr>aof_rewrite_buf_blocks := []\<rparr>"

definition aofRewriteBufferSize :: "aofServer \<Rightarrow> nat" where
  "aofRewriteBufferSize sv =
     (let blocks = aof_rewrite_buf_blocks sv
      in if blocks = [] then 0 else (length blocks - 1) * AOF_RW_BUF_BLOCK_SIZE + rw_used (last blocks))"

text \<open>\<open>fresh_block\<close> is a block that has just been allocated; \<open>fill_block\<close> copies into the last block what fits
  and gives what is left.\<close>

definition fresh_block :: "(nat \<Rightarrow> byte) \<Rightarrow> aofrwblock" where
  "fresh_block junk = \<lparr>rw_used = 0, rw_free = AOF_RW_BUF_BLOCK_SIZE, rw_buf = stackbuf junk AOF_RW_BUF_BLOCK_SIZE\<rparr>"

definition fill_block :: "aofrwblock list \<Rightarrow> byte list \<Rightarrow> nat \<Rightarrow> (aofrwblock list \<times> byte list \<times> nat) option" where
  "fill_block blocks s len =
     (if blocks = [] then Some (blocks, s, len)
      else
        let block = last blocks;
            thislen = (if rw_free block < len then rw_free block else len)
        in if thislen = 0 then Some (blocks, s, len)
           else do {
             t \<leftarrow> memread s 0 thislen;
             b \<leftarrow> memwrite (rw_buf block) (rw_used block) t;
             Some (butlast blocks @ [\<lparr>rw_used = rw_used block + thislen, rw_free = rw_free block - thislen, rw_buf = b\<rparr>],
               drop thislen s, len - thislen)
           })"

lemma fill_block_less:
  assumes "fill_block blocks s len = Some (blocks', s', len')" "blocks \<noteq> []" "rw_free (last blocks) \<noteq> 0" "len \<noteq> 0"
  shows "len' < len"
  using assms by (auto simp: fill_block_def Let_def split: if_splits bind_splits)

lemma fill_block_le: "fill_block blocks s len = Some (blocks', s', len') \<Longrightarrow> len' \<le> len"
  by (auto simp: fill_block_def Let_def split: if_splits bind_splits)

function rw_append_loop :: "(nat \<Rightarrow> byte) \<Rightarrow> aofrwblock list \<Rightarrow> byte list \<Rightarrow> nat \<Rightarrow> aofrwblock list option" where
  "rw_append_loop junk blocks s len =
     (if len = 0 then Some blocks
      else case fill_block blocks s len of
        None \<Rightarrow> None
      | Some (blocks, s, len) \<Rightarrow>
          if len = 0 then Some blocks else rw_append_loop junk (blocks @ [fresh_block junk]) s len)"
  by pat_completeness auto
termination
proof (relation "measures [\<lambda>(junk, blocks, s, len). len, \<lambda>(junk, blocks, s, len). if blocks = [] \<or> rw_free (last blocks) = 0 then 1 else 0]",
    goal_cases)
  case (2 junk blocks s len r blocks' p s' len')
  then have f: "fill_block blocks s len = Some (blocks', s', len')" by (cases r; cases p) auto
  show ?case using fill_block_le [OF f] fill_block_less [OF f] 2(1)
    by (cases "blocks = [] \<or> rw_free (last blocks) = 0") (auto simp: fresh_block_def)
qed simp

declare rw_append_loop.simps [simp del]

definition aofRewriteBufferAppend :: "(nat \<Rightarrow> byte) \<Rightarrow> byte list \<Rightarrow> nat \<Rightarrow> aofServer \<Rightarrow> aofServer option" where
  "aofRewriteBufferAppend junk s len sv = do {
     blocks \<leftarrow> rw_append_loop junk (aof_rewrite_buf_blocks sv) s len;
     Some (sv\<lparr>aof_rewrite_buf_blocks := blocks\<rparr>)
   }"

text \<open>\<open>w i\<close> is the result of \<open>write\<close> for block \<open>i\<close>; the file gets as many bytes. The result is \<open>- 1\<close> or the
  number of bytes.\<close>

fun rw_write_loop :: "(nat \<Rightarrow> int) \<Rightarrow> nat \<Rightarrow> byte list \<Rightarrow> int \<Rightarrow> aofrwblock list \<Rightarrow> (byte list \<times> int) option" where
  "rw_write_loop w i file n [] = Some (file, n)"
| "rw_write_loop w i file n (block # blocks) =
     (if rw_used block \<noteq> 0 then do {
        t \<leftarrow> memread (rw_buf block) 0 (rw_used block);
        let file = file @ take (nat (w i)) t;
        if w i \<noteq> int (rw_used block) then Some (file, - 1)
        else rw_write_loop w (i + 1) file (n + w i) blocks
      } else rw_write_loop w (i + 1) file n blocks)"

definition aofRewriteBufferWrite :: "(nat \<Rightarrow> int) \<Rightarrow> byte list \<Rightarrow> aofServer \<Rightarrow> (byte list \<times> int) option" where
  "aofRewriteBufferWrite w file sv = rw_write_loop w 0 file 0 (aof_rewrite_buf_blocks sv)"

section \<open>Writing the file\<close>

definition aof_background_fsync :: "aofServer \<Rightarrow> aofServer" where
  "aof_background_fsync sv = sv\<lparr>aof_fsync_jobs := aof_fsync_jobs sv + 1\<rparr>"

definition aof_do_fsync :: "bool \<Rightarrow> aofServer \<Rightarrow> aofServer" where
  "aof_do_fsync fsync_ok sv = (if fsync_ok then sv\<lparr>aof_synced := length (aof_file sv)\<rparr> else sv)"

definition ftruncate :: "byte list \<Rightarrow> nat \<Rightarrow> byte list" where
  "ftruncate file n = take n file @ replicate (n - length file) 0"

text \<open>\<open>flushAppendOnlyFile\<close>: a write that failed or was short, where \<open>trunc_ok\<close> is the success of \<open>ftruncate\<close>;
  the \<open>fsync\<close> behind a write; and the whole function. \<open>pending\<close> tells whether a background \<open>fsync\<close> is not
  finished, \<open>nwritten\<close> and \<open>errno\<close> are the result of \<open>write\<close>, \<open>fsync_ok\<close> is the success of \<open>fsync\<close>, which the
  code does not look at.\<close>

definition flush_error :: "int \<Rightarrow> int \<Rightarrow> int \<Rightarrow> bool \<Rightarrow> aofServer \<Rightarrow> aofServer run option" where
  "flush_error unixtime nwritten errno trunc_ok sv =
     (let can_log = unixtime - last_write_error_log sv > AOF_WRITE_LOG_ERROR_RATE;
          sv = (if can_log then sv\<lparr>last_write_error_log := unixtime\<rparr> else sv);
          (sv, nwritten) =
            (if nwritten = - 1 then (if can_log then sv\<lparr>aof_last_write_errno := errno\<rparr> else sv, nwritten)
             else if trunc_ok
             then (sv\<lparr>aof_file := ftruncate (aof_file sv) (aof_current_size sv), aof_last_write_errno := ENOSPC\<rparr>, - 1)
             else (sv\<lparr>aof_last_write_errno := ENOSPC\<rparr>, nwritten))
      in if aof_fsync sv = AOF_FSYNC_ALWAYS then Some (Exit sv)
         else
           let sv = sv\<lparr>aof_last_write_status := False\<rparr>
           in if nwritten > 0 then do {
                q \<leftarrow> sdsrange (aof_buf sv) (word_of_int nwritten) (- 1);
                Some (Continue (sv\<lparr>aof_current_size := aof_current_size sv + nat nwritten, aof_buf := q\<rparr>))
              } else Some (Continue sv))"

definition flush_fsync :: "int \<Rightarrow> bool \<Rightarrow> bool \<Rightarrow> aofServer \<Rightarrow> aofServer" where
  "flush_fsync unixtime sync_in_progress fsync_ok sv =
     (if aof_no_fsync_on_rewrite sv \<and> (aof_child_pid sv \<noteq> - 1 \<or> rdb_child_pid sv \<noteq> - 1) then sv
      else if aof_fsync sv = AOF_FSYNC_ALWAYS then (aof_do_fsync fsync_ok sv)\<lparr>aof_last_fsync := unixtime\<rparr>
      else if aof_fsync sv = AOF_FSYNC_EVERYSEC \<and> unixtime > aof_last_fsync sv
      then (if \<not> sync_in_progress then aof_background_fsync sv else sv)\<lparr>aof_last_fsync := unixtime\<rparr>
      else sv)"

definition flushAppendOnlyFile ::
    "(nat \<Rightarrow> byte) \<Rightarrow> int \<Rightarrow> bool \<Rightarrow> int \<Rightarrow> int \<Rightarrow> bool \<Rightarrow> bool \<Rightarrow> bool \<Rightarrow> aofServer \<Rightarrow> aofServer run option" where
  "flushAppendOnlyFile junk unixtime pending nwritten errno trunc_ok fsync_ok force sv =
     (let buf = aof_buf sv;
          sync_in_progress = (aof_fsync sv = AOF_FSYNC_EVERYSEC \<and> pending);
          delay = (sync_in_progress \<and> \<not> force)
      in if sdslen buf = 0 then Some (Continue sv)
         else if delay \<and> aof_flush_postponed_start sv = 0 then Some (Continue (sv\<lparr>aof_flush_postponed_start := unixtime\<rparr>))
         else if delay \<and> unixtime - aof_flush_postponed_start sv < 2 then Some (Continue sv)
         else do {
           let sv = (if delay then sv\<lparr>aof_delayed_fsync := aof_delayed_fsync sv + 1\<rparr> else sv);
           t \<leftarrow> memread (sds_buf buf) 0 (sdslen buf);
           let sv = sv\<lparr>aof_file := aof_file sv @ take (nat nwritten) t, aof_flush_postponed_start := 0\<rparr>;
           if nwritten \<noteq> sint (sds_len buf) then flush_error unixtime nwritten errno trunc_ok sv
           else do {
             buf \<leftarrow> (if sdslen buf + sdsavail buf < 4000 then sdsclear buf else sdsempty junk);
             Some (Continue (flush_fsync unixtime sync_in_progress fsync_ok
               (sv\<lparr>aof_last_write_status := True, aof_current_size := aof_current_size sv + nat nwritten, aof_buf := buf\<rparr>)))
           }
         })"

section \<open>Commands for the file\<close>

text \<open>The header in the buffer of 32 bytes that \<open>catAppendOnlyGenericCommand\<close> uses again and again.\<close>

definition cat_header :: "(nat \<Rightarrow> byte) \<Rightarrow> byte list \<Rightarrow> sds \<Rightarrow> byte \<Rightarrow> u64 \<Rightarrow> (sds \<times> byte list) option" where
  "cat_header junk buf dst pre n = do {
     buf \<leftarrow> wr buf 0 pre;
     (rest, len) \<leftarrow> ll2string (drop 1 buf) 31 n;
     let buf = take 1 buf @ rest;
     let len = 1 + unat len;
     buf \<leftarrow> wr buf len 13;
     buf \<leftarrow> wr buf (len + 1) 10;
     dst \<leftarrow> sdscatlen junk dst buf (len + 2);
     Some (dst, buf)
   }"

fun cat_args :: "(nat \<Rightarrow> byte) \<Rightarrow> byte list \<Rightarrow> sds \<Rightarrow> robj list \<Rightarrow> sds option" where
  "cat_args junk buf dst [] = Some dst"
| "cat_args junk buf dst (ob # argv) = do {
     ob \<leftarrow> getDecodedObject junk ob;
     let s = sds_of ob;
     (dst, buf) \<leftarrow> cat_header junk buf dst (ch CHR ''$'') (of_nat (length s));
     dst \<leftarrow> sdscatlen junk dst s (length s);
     dst \<leftarrow> sdscatlen junk dst [13, 10] 2;
     cat_args junk buf dst argv
   }"

definition catAppendOnlyGenericCommand :: "(nat \<Rightarrow> byte) \<Rightarrow> sds \<Rightarrow> robj list \<Rightarrow> sds option" where
  "catAppendOnlyGenericCommand junk dst argv = do {
     (dst, buf) \<leftarrow> cat_header junk (stackbuf junk 32) dst (ch CHR ''*'') (of_nat (length argv));
     cat_args junk buf dst argv
   }"

text \<open>The functions of commands that are translated; \<open>now\<close> is \<open>mstime()\<close>.\<close>

datatype command_proc = expireCommand | pexpireCommand | expireatCommand | setexCommand | psetexCommand | otherCommand

definition catAppendOnlyExpireAtCommand ::
    "(nat \<Rightarrow> byte) \<Rightarrow> (int \<Rightarrow> robj) \<Rightarrow> u64 \<Rightarrow> sds \<Rightarrow> command_proc \<Rightarrow> robj \<Rightarrow> robj \<Rightarrow> sds option" where
  "catAppendOnlyExpireAtCommand junk shared now buf cmd key seconds = do {
     seconds \<leftarrow> getDecodedObject junk seconds;
     let wh = (word_of_int (fst (strtoll (sds_of seconds @ [0]))) :: u64);
     let wh = (if cmd = expireCommand \<or> cmd = setexCommand \<or> cmd = expireatCommand then wh * 1000 else wh);
     let wh = (if cmd = expireCommand \<or> cmd = pexpireCommand \<or> cmd = setexCommand \<or> cmd = psetexCommand then wh + now else wh);
     catAppendOnlyGenericCommand junk buf
       [createStringObject (bytes_of ''PEXPIREAT''), key, createStringObjectFromLongLong shared wh]
   }"

definition feedAppendOnlyFile ::
    "(nat \<Rightarrow> byte) \<Rightarrow> (int \<Rightarrow> robj) \<Rightarrow> u64 \<Rightarrow> command_proc \<Rightarrow> int \<Rightarrow> robj list \<Rightarrow> aofServer \<Rightarrow> aofServer option" where
  "feedAppendOnlyFile junk shared now cmd dictid argv sv = do {
     buf \<leftarrow> sdsempty junk;
     (buf, sv) \<leftarrow> (if dictid \<noteq> aof_selected_db sv then do {
         let seldb = sdec dictid;
         buf \<leftarrow> sdscatvprintf junk buf 26
           (bytes_of ''*2'' @ [13, 10] @ bytes_of ''$6'' @ [13, 10] @ bytes_of ''SELECT'' @ [13, 10] @
            bytes_of ''$'' @ sdec (int (length seldb)) @ [13, 10] @ seldb @ [13, 10]);
         Some (buf, sv\<lparr>aof_selected_db := dictid\<rparr>)
       } else Some (buf, sv));
     buf \<leftarrow>
       (if cmd = expireCommand \<or> cmd = pexpireCommand \<or> cmd = expireatCommand then do {
          key \<leftarrow> rd argv 1;
          seconds \<leftarrow> rd argv 2;
          catAppendOnlyExpireAtCommand junk shared now buf cmd key seconds
        } else if cmd = setexCommand \<or> cmd = psetexCommand then do {
          key \<leftarrow> rd argv 1;
          val \<leftarrow> rd argv 3;
          buf \<leftarrow> catAppendOnlyGenericCommand junk buf [createStringObject (bytes_of ''SET''), key, val];
          seconds \<leftarrow> rd argv 2;
          catAppendOnlyExpireAtCommand junk shared now buf cmd key seconds
        } else catAppendOnlyGenericCommand junk buf argv);
     sv \<leftarrow> (if aof_state sv = REDIS_AOF_ON then do {
         aofbuf \<leftarrow> sdscatlen junk (aof_buf sv) (sds_buf buf) (sdslen buf);
         Some (sv\<lparr>aof_buf := aofbuf\<rparr>)
       } else Some sv);
     if aof_child_pid sv \<noteq> - 1 then aofRewriteBufferAppend junk (sds_buf buf) (sdslen buf) sv else Some sv
   }"

section \<open>Loading the file\<close>

abbreviation REDIS_REPL_WAIT_BGSAVE_START :: int where "REDIS_REPL_WAIT_BGSAVE_START \<equiv> 14"

text \<open>\<open>c0\<close> is the content of the memory that is allocated for the client and everything that is not a field of
  the client.\<close>

definition createFakeClient :: "(nat \<Rightarrow> byte) \<Rightarrow> 'a queryClient_scheme \<Rightarrow> 'a queryClient_scheme option" where
  "createFakeClient junk c0 = do {
     q \<leftarrow> sdsempty junk;
     Some (c0\<lparr>c_fd := - 1, c_querybuf := q, c_querybuf_peak := 0, c_argv := [], c_bufpos := 0, c_flags := {},
       c_replstate := REDIS_REPL_WAIT_BGSAVE_START, c_reply := [], c_reply_bytes := 0, c_obuf_soft_limit_reached_time := 0\<rparr>)
   }"

definition freeFakeClientArgv :: "'a queryClient_scheme \<Rightarrow> 'a queryClient_scheme" where
  "freeFakeClientArgv c = c\<lparr>c_argv := []\<rparr>"

text \<open>\<open>fgets\<close> and \<open>fread\<close> of one item on a file with the content \<open>data\<close> at position \<open>pos\<close>. The line is missing
  for \<open>NULL\<close>; the flag is the end-of-file indicator of the stream behind the call.\<close>

definition fgets :: "nat \<Rightarrow> byte list \<Rightarrow> nat \<Rightarrow> byte list option \<times> nat \<times> bool" where
  "fgets n data pos =
     (let l = take (n - 1) (drop pos data);
          line = takeWhile (\<lambda>b. b \<noteq> 10) l @ (if 10 \<in> set l then [10] else [])
      in (if line = [] then None else Some line, pos + length line, 10 \<notin> set l \<and> length l < n - 1))"

definition fread :: "byte list \<Rightarrow> nat \<Rightarrow> nat \<Rightarrow> (byte list \<times> nat) option" where
  "fread data pos n = (if pos + n \<le> length data then Some (take n (drop pos data), pos + n) else None)"

text \<open>Reading one command: the end of the file, the jumps to \<open>readerr\<close> (with the end-of-file indicator) and
  to \<open>fmterr\<close>, or the arguments and the position behind them.\<close>

datatype load_step = Step_EOF | Step_ReadErr bool | Step_FmtErr | Step_Command "sds list" nat

fun load_args :: "(nat \<Rightarrow> byte) \<Rightarrow> byte list \<Rightarrow> nat \<Rightarrow> nat \<Rightarrow> sds list \<Rightarrow> load_step option" where
  "load_args junk data pos 0 argv = Some (Step_Command argv pos)"
| "load_args junk data pos (Suc n) argv =
     (case fgets 128 data pos of
        (None, pos, eof) \<Rightarrow> Some (Step_ReadErr eof)
      | (Some line, pos, eof) \<Rightarrow> do {
          let buf = line @ [0];
          b0 \<leftarrow> rd buf 0;
          if b0 \<noteq> ch CHR ''$'' then Some Step_FmtErr
          else do {
            let len = unat (word_of_int (fst (strtoll (drop 1 buf))) :: u64);
            argsds \<leftarrow> sdsnewlen junk None len;
            (case (if len \<noteq> 0 then fread data pos len else Some ([], pos)) of
               None \<Rightarrow> Some (Step_ReadErr True)
             | Some (t, pos) \<Rightarrow> do {
                 b \<leftarrow> memwrite (sds_buf argsds) 0 t;
                 (case fread data pos 2 of
                    None \<Rightarrow> Some (Step_ReadErr True)
                  | Some (crlf, pos) \<Rightarrow> load_args junk data pos n (argv @ [argsds\<lparr>sds_buf := b\<rparr>]))
               })
          }
        })"

definition load_command :: "(nat \<Rightarrow> byte) \<Rightarrow> byte list \<Rightarrow> nat \<Rightarrow> load_step option" where
  "load_command junk data pos =
     (case fgets 128 data pos of
        (None, pos, eof) \<Rightarrow> Some Step_EOF
      | (Some line, pos, eof) \<Rightarrow> do {
          let buf = line @ [0];
          b0 \<leftarrow> rd buf 0;
          b1 \<leftarrow> rd buf 1;
          if b0 \<noteq> ch CHR ''*'' then Some Step_FmtErr
          else if b1 = 0 then Some (Step_ReadErr eof)
          else
            let argc = sint (word_of_int (fst (strtoll (drop 1 buf))) :: u32)
            in if argc < 1 then Some Step_FmtErr else load_args junk data pos (nat argc) []
        })"

lemma fgets_pos:
  assumes "fgets n data pos = (Some line, pos', eof)"
  shows "pos < pos' \<and> pos' \<le> length data"
proof -
  define l where "l = take (n - 1) (drop pos data)"
  define r where "r = takeWhile (\<lambda>b. b \<noteq> 10) l @ (if 10 \<in> set l then [10] else [])"
  have "length r \<le> length l" unfolding r_def by (induction l) auto
  moreover have "length l \<le> length data - pos" by (simp add: l_def)
  moreover have "r \<noteq> []" "pos' = pos + length r"
    using assms unfolding fgets_def Let_def l_def [symmetric] r_def [symmetric] by (simp_all split: if_splits)
  ultimately show ?thesis by (cases r) auto
qed

lemma load_args_pos: "load_args junk data pos n argv = Some (Step_Command argv' pos') \<Longrightarrow> pos \<le> length data \<Longrightarrow> pos \<le> pos' \<and> pos' \<le> length data"
proof (induction n arbitrary: pos argv)
  case (Suc n)
  obtain line p1 eof where l: "fgets 128 data pos = (line, p1, eof)" by (metis prod_cases3)
  show ?case
  proof (cases line)
    case (Some t)
    then have p1: "pos < p1" "p1 \<le> length data" using fgets_pos l by blast+
    obtain p2 argv2 where "load_args junk data p2 n argv2 = Some (Step_Command argv' pos')" "p1 \<le> p2" "p2 \<le> length data"
      using Suc.prems(1) p1(2) unfolding load_args.simps l Some
      by (auto simp: fread_def Let_def split: if_splits bind_splits option.splits)
    then show ?thesis using Suc.IH [of p2 argv2] p1(1) by simp
  qed (use Suc.prems l in simp)
qed simp

lemma load_command_pos: "load_command junk data pos = Some (Step_Command argv pos') \<Longrightarrow> pos < pos' \<and> pos' \<le> length data"
proof -
  assume a: "load_command junk data pos = Some (Step_Command argv pos')"
  obtain line p1 eof where l: "fgets 128 data pos = (line, p1, eof)" by (metis prod_cases3)
  show ?thesis
  proof (cases line)
    case (Some t)
    then have p1: "pos < p1" "p1 \<le> length data" using fgets_pos l by blast+
    obtain n where "load_args junk data p1 n [] = Some (Step_Command argv pos')"
      using a unfolding load_command_def l Some by (auto simp: Let_def split: if_splits bind_splits)
    then show ?thesis using load_args_pos p1 by fastforce
  qed (use a l in \<open>simp add: load_command_def\<close>)
qed

text \<open>The loop. \<open>lookup\<close> tells whether \<open>lookupCommand\<close> finds the command, \<open>run_proc\<close> is \<open>cmd->proc\<close>. The results are the
  client, \<open>valid_up_to\<close> and the way the loop was left.\<close>

datatype load_end = End_EOF | End_ReadErr bool | End_FmtErr | End_Unknown

function load_loop ::
    "(byte list \<Rightarrow> bool) \<Rightarrow> ('a queryClient_scheme \<Rightarrow> 'a queryClient_scheme) \<Rightarrow> (nat \<Rightarrow> byte) \<Rightarrow> byte list \<Rightarrow> bool \<Rightarrow>
     'a queryClient_scheme \<Rightarrow> nat \<Rightarrow> nat \<Rightarrow> ('a queryClient_scheme \<times> nat \<times> load_end) option" where
  "load_loop lookup run_proc junk data truncated c pos valid =
     (case load_command junk data pos of
        None \<Rightarrow> None
      | Some Step_EOF \<Rightarrow> Some (c, valid, End_EOF)
      | Some (Step_ReadErr eof) \<Rightarrow> Some (c, valid, End_ReadErr eof)
      | Some Step_FmtErr \<Rightarrow> Some (c, valid, End_FmtErr)
      | Some (Step_Command argv pos) \<Rightarrow>
          (case rd argv 0 of
             None \<Rightarrow> None
           | Some a0 \<Rightarrow>
               if \<not> lookup (sds_str a0) then Some (c, valid, End_Unknown)
               else
                 let c = run_proc (c\<lparr>c_argv := argv\<rparr>)
                 in if c_bufpos c = 0 \<and> c_reply c = [] \<and> REDIS_BLOCKED \<notin> c_flags c
                    then load_loop lookup run_proc junk data truncated (freeFakeClientArgv c) pos (if truncated then pos else valid)
                    else None))"
  by pat_completeness auto
termination
proof (relation "measure (\<lambda>(lookup, run_proc, junk, data, truncated, c, pos, valid). length data - pos)", goal_cases)
  case (2 lookup run_proc junk data truncated c pos valid st argv pos' a0)
  then have "pos < pos'" "pos' \<le> length data" using load_command_pos [of junk data pos argv pos'] by simp_all
  then show ?case by (simp add: diff_less_mono2)
qed simp

declare load_loop.simps [simp del]

datatype 'c aof_load = Load_ERR aofServer | Load_OK aofServer 'c | Load_Exit aofServer

definition aofUpdateCurrentSize :: "aofServer \<Rightarrow> aofServer" where
  "aofUpdateCurrentSize sv = (if aof_fd sv = - 1 then sv else sv\<lparr>aof_current_size := length (aof_file sv)\<rparr>)"

definition loaded_ok :: "aof_mode \<Rightarrow> 'c \<Rightarrow> aofServer \<Rightarrow> 'c aof_load" where
  "loaded_ok old_aof_state c sv =
     (let sv = aofUpdateCurrentSize (sv\<lparr>aof_state := old_aof_state\<rparr>)
      in Load_OK (sv\<lparr>aof_rewrite_base_size := aof_current_size sv\<rparr>) c)"

definition uxeof :: "aof_mode \<Rightarrow> bool \<Rightarrow> bool \<Rightarrow> nat \<Rightarrow> 'c \<Rightarrow> aofServer \<Rightarrow> 'c aof_load" where
  "uxeof old_aof_state trunc_ok seek_ok valid_up_to c sv =
     (if aof_load_truncated sv \<and> trunc_ok then
        let sv = sv\<lparr>aof_file := ftruncate (aof_file sv) valid_up_to\<rparr>
        in if aof_fd sv \<noteq> - 1 \<and> \<not> seek_ok then Load_Exit sv else loaded_ok old_aof_state c sv
      else Load_Exit sv)"

text \<open>\<open>opened\<close>, \<open>trunc_ok\<close> and \<open>seek_ok\<close> tell whether \<open>fopen\<close>, \<open>truncate\<close> and \<open>lseek\<close> succeed; reading from the
  file does not fail.\<close>

definition loadAppendOnlyFile ::
    "(byte list \<Rightarrow> bool) \<Rightarrow> ('a queryClient_scheme \<Rightarrow> 'a queryClient_scheme) \<Rightarrow> (nat \<Rightarrow> byte) \<Rightarrow> bool \<Rightarrow> bool \<Rightarrow> bool \<Rightarrow>
     'a queryClient_scheme \<Rightarrow> aofServer \<Rightarrow> 'a queryClient_scheme aof_load option" where
  "loadAppendOnlyFile lookup run_proc junk opened trunc_ok seek_ok c0 sv =
     (let old_aof_state = aof_state sv
      in if opened \<and> length (aof_file sv) = 0 then Some (Load_ERR (sv\<lparr>aof_current_size := 0\<rparr>))
         else if \<not> opened then Some (Load_Exit sv)
         else do {
           let sv = sv\<lparr>aof_state := REDIS_AOF_OFF\<rparr>;
           c \<leftarrow> createFakeClient junk c0;
           (c, valid_up_to, e) \<leftarrow> load_loop lookup run_proc junk (aof_file sv) (aof_load_truncated sv) c 0 0;
           (case e of
              End_EOF \<Rightarrow>
                Some (if REDIS_MULTI \<in> c_flags c then uxeof old_aof_state trunc_ok seek_ok valid_up_to c sv
                      else loaded_ok old_aof_state c sv)
            | End_ReadErr eof \<Rightarrow>
                Some (if \<not> eof then Load_Exit sv else uxeof old_aof_state trunc_ok seek_ok valid_up_to c sv)
            | End_FmtErr \<Rightarrow> Some (Load_Exit sv)
            | End_Unknown \<Rightarrow> Some (Load_Exit sv))
         })"

section \<open>Rewriting the file\<close>

definition rioWriteBulkObject :: "(nat \<Rightarrow> byte) \<Rightarrow> rio \<Rightarrow> robj \<Rightarrow> (rio \<times> nat) option" where
  "rioWriteBulkObject junk r ob =
     (case o_ptr ob of
        REDIS_ENCODING_INT v \<Rightarrow> rioWriteBulkLongLong junk r v
      | REDIS_ENCODING_RAW s \<Rightarrow> rioWriteBulkString junk r s (length s))"

text \<open>The parent side of the fork; \<open>childpid\<close> is the result of \<open>fork\<close>.\<close>

definition rewriteAppendOnlyFileBackground :: "int \<Rightarrow> aofServer \<Rightarrow> aofServer \<times> bool" where
  "rewriteAppendOnlyFileBackground childpid sv =
     (if aof_child_pid sv \<noteq> - 1 then (sv, False)
      else if childpid = - 1 then (sv, False)
      else (sv\<lparr>aof_rewrite_scheduled := False, aof_child_pid := childpid, aof_selected_db := - 1\<rparr>, True))"

text \<open>The switch to the rewritten file, whose content is \<open>file\<close> and whose descriptor is \<open>newfd\<close>; \<open>openfd\<close> is the
  result of opening the old file when the append-only file is off.\<close>

definition switch_file :: "(nat \<Rightarrow> byte) \<Rightarrow> bool \<Rightarrow> int \<Rightarrow> int \<Rightarrow> byte list \<Rightarrow> aofServer \<Rightarrow> aofServer option" where
  "switch_file junk fsync_ok openfd newfd file sv = do {
     let oldfd = (if aof_fd sv = - 1 then openfd else aof_fd sv);
     let on = (aof_fd sv \<noteq> - 1);
     let sv = sv\<lparr>aof_file := file, aof_synced := 0\<rparr>;
     sv \<leftarrow> (if on then do {
         let sv = sv\<lparr>aof_fd := newfd\<rparr>;
         let sv = (if aof_fsync sv = AOF_FSYNC_ALWAYS then aof_do_fsync fsync_ok sv
                   else if aof_fsync sv = AOF_FSYNC_EVERYSEC then aof_background_fsync sv else sv);
         let sv = aofUpdateCurrentSize (sv\<lparr>aof_selected_db := - 1\<rparr>);
         buf \<leftarrow> sdsempty junk;
         Some (sv\<lparr>aof_rewrite_base_size := aof_current_size sv, aof_buf := buf\<rparr>)
       } else Some sv);
     let sv = sv\<lparr>aof_lastbgrewrite_status := True\<rparr>;
     let sv = (if aof_state sv = REDIS_AOF_WAIT_REWRITE then sv\<lparr>aof_state := REDIS_AOF_ON\<rparr> else sv);
     Some (if oldfd \<noteq> - 1 then sv\<lparr>aof_closing := aof_closing sv @ [oldfd]\<rparr> else sv)
   }"

definition rewrite_cleanup :: "aofServer \<Rightarrow> aofServer" where
  "rewrite_cleanup sv =
     (let sv = (aofRewriteBufferReset sv)\<lparr>aof_child_pid := - 1\<rparr>
      in if aof_state sv = REDIS_AOF_WAIT_REWRITE then sv\<lparr>aof_rewrite_scheduled := True\<rparr> else sv)"

text \<open>\<open>tmp\<close> is the content of the file the child has written, \<open>newfd\<close> the result of opening it, \<open>w\<close> gives the
  results of writing to it, \<open>renamed\<close> is the success of \<open>rename\<close>.\<close>

definition backgroundRewriteDoneHandler ::
    "(nat \<Rightarrow> byte) \<Rightarrow> byte list \<Rightarrow> int \<Rightarrow> (nat \<Rightarrow> int) \<Rightarrow> bool \<Rightarrow> int \<Rightarrow> bool \<Rightarrow> int \<Rightarrow> int \<Rightarrow> aofServer \<Rightarrow> aofServer option" where
  "backgroundRewriteDoneHandler junk tmp newfd w renamed openfd fsync_ok exitcode bysignal sv = do {
     sv \<leftarrow>
       (if bysignal = 0 \<and> exitcode = 0 then
          if newfd = - 1 then Some sv
          else do {
            (file, n) \<leftarrow> aofRewriteBufferWrite w tmp sv;
            if n = - 1 \<or> \<not> renamed then Some sv else switch_file junk fsync_ok openfd newfd file sv
          }
        else Some (sv\<lparr>aof_lastbgrewrite_status := False\<rparr>));
     Some (rewrite_cleanup sv)
   }"

section \<open>Turning the file on and off\<close>

text \<open>\<open>fd\<close> is the result of opening the file.\<close>

definition startAppendOnly :: "int \<Rightarrow> int \<Rightarrow> int \<Rightarrow> aofServer \<Rightarrow> (aofServer \<times> bool) option" where
  "startAppendOnly unixtime fd childpid sv =
     (let sv = sv\<lparr>aof_last_fsync := unixtime, aof_fd := fd\<rparr>
      in if aof_state sv \<noteq> REDIS_AOF_OFF then None
         else if aof_fd sv = - 1 then Some (sv, False)
         else
           let (sv, ok) = rewriteAppendOnlyFileBackground childpid sv
           in if \<not> ok then Some (sv, False) else Some (sv\<lparr>aof_state := REDIS_AOF_WAIT_REWRITE\<rparr>, True))"

definition stopAppendOnly ::
    "(nat \<Rightarrow> byte) \<Rightarrow> int \<Rightarrow> bool \<Rightarrow> int \<Rightarrow> int \<Rightarrow> bool \<Rightarrow> bool \<Rightarrow> bool \<Rightarrow> aofServer \<Rightarrow> aofServer run option" where
  "stopAppendOnly junk unixtime pending nwritten errno trunc_ok fsync_ok fsync_ok2 sv =
     (if aof_state sv = REDIS_AOF_OFF then None
      else do {
        r \<leftarrow> flushAppendOnlyFile junk unixtime pending nwritten errno trunc_ok fsync_ok True sv;
        (case r of
           Exit sv \<Rightarrow> Some (Exit sv)
         | Continue sv \<Rightarrow>
             let sv = (aof_do_fsync fsync_ok2 sv)\<lparr>aof_fd := - 1, aof_selected_db := - 1, aof_state := REDIS_AOF_OFF\<rparr>
             in Some (Continue (if aof_child_pid sv \<noteq> - 1 then (aofRewriteBufferReset sv)\<lparr>aof_child_pid := - 1\<rparr> else sv)))
      })"

end
