(* ===== verification/Reply_Props.thy ===== *)
theory Reply_Props
  imports Reply
begin

text \<open>
  What the output functions of \<open>Reply\<close> do to the stream of bytes of a client: every reply function
  appends its bytes of the protocol, a deferred length is filled in at its place, and the callback for
  a writable socket sends a prefix of what is left. Every lemma keeps the invariant of the client.
\<close>

section \<open>The stream of a client\<close>

text \<open>The bytes of a node, where \<open>h\<close> stands for a length that is not known yet; the bytes queued for a
  client; the memory of its list.\<close>

definition node_bytes :: "byte list \<Rightarrow> reply_obj \<Rightarrow> byte list" where
  "node_bytes h ob = (case ro_ptr ob of None \<Rightarrow> h | Some s \<Rightarrow> sds_str s)"

definition out_stream :: "byte list \<Rightarrow> 'a redisClient_scheme \<Rightarrow> byte list" where
  "out_stream h c = take (c_bufpos c) (c_buf c) @ concat (map (node_bytes h) (c_reply c))"

definition node_ok :: "reply_obj \<Rightarrow> bool" where
  "node_ok ob = (case ro_ptr ob of None \<Rightarrow> True | Some s \<Rightarrow> sds_ok s)"

definition node_mem :: "(nat \<Rightarrow> nat) \<Rightarrow> reply_obj \<Rightarrow> nat" where
  "node_mem zsize ob = (case ro_ptr ob of None \<Rightarrow> 0 | Some s \<Rightarrow> zsize (sdsAllocSize s))"

definition reply_mem :: "(nat \<Rightarrow> nat) \<Rightarrow> 'a redisClient_scheme \<Rightarrow> nat" where
  "reply_mem zsize c = sum_list (map (node_mem zsize) (c_reply c))"

definition out_ok :: "(nat \<Rightarrow> nat) \<Rightarrow> 'a redisClient_scheme \<Rightarrow> bool" where
  "out_ok zsize c \<longleftrightarrow> length (c_buf c) = REDIS_REPLY_CHUNK_BYTES \<and> c_bufpos c \<le> REDIS_REPLY_CHUNK_BYTES \<and>
     list_all node_ok (c_reply c) \<and> c_reply_bytes c = of_nat (reply_mem zsize c)"

text \<open>An allocation of less than 8 GB is reported as at most 16 GB; there is room for \<open>n\<close> more nodes
  before the counter comes near its end.\<close>

definition zsize_ok :: "(nat \<Rightarrow> nat) \<Rightarrow> bool" where
  "zsize_ok zsize \<longleftrightarrow> (\<forall>n < 2 ^ 33. zsize n \<le> 2 ^ 34)"

definition out_room :: "(nat \<Rightarrow> nat) \<Rightarrow> 'a redisClient_scheme \<Rightarrow> nat \<Rightarrow> bool" where
  "out_room zsize c n \<longleftrightarrow> reply_mem zsize c + n * 2 ^ 34 < 2 ^ 63"

text \<open>What queueing leaves alone.\<close>

definition out_frame :: "'a redisClient_scheme \<Rightarrow> 'a redisClient_scheme \<Rightarrow> bool" where
  "out_frame c c' \<longleftrightarrow> c_fd c' = c_fd c \<and> c_flags c' - {REDIS_CLOSE_ASAP} = c_flags c - {REDIS_CLOSE_ASAP} \<and>
     c_flags c \<subseteq> c_flags c' \<and> c_sentlen c' = c_sentlen c \<and> c_replstate c' = c_replstate c \<and>
     c_repl_put_online_on_ack c' = c_repl_put_online_on_ack c \<and> redisClient.more c' = redisClient.more c"

text \<open>The positions of unknown lengths; how far the first chunk has been sent.\<close>

definition holes :: "'a redisClient_scheme \<Rightarrow> nat set" where
  "holes c = {i. i < length (c_reply c) \<and> ro_ptr (c_reply c ! i) = None}"

definition sent_ok :: "'a redisClient_scheme \<Rightarrow> bool" where
  "sent_ok c \<longleftrightarrow>
     (if c_bufpos c > 0 then c_sentlen c < c_bufpos c
      else case c_reply c of [] \<Rightarrow> c_sentlen c = 0 | ob # _ \<Rightarrow> c_sentlen c = 0 \<or> c_sentlen c < length (node_bytes [] ob))"

definition appends :: "(nat \<Rightarrow> nat) \<Rightarrow> nat \<Rightarrow> 'a redisClient_scheme \<Rightarrow> byte list \<Rightarrow> 'a redisClient_scheme \<Rightarrow> bool" where
  "appends zsize n c b c' \<longleftrightarrow> out_ok zsize c' \<and> (\<forall>h. out_stream h c' = out_stream h c @ b) \<and> out_frame c c' \<and>
     holes c' = holes c \<and> (sent_ok c \<longrightarrow> sent_ok c') \<and> reply_mem zsize c' \<le> reply_mem zsize c + n * 2 ^ 34"

lemma out_frame_trans: "out_frame a b \<Longrightarrow> out_frame b c \<Longrightarrow> out_frame a c"
  by (auto simp: out_frame_def)

lemma out_frame_refl [simp]: "out_frame c c"
  by (simp add: out_frame_def)

lemma appends_trans: "appends zsize m a x b \<Longrightarrow> appends zsize n b y c \<Longrightarrow> appends zsize (m + n) a (x @ y) c"
  by (auto simp: appends_def algebra_simps intro: out_frame_trans)

lemma out_room_appends: "out_room zsize c (m + n) \<Longrightarrow> appends zsize m c b c' \<Longrightarrow> out_room zsize c' n"
  by (auto simp: out_room_def appends_def algebra_simps)

lemma out_room_mono: "out_room zsize c n \<Longrightarrow> m \<le> n \<Longrightarrow> out_room zsize c m"
  by (auto simp: out_room_def)

lemma appendsD:
  assumes "appends zsize n c b c'"
  shows "out_ok zsize c'" "out_frame c c'"
  using assms by (simp_all add: appends_def)

text \<open>A client that takes replies.\<close>

definition takes_reply :: "'a redisClient_scheme \<Rightarrow> bool" where
  "takes_reply c \<longleftrightarrow> REDIS_CLOSE_AFTER_REPLY \<notin> c_flags c \<and>
     (REDIS_LUA_CLIENT \<in> c_flags c \<or>
      c_fd c > 0 \<and> (REDIS_MASTER \<in> c_flags c \<longrightarrow> REDIS_MASTER_FORCE_REPLY \<in> c_flags c))"

lemma takes_reply_frame:
  assumes "out_frame c c'"
  shows "takes_reply c' = takes_reply c"
proof -
  have "x \<in> c_flags c' \<longleftrightarrow> x \<in> c_flags c" if "x \<noteq> REDIS_CLOSE_ASAP" for x
    using assms that unfolding out_frame_def by blast
  moreover have "c_fd c' = c_fd c" using assms by (simp add: out_frame_def)
  ultimately show ?thesis by (simp add: takes_reply_def)
qed

lemma takes_reply_prepare:
  assumes "takes_reply c" "\<forall>c. ae c"
  shows "prepareClientToWrite ae c" "REDIS_CLOSE_AFTER_REPLY \<notin> c_flags c"
  using assms by (auto simp: prepareClientToWrite_def takes_reply_def)

lemma async_ok:
  assumes "out_ok zsize c" "reply_mem zsize c < 2 ^ 63"
  shows "\<exists>c'. asyncCloseClientOnOutputBufferLimitReached server c = Some c' \<and> appends zsize 0 c [] c'"
proof -
  have "unat (c_reply_bytes c) = reply_mem zsize c"
    using assms by (subst (asm) out_ok_def) (auto intro!: unat_of_nat_small)
  then have b: "c_reply_bytes c < - 1 - 1024 * 64" using assms(2) by (simp add: word_less_nat_alt)
  define d where "d = checkClientOutputBufferLimits server c"
  have d: "c_fd (fst d) = c_fd c" "c_flags (fst d) = c_flags c" "c_sentlen (fst d) = c_sentlen c" "c_replstate (fst d) = c_replstate c"
    "c_repl_put_online_on_ack (fst d) = c_repl_put_online_on_ack c" "redisClient.more (fst d) = redisClient.more c"
    "c_reply (fst d) = c_reply c" "c_reply_bytes (fst d) = c_reply_bytes c" "c_buf (fst d) = c_buf c" "c_bufpos (fst d) = c_bufpos c"
    by (simp_all add: d_def checkClientOutputBufferLimits_def Let_def)
  have s: "snd d = b \<Longrightarrow> d = (fst d, b)" for b by (cases d) simp
  have a: "appends zsize 0 c [] (fst d)" "appends zsize 0 c [] (freeClientAsync (fst d))"
    using assms(1) d by (auto simp: appends_def out_ok_def out_frame_def out_stream_def reply_mem_def freeClientAsync_def
        holes_def sent_ok_def split: list.splits)
  show ?thesis
    using b a assms(1) by (cases d) (auto simp: asyncCloseClientOnOutputBufferLimitReached_def d_def [symmetric] appends_def)
qed

lemma sdsAllocSize_bound: "sds_ok s \<Longrightarrow> sdsAllocSize s < 2 ^ 33"
  by (simp add: sds_ok_def sdsAllocSize_def)

lemma node_mem_bound: "zsize_ok zsize \<Longrightarrow> node_ok ob \<Longrightarrow> node_mem zsize ob \<le> 2 ^ 34"
  using sdsAllocSize_bound by (auto simp: zsize_ok_def node_ok_def node_mem_def split: option.splits)

text \<open>Putting a list of nodes in place of the last nodes.\<close>

lemma appends_list:
  assumes "out_ok zsize c" "zsize_ok zsize" "c_reply c = xs @ ys" "node_ok ob" "ro_ptr ob \<noteq> None"
    "ys = [] \<or> (\<exists>y. ys = [y] \<and> ro_ptr y \<noteq> None)" "\<And>h. node_bytes h ob = concat (map (node_bytes h) ys) @ b"
    "c' = c\<lparr>c_reply := xs @ [ob], c_reply_bytes := c_reply_bytes c - of_nat (sum_list (map (node_mem zsize) ys)) + of_nat (node_mem zsize ob)\<rparr>"
  shows "appends zsize 1 c b c'"
proof -
  have "reply_mem zsize c' \<le> reply_mem zsize c + 2 ^ 34"
    using node_mem_bound [OF assms(2,4)] by (simp add: reply_mem_def assms(3,8))
  moreover have "c_reply_bytes c' = of_nat (reply_mem zsize c')"
    using assms(1) by (simp add: out_ok_def reply_mem_def assms(3,8))
  moreover have "holes c' = holes c"
    using assms(5,6) by (auto simp: holes_def assms(3,8) nth_append)
  moreover have "sent_ok c'" if "sent_ok c"
    using that assms(6) assms(7) [of "[]"] by (cases xs) (auto simp: sent_ok_def assms(3,8) split: if_splits)
  ultimately show ?thesis
    using assms(1,3,4) assms(7) by (simp add: appends_def out_ok_def out_frame_def out_stream_def assms(8))
qed

lemma add_node_ok:
  assumes "out_ok zsize c" "zsize_ok zsize" "ro_ptr ob = Some p" "sds_is p b f"
  shows "\<exists>c'. add_node zsize c ob = Some c' \<and> appends zsize 1 c b c'"
proof -
  have "node_ok ob" "node_bytes h ob = b" for h using assms(3) sds_isD [OF assms(4)] by (simp_all add: node_ok_def node_bytes_def)
  then have "appends zsize 1 c b (c\<lparr>c_reply := c_reply c @ [ob], c_reply_bytes := c_reply_bytes c + zmalloc_size_sds zsize p\<rparr>)"
    using appends_list [OF assms(1,2), of "c_reply c" "[]" ob b] assms(3) by (simp add: zmalloc_size_sds_def node_mem_def)
  then show ?thesis using assms(3) by (simp add: add_node_def)
qed

lemma createReplyObject_ok:
  assumes "len \<le> length s" "len < 2 ^ 32"
  shows "\<exists>ob p. createReplyObject junk s len = Some ob \<and> ro_ptr ob = Some p \<and> sds_is p (take len s) 0"
  using sdsnewlen_is [OF assms, of junk] by (auto simp: createReplyObject_def)

lemma dupLastObjectIfNeeded_ok:
  assumes "reply \<noteq> []" "ro_ptr (last reply) = Some p" "sds_is p t f"
  shows "\<exists>ob p' f'. dupLastObjectIfNeeded junk reply = Some (butlast reply @ [ob], ob) \<and> ro_ptr ob = Some p' \<and> sds_is p' t f'"
proof (cases "ro_refcount (last reply) > 1")
  case True
  have "sdslen p < 2 ^ 32" using unsigned_less [of "sds_len p", where ?'a = nat] by (simp add: sdslen_def)
  then obtain ob p' where "createReplyObject junk (sds_buf p) (sdslen p) = Some ob" "ro_ptr ob = Some p'" "sds_is p' t 0"
    using createReplyObject_ok [of "sdslen p" "sds_buf p" junk] sds_is_take [OF assms(3)] by auto
  then show ?thesis using True assms by (auto simp: dupLastObjectIfNeeded_def)
next
  case False
  then show ?thesis using assms by (auto simp: dupLastObjectIfNeeded_def)
qed

lemma glue_tail_ok:
  assumes "out_ok zsize c" "zsize_ok zsize" "c_reply c \<noteq> []" "tail_fits c len" "len \<le> length s"
  shows "\<exists>c'. glue_tail junk zsize c s len = Some c' \<and> appends zsize 1 c (take len s) c'"
proof -
  define xs ob where "xs = butlast (c_reply c)" and "ob = last (c_reply c)"
  have r: "c_reply c = xs @ [ob]" using assms(3) by (simp add: xs_def ob_def)
  obtain p where p: "ro_ptr ob = Some p" "sdslen p + len \<le> REDIS_REPLY_CHUNK_BYTES"
    using assms(4) by (auto simp: tail_fits_def ob_def split: option.splits)
  have pi: "sds_is p (sds_str p) (sdsavail p)"
    using assms(1) r p(1) sds_is_exists by (auto simp: out_ok_def node_ok_def)
  obtain ob2 p2 f2 where d: "dupLastObjectIfNeeded junk (c_reply c) = Some (xs @ [ob2], ob2)" "ro_ptr ob2 = Some p2" "sds_is p2 (sds_str p) f2"
    using dupLastObjectIfNeeded_ok [of "c_reply c" p "sds_str p" "sdsavail p" junk] assms(3) p(1) pi by (auto simp: xs_def ob_def)
  obtain p3 f3 where p3: "sdscatlen junk p2 s len = Some p3" "sds_is p3 (sds_str p @ take len s) f3"
    using sdscatlen_is [OF d(3) assms(5), of junk] p(2) sds_isD(3) [OF pi] by auto
  define c' where "c' = c\<lparr>c_reply := xs @ [ob2\<lparr>ro_ptr := Some p3\<rparr>],
    c_reply_bytes := c_reply_bytes c - zmalloc_size_sds zsize p + zmalloc_size_sds zsize p3\<rparr>"
  have "appends zsize 1 c (take len s) c'"
    using assms(1,2) r _ _ _ _
  proof (rule appends_list)
    show "node_ok (ob2\<lparr>ro_ptr := Some p3\<rparr>)" using sds_isD(1) [OF p3(2)] by (simp add: node_ok_def)
    show "[ob] = [] \<or> (\<exists>y. [ob] = [y] \<and> ro_ptr y \<noteq> None)" using p(1) by simp
    show "node_bytes h (ob2\<lparr>ro_ptr := Some p3\<rparr>) = concat (map (node_bytes h) [ob]) @ take len s" for h
      using sds_isD(2) [OF p3(2)] p(1) by (simp add: node_bytes_def)
    show "c' = c\<lparr>c_reply := xs @ [ob2\<lparr>ro_ptr := Some p3\<rparr>],
      c_reply_bytes := c_reply_bytes c - of_nat (sum_list (map (node_mem zsize) [ob])) + of_nat (node_mem zsize (ob2\<lparr>ro_ptr := Some p3\<rparr>))\<rparr>"
      by (simp add: c'_def zmalloc_size_sds_def node_mem_def p(1))
  qed simp
  then show ?thesis using p(1) d(1,2) p3(1) by (auto simp: glue_tail_def r c'_def)
qed

lemma addReplyToBuffer_ok:
  assumes "out_ok zsize c" "len \<le> length s" "REDIS_CLOSE_AFTER_REPLY \<notin> c_flags c"
  shows "\<exists>c' ok. p_addReplyToBuffer c s len = Some (c', ok) \<and> (if ok then appends zsize 0 c (take len s) c' else c' = c)"
proof (cases "c_reply c = [] \<and> len \<le> REDIS_REPLY_CHUNK_BYTES - c_bufpos c")
  case True
  define b where "b = take (c_bufpos c) (c_buf c) @ take len s @ drop (c_bufpos c + len) (c_buf c)"
  have l: "length (c_buf c) = REDIS_REPLY_CHUNK_BYTES" "c_bufpos c + len \<le> REDIS_REPLY_CHUNK_BYTES"
    using assms(1) True by (auto simp: out_ok_def)
  have "p_addReplyToBuffer c s len = Some (c\<lparr>c_buf := b, c_bufpos := c_bufpos c + len\<rparr>, True)"
    using True assms(2,3) l by (simp add: p_addReplyToBuffer_def memread_def memwrite_def b_def)
  moreover have "length b = REDIS_REPLY_CHUNK_BYTES" "take (c_bufpos c + len) b = take (c_bufpos c) (c_buf c) @ take len s"
    using l assms(2) by (simp_all add: b_def)
  then have "appends zsize 0 c (take len s) (c\<lparr>c_buf := b, c_bufpos := c_bufpos c + len\<rparr>)"
    using assms(1) l True by (auto simp: appends_def out_ok_def out_stream_def out_frame_def reply_mem_def holes_def sent_ok_def split: if_splits)
  ultimately show ?thesis by auto
next
  case False
  then have "p_addReplyToBuffer c s len = Some (c, False)" using assms(3) by (auto simp: p_addReplyToBuffer_def)
  then show ?thesis by (intro exI [of _ c] exI [of _ False]) simp
qed

text \<open>The end of the three functions that add to the list.\<close>

lemma then_async:
  assumes "out_ok zsize c" "out_room zsize c 1" "\<exists>c'. r = Some c' \<and> appends zsize 1 c b c'"
  shows "\<exists>c'. Option.bind r (asyncCloseClientOnOutputBufferLimitReached server) = Some c' \<and> appends zsize 1 c b c'"
proof -
  obtain c1 where c1: "r = Some c1" "appends zsize 1 c b c1" using assms(3) by blast
  have "reply_mem zsize c1 < 2 ^ 63" using c1(2) assms(2) by (auto simp: appends_def out_room_def)
  then obtain c2 where "asyncCloseClientOnOutputBufferLimitReached server c1 = Some c2" "appends zsize 0 c1 [] c2"
    using async_ok [OF appendsD(1) [OF c1(2)]] by blast
  then show ?thesis using c1 appends_trans [OF c1(2), of 0 "[]" c2] by auto
qed

lemma addReplyStringToList_ok:
  assumes "out_ok zsize c" "zsize_ok zsize" "out_room zsize c 1" "len \<le> length s" "len < 2 ^ 32" "REDIS_CLOSE_AFTER_REPLY \<notin> c_flags c"
  shows "\<exists>c'. p_addReplyStringToList junk zsize server c s len = Some c' \<and> appends zsize 1 c (take len s) c'"
proof -
  obtain ob p where ob: "createReplyObject junk s len = Some ob" "ro_ptr ob = Some p" "sds_is p (take len s) 0"
    using createReplyObject_ok [OF assms(4,5)] by blast
  show ?thesis
    unfolding p_addReplyStringToList_def if_not_P [OF assms(6)] ob(1) bind.simps
    using add_node_ok [OF assms(1,2) ob(2,3)] glue_tail_ok [OF assms(1,2) _ _ assms(4), of junk]
    by (intro then_async [OF assms(1,3)]) auto
qed

lemma addReplySdsToList_ok:
  assumes "out_ok zsize c" "zsize_ok zsize" "out_room zsize c 1" "sds_is s b f" "REDIS_CLOSE_AFTER_REPLY \<notin> c_flags c"
  shows "\<exists>c'. p_addReplySdsToList junk zsize server c s = Some c' \<and> appends zsize 1 c b c'"
  unfolding p_addReplySdsToList_def if_not_P [OF assms(5)]
  using add_node_ok [OF assms(1,2) _ assms(4), of "\<lparr>ro_ptr = Some s, ro_refcount = 1\<rparr>"]
    glue_tail_ok [OF assms(1,2) _ _ sds_is_take(2) [OF assms(4)], of junk] sds_is_take(1) [OF assms(4)]
  by (intro then_async [OF assms(1,3)]) auto

lemma addReplyObjectToList_ok:
  assumes "out_ok zsize c" "zsize_ok zsize" "out_room zsize c 1" "ro_ptr ob = Some s" "sds_is s b f" "REDIS_CLOSE_AFTER_REPLY \<notin> c_flags c"
  shows "\<exists>c'. p_addReplyObjectToList junk zsize server c ob = Some c' \<and> appends zsize 1 c b c'"
  unfolding p_addReplyObjectToList_def if_not_P [OF assms(6)] assms(4) bind.simps
  using add_node_ok [OF assms(1,2) _ assms(5), of "ob\<lparr>ro_refcount := ro_refcount ob + 1\<rparr>"] assms(4)
    glue_tail_ok [OF assms(1,2) _ _ sds_is_take(2) [OF assms(5)], of junk] sds_is_take(1) [OF assms(5)]
  by (intro then_async [OF assms(1,3)]) auto

text \<open>Static buffer first, then the list.\<close>

lemma buffer_or_list:
  assumes "out_ok zsize c" "len \<le> length s" "REDIS_CLOSE_AFTER_REPLY \<notin> c_flags c"
    "\<exists>c'. f c = Some c' \<and> appends zsize 1 c (take len s) c'"
  shows "\<exists>c'. Option.bind (p_addReplyToBuffer c s len) (\<lambda>(c, ok). if ok then Some c else f c) = Some c' \<and>
    appends zsize 1 c (take len s) c'"
proof -
  obtain c1 ok where c1: "p_addReplyToBuffer c s len = Some (c1, ok)" "if ok then appends zsize 0 c (take len s) c1 else c1 = c"
    using addReplyToBuffer_ok [OF assms(1-3)] by blast
  then show ?thesis using assms(4) by (auto simp: appends_def split: if_splits)
qed

text \<open>What a reply function promises: it appends the bytes \<open>b\<close> with at most \<open>n\<close> new nodes.\<close>

definition replies :: "(nat \<Rightarrow> nat) \<Rightarrow> nat \<Rightarrow> ('a redisClient_scheme \<Rightarrow> 'a redisClient_scheme option) \<Rightarrow> byte list \<Rightarrow> bool" where
  "replies zsize n f b \<longleftrightarrow>
     (\<forall>c. out_ok zsize c \<and> takes_reply c \<and> out_room zsize c n \<longrightarrow> (\<exists>c'. f c = Some c' \<and> appends zsize n c b c'))"

lemma replies_bind:
  assumes "replies zsize m f a" "replies zsize n g b"
  shows "replies zsize (m + n) (\<lambda>c. Option.bind (f c) g) (a @ b)"
  unfolding replies_def
proof (intro allI impI, elim conjE)
  fix c :: "'a redisClient_scheme"
  assume c: "out_ok zsize c" "takes_reply c" "out_room zsize c (m + n)"
  obtain c1 where c1: "f c = Some c1" "appends zsize m c a c1"
    using assms(1) c out_room_mono [OF c(3)] unfolding replies_def by auto
  obtain c2 where "g c1 = Some c2" "appends zsize n c1 b c2"
    using assms(2) appendsD [OF c1(2)] takes_reply_frame c(2) out_room_appends [OF c(3) c1(2)] unfolding replies_def by blast
  then show "\<exists>c'. Option.bind (f c) g = Some c' \<and> appends zsize (m + n) c (a @ b) c'"
    using c1 appends_trans [OF c1(2)] by auto
qed

lemma replies_mono: "replies zsize m f a \<Longrightarrow> m \<le> n \<Longrightarrow> replies zsize n f a"
  unfolding replies_def using out_room_mono by (fastforce simp: appends_def)

lemma replies_prepare:
  fixes f :: "'a redisClient_scheme \<Rightarrow> 'a redisClient_scheme option"
  assumes "\<forall>c. ae c"
    "\<And>c. out_ok zsize c \<Longrightarrow> REDIS_CLOSE_AFTER_REPLY \<notin> c_flags c \<Longrightarrow> out_room zsize c n \<Longrightarrow> \<exists>c'. f c = Some c' \<and> appends zsize n c b c'"
  shows "replies zsize n (\<lambda>c. if \<not> prepareClientToWrite ae c then Some c else f c) b"
  unfolding replies_def
proof (intro allI impI, elim conjE)
  fix c :: "'a redisClient_scheme"
  assume c: "out_ok zsize c" "takes_reply c" "out_room zsize c n"
  have p: "prepareClientToWrite ae c" "REDIS_CLOSE_AFTER_REPLY \<notin> c_flags c" using takes_reply_prepare [OF c(2) assms(1)] by auto
  show "\<exists>c'. (if \<not> prepareClientToWrite ae c then Some c else f c) = Some c' \<and> appends zsize n c b c'"
    using assms(2) [OF c(1) p(2) c(3)] p(1) by simp
qed

lemma addReplyString_ok:
  assumes "\<forall>c. ae c" "zsize_ok zsize" "len \<le> length s" "len < 2 ^ 32"
  shows "replies zsize 1 (\<lambda>c. addReplyString junk zsize server ae c s len) (take len s)"
  unfolding addReplyString_def using addReplyStringToList_ok [OF _ assms(2) _ assms(3,4)]
  by (intro replies_prepare assms(1) buffer_or_list assms(3)) auto

lemma addReplySds_ok:
  assumes "\<forall>c. ae c" "zsize_ok zsize" "sds_is s b f"
  shows "replies zsize 1 (\<lambda>c. addReplySds junk zsize server ae c s) b"
  unfolding addReplySds_def
proof (rule replies_prepare [OF assms(1)])
  fix c :: "'a redisClient_scheme"
  assume c: "out_ok zsize c" "REDIS_CLOSE_AFTER_REPLY \<notin> c_flags c" "out_room zsize c 1"
  show "\<exists>c'. Option.bind (p_addReplyToBuffer c (sds_buf s) (sdslen s))
      (\<lambda>(c, ok). if ok then Some c else p_addReplySdsToList junk zsize server c s) = Some c' \<and> appends zsize 1 c b c'"
    using buffer_or_list [OF c(1) sds_is_take(2) [OF assms(3)] c(2), of "\<lambda>c. p_addReplySdsToList junk zsize server c s"]
      addReplySdsToList_ok [OF c(1) assms(2) c(3) assms(3) c(2)] unfolding sds_is_take(1) [OF assms(3)] by blast
qed

lemma addReply_raw_ok:
  assumes "\<forall>c. ae c" "zsize_ok zsize" "ro_ptr ob = Some s" "sds_is s b f"
  shows "replies zsize 1 (\<lambda>c. addReply junk zsize server ae c (Reply_Raw ob)) b"
  unfolding addReply_def reply_arg.case assms(3) bind.simps
proof (rule replies_prepare [OF assms(1)])
  fix c :: "'a redisClient_scheme"
  assume c: "out_ok zsize c" "REDIS_CLOSE_AFTER_REPLY \<notin> c_flags c" "out_room zsize c 1"
  show "\<exists>c'. Option.bind (p_addReplyToBuffer c (sds_buf s) (sdslen s))
      (\<lambda>(c, ok). if ok then Some c else p_addReplyObjectToList junk zsize server c ob) = Some c' \<and> appends zsize 1 c b c'"
    using buffer_or_list [OF c(1) sds_is_take(2) [OF assms(4)] c(2), of "\<lambda>c. p_addReplyObjectToList junk zsize server c ob"]
      addReplyObjectToList_ok [OF c(1) assms(2) c(3) assms(3,4) c(2)] unfolding sds_is_take(1) [OF assms(4)] by blast
qed

lemma addReply_int_ok:
  assumes "\<forall>c. ae c" "zsize_ok zsize"
  shows "replies zsize 1 (\<lambda>c. addReply junk zsize server ae c (Reply_Int v)) (sdec (sint v))"
  unfolding addReply_def reply_arg.case
proof (rule replies_prepare [OF assms(1)])
  fix c :: "'a redisClient_scheme"
  assume c: "out_ok zsize c" "REDIS_CLOSE_AFTER_REPLY \<notin> c_flags c" "out_room zsize c 1"
  define d where "d = sdec (sint v)"
  define z where "z = drop (length d + 1) (stackbuf junk 32)"
  have ll: "ll2string (stackbuf junk 32) 32 v = Some (d @ 0 # z, of_nat (length d))"
    using ll2string_stackbuf [of 32 junk v] by (simp add: d_def z_def)
  have u: "unat (of_nat (length d) :: u32) = length d" using unat_length_sdec [of v] by (simp add: d_def)
  have sl: "strlen (d @ 0 # z) = Some (length d)" using sdec_nonzero by (intro strlen_terminated) (auto simp: d_def)
  have "length d < 2 ^ 32" using length_sdec [of v] by (simp add: d_def)
  then obtain p where p: "sdsnewlen junk (Some (d @ 0 # z)) (length d) = Some p" "sds_is p d 0"
    using sdsnewlen_is [of "length d" "d @ 0 # z" junk] by auto
  define f where "f c = Option.bind (p_addReplyToBuffer c (sds_buf p) (sdslen p))
    (\<lambda>(c, ok). if ok then Some c else p_addReplyObjectToList junk zsize server c \<lparr>ro_ptr = Some p, ro_refcount = 0\<rparr>)"
    for c :: "'a redisClient_scheme"
  have f: "\<exists>c'. f c = Some c' \<and> appends zsize 1 c d c'"
    using buffer_or_list [OF c(1) sds_is_take(2) [OF p(2)] c(2)] sds_is_take(1) [OF p(2)]
      addReplyObjectToList_ok [OF c(1) assms(2) c(3) _ p(2) c(2), of "\<lparr>ro_ptr = Some p, ro_refcount = 0\<rparr>"]
    unfolding f_def by auto
  have "\<exists>c'. Option.bind (if b then p_addReplyToBuffer c (d @ 0 # z) (length d) else Some (c, False))
      (\<lambda>(c, ok). if ok then Some c else f c) = Some c' \<and> appends zsize 1 c d c'" for b
    using buffer_or_list [OF c(1) _ c(2), of "length d" "d @ 0 # z" f] f by (cases b) auto
  then show "\<exists>c'. (do {
      (c, ok) \<leftarrow> if length (c_reply c) = 0 \<and> 32 \<le> REDIS_REPLY_CHUNK_BYTES - c_bufpos c
        then do { (buf, len) \<leftarrow> ll2string (stackbuf junk 32) 32 v; p_addReplyToBuffer c buf (unat len) } else Some (c, False);
      if ok then Some c
      else do {
        (buf, len) \<leftarrow> ll2string (stackbuf junk 32) 32 v;
        n \<leftarrow> strlen buf;
        p \<leftarrow> sdsnewlen junk (Some buf) n;
        (c, ok) \<leftarrow> p_addReplyToBuffer c (sds_buf p) (sdslen p);
        if ok then Some c else p_addReplyObjectToList junk zsize server c \<lparr>ro_ptr = Some p, ro_refcount = 0\<rparr>
      }
    }) = Some c' \<and> appends zsize 1 c (sdec (sint v)) c'"
    unfolding ll bind.simps prod.case u sl p(1) f_def d_def [symmetric] by simp
qed

section \<open>Formatted text and shared objects\<close>

lemma sdscatvprintf_loop_ok:
  assumes "0 \<notin> set t" "2 \<le> n" "length buf = n"
  shows "\<exists>z. sdscatvprintf_loop junk t buf n = Some (t @ 0 # z)"
  using assms
proof (induction junk t buf n rule: sdscatvprintf_loop.induct)
  case (1 junk t buf n)
  define b where "b = buf[n - 2 := 0]"
  define b' where "b' = take (n - 1) t @ 0 # drop (length (take (n - 1) t) + 1) b"
  have lt: "length (take (n - 1) t) + 1 \<le> n" using "1.prems"(2) by simp
  have w: "wr buf (n - 2) 0 = Some b" using "1.prems" by (simp add: wr_def b_def)
  have v: "vsnprintf b n t = Some b'" using lt "1.prems"(3) by (simp add: vsnprintf_def memwrite_def b_def b'_def)
  have lb: "length b' = n" using lt "1.prems"(3) by (simp add: b'_def b_def)
  have r: "rd b' (n - 2) = Some (b' ! (n - 2))" using lb "1.prems"(2) by (simp add: rd_def)
  show ?case
  proof (cases "length t \<le> n - 2")
    case True
    then have "take (n - 1) t = t" using "1.prems"(2) by simp
    then have e: "b' = t @ 0 # drop (length t + 1) b" by (simp add: b'_def)
    have "b' ! (n - 2) = 0"
    proof (rule ccontr)
      assume "b' ! (n - 2) \<noteq> 0"
      then have "n \<le> length t + 1" using vsnprintf_short [OF w v r] "1.prems"(2) by simp
      then show False using True "1.prems"(2) by simp
    qed
    then show ?thesis using w v r e "1.prems"(2) by (subst sdscatvprintf_loop.simps) auto
  next
    case False
    have "n - 2 < n - 1" using "1.prems"(2) by simp
    then have "b' ! (n - 2) = t ! (n - 2)" using False by (simp add: b'_def nth_append)
    then have c: "b' ! (n - 2) \<noteq> 0" using False "1.prems"(1) by (metis leI nth_mem)
    have "\<exists>z. sdscatvprintf_loop junk t (map junk [0..<n * 2]) (n * 2) = Some (t @ 0 # z)"
      using "1.IH" [OF _ w v r c] "1.prems"(1,2) by simp
    then show ?thesis using w v r c "1.prems"(2) by (subst sdscatvprintf_loop.simps) auto
  qed
qed

lemma sdscatvprintf_is:
  assumes "sds_is s u f" "0 \<notin> set t" "length u + length t + SDS_MAX_PREALLOC < 2 ^ 32"
  shows "\<exists>s' f'. sdscatvprintf junk s n t = Some s' \<and> sds_is s' (u @ t) f'"
proof -
  define m where "m = (if n * 2 > 1024 then n * 2 else 1024)"
  have "2 \<le> m" by (simp add: m_def)
  then obtain z where "sdscatvprintf_loop junk t (map junk [0..<m]) m = Some (t @ 0 # z)"
    using sdscatvprintf_loop_ok [OF assms(2), of m "map junk [0..<m]" junk] by auto
  then show ?thesis using sdscat_is [OF assms, of junk z] by (simp add: sdscatvprintf_def m_def)
qed

definition obj_is :: "reply_obj \<Rightarrow> byte list \<Rightarrow> bool" where
  "obj_is ob t \<longleftrightarrow> (\<exists>p f. ro_ptr ob = Some p \<and> sds_is p t f)"

definition shared_reply_ok :: "sharedObjectsStruct \<Rightarrow> bool" where
  "shared_reply_ok shared \<longleftrightarrow> obj_is (sh_crlf shared) [13, 10] \<and> obj_is (sh_czero shared) (bulk_count (ch CHR '':'') 0) \<and>
     obj_is (sh_cone shared) (bulk_count (ch CHR '':'') 1) \<and> obj_is (sh_nullbulk shared) (bulk_count (ch CHR ''$'') (- 1)) \<and>
     (\<forall>j < 32. obj_is (sh_mbulkhdr shared j) (bulk_count (ch CHR ''*'') (int j)) \<and>
               obj_is (sh_bulkhdr shared j) (bulk_count (ch CHR ''$'') (int j)))"

lemma those_map: "(\<And>x. x \<in> set xs \<Longrightarrow> f x = Some (g x)) \<Longrightarrow> those (map f xs) = Some (map g xs)"
  by (induction xs) simp_all

lemma shared_string_ok:
  assumes "0 \<notin> set t" "length t < 100"
  shows "\<exists>ob. shared_string junk t = Some ob \<and> obj_is ob t"
  using sdsnewlen_is [of "length t" "t @ [0]" junk] strlen_terminated [OF assms(1), of "[]"] assms(2)
  by (auto simp: shared_string_def sdsnew_def obj_is_def)

lemma sdec_length_word: "length (sdec (sint (v :: u64))) \<le> 20"
  using length_sdec [of v] by simp

lemma header_text:
  assumes "n < 2 ^ 31" "c \<noteq> 0"
  shows "0 \<notin> set (bulk_count c (int n))" "length (bulk_count c (int n)) \<le> 23"
proof -
  have s: "sint (of_nat n :: u64) = int n" using sint_of_int_range [of "int n", where ?'a = 64] assms(1) by simp
  show "0 \<notin> set (bulk_count c (int n))" using sdec_nonzero assms(2) by (auto simp: bulk_count_def)
  show "length (bulk_count c (int n)) \<le> 23" using sdec_length_word [of "of_nat n"] by (simp add: bulk_count_def s)
qed

lemma shared_header_ok:
  assumes "n < 32" "c \<noteq> 0"
  shows "\<exists>ob. shared_header junk c n = Some ob \<and> obj_is ob (bulk_count c (int n))"
proof -
  obtain s where s: "sdsempty junk = Some s" "sds_is s [] 0" using sdsempty_is by blast
  then show ?thesis
    using sdscatvprintf_is [OF s(2), of "bulk_count c (int n)" junk 5] header_text [of n c] assms
    by (auto simp: shared_header_def obj_is_def bulk_count_def)
qed

lemma createSharedObjects_ok: "\<exists>sh. createSharedObjects junk = Some sh \<and> shared_reply_ok sh"
proof -
  define m b where "m j = the (shared_header junk (ch CHR ''*'') j)" and "b j = the (shared_header junk (ch CHR ''$'') j)" for j
  have m: "shared_header junk (ch CHR ''*'') j = Some (m j)" "obj_is (m j) (bulk_count (ch CHR ''*'') (int j))" if "j < 32" for j
    using shared_header_ok [OF that, of "ch CHR ''*''" junk] by (auto simp: m_def)
  have b: "shared_header junk (ch CHR ''$'') j = Some (b j)" "obj_is (b j) (bulk_count (ch CHR ''$'') (int j))" if "j < 32" for j
    using shared_header_ok [OF that, of "ch CHR ''$''" junk] by (auto simp: b_def)
  have t: "those (map (shared_header junk (ch CHR ''*'')) [0..<32]) = Some (map m [0..<32])"
    "those (map (shared_header junk (ch CHR ''$'')) [0..<32]) = Some (map b [0..<32])"
    using m(1) b(1) by (auto intro!: those_map)
  have i: "sdec 0 = [48]" "sdec 1 = [49]" "sdec (- 1) = [45, 49]" by (simp_all add: sdec_def dec.simps)
  obtain s1 where s1: "shared_string junk [13, 10] = Some s1" "obj_is s1 [13, 10]"
    using shared_string_ok [of "[13, 10]" junk] by auto
  obtain s2 where s2: "shared_string junk (bytes_of '':0'' @ [13, 10]) = Some s2" "obj_is s2 (bulk_count (ch CHR '':'') 0)"
    using shared_string_ok [of "bytes_of '':0'' @ [13, 10]" junk] by (auto simp: bulk_count_def i)
  obtain s3 where s3: "shared_string junk (bytes_of '':1'' @ [13, 10]) = Some s3" "obj_is s3 (bulk_count (ch CHR '':'') 1)"
    using shared_string_ok [of "bytes_of '':1'' @ [13, 10]" junk] by (auto simp: bulk_count_def i)
  obtain s4 where s4: "shared_string junk (bytes_of ''$-1'' @ [13, 10]) = Some s4" "obj_is s4 (bulk_count (ch CHR ''$'') (- 1))"
    using shared_string_ok [of "bytes_of ''$-1'' @ [13, 10]" junk] by (auto simp: bulk_count_def i)
  show ?thesis
    unfolding createSharedObjects_def s1(1) s2(1) s3(1) s4(1) t bind.simps
    using s1(2) s2(2) s3(2) s4(2) m(2) b(2) by (auto simp: shared_reply_ok_def)
qed

section \<open>Replies of the protocol\<close>

lemma addReply_shared_ok:
  assumes "\<forall>c. ae c" "zsize_ok zsize" "obj_is ob b"
  shows "replies zsize 1 (\<lambda>c. addReply junk zsize server ae c (Reply_Raw ob)) b"
  using assms(3) addReply_raw_ok [OF assms(1,2)] unfolding obj_is_def by blast

lemma replies_string3:
  assumes "\<forall>c. ae c" "zsize_ok zsize" "len \<le> length s" "len < 2 ^ 32" "length t < 100"
  shows "replies zsize 3 (\<lambda>c. do {
      c \<leftarrow> addReplyString junk zsize server ae c t (length t);
      c \<leftarrow> addReplyString junk zsize server ae c s len;
      addReplyString junk zsize server ae c [13, 10] 2 }) (t @ take len s @ [13, 10])"
proof -
  have a: "replies zsize 1 (\<lambda>c. addReplyString junk zsize server ae c t (length t)) t"
    using addReplyString_ok [OF assms(1,2), of "length t" t junk server] assms(5) by simp
  have b: "replies zsize 1 (\<lambda>c. addReplyString junk zsize server ae c s len) (take len s)"
    by (rule addReplyString_ok [OF assms(1-4)])
  have "replies zsize 1 (\<lambda>c. addReplyString junk zsize server ae c [13, 10] 2) [13, 10]"
    using addReplyString_ok [OF assms(1,2), of 2 "[13, 10]" junk server] by simp
  from replies_bind [OF a replies_bind [OF b this]] show ?thesis by (simp add: numeral_3_eq_3)
qed

lemma addReplyErrorLength_ok:
  assumes "\<forall>c. ae c" "zsize_ok zsize" "len \<le> length s" "len < 2 ^ 32"
  shows "replies zsize 3 (\<lambda>c. addReplyErrorLength junk zsize server ae c s len) (bytes_of ''-ERR '' @ take len s @ [13, 10])"
  using replies_string3 [OF assms, of "bytes_of ''-ERR ''" junk server] by (simp add: addReplyErrorLength_def numeral_eq_Suc)

lemma addReplyStatusLength_ok:
  assumes "\<forall>c. ae c" "zsize_ok zsize" "len \<le> length s" "len < 2 ^ 32"
  shows "replies zsize 3 (\<lambda>c. addReplyStatusLength junk zsize server ae c s len) (bytes_of ''+'' @ take len s @ [13, 10])"
  using replies_string3 [OF assms, of "bytes_of ''+''" junk server] by (simp add: addReplyStatusLength_def)

lemma addReplyError_ok:
  assumes "\<forall>c. ae c" "zsize_ok zsize" "0 \<notin> set t" "length t < 2 ^ 32"
  shows "replies zsize 3 (\<lambda>c. addReplyError junk zsize server ae c (t @ [0])) (bytes_of ''-ERR '' @ t @ [13, 10])"
  using addReplyErrorLength_ok [OF assms(1,2), of "length t" "t @ [0]" junk server] strlen_terminated [OF assms(3), of "[]"] assms(4)
  by (simp add: addReplyError_def)

lemma addReplyErrorFormat_ok:
  assumes "\<forall>c. ae c" "zsize_ok zsize" "0 \<notin> set t" "length t + SDS_MAX_PREALLOC < 2 ^ 32"
  shows "replies zsize 3 (\<lambda>c. addReplyErrorFormat junk zsize server ae c n t)
    (bytes_of ''-ERR '' @ map (\<lambda>b. if b = 13 \<or> b = 10 then 32 else b) t @ [13, 10])"
proof -
  obtain s0 where s0: "sdsempty junk = Some s0" "sds_is s0 [] 0" using sdsempty_is by blast
  obtain s f where s: "sdscatvprintf junk s0 n t = Some s" "sds_is s t f"
    using sdscatvprintf_is [OF s0(2) assms(3), of junk n] assms(4) by auto
  have "memread (sds_buf s) 0 (length t) = Some t" using sds_is_mem [OF s(2)] sds_isD(3) [OF s(2)] by simp
  then show ?thesis
    using addReplyErrorLength_ok [OF assms(1,2), of "sdslen s" "map (\<lambda>b. if b = 13 \<or> b = 10 then 32 else b) t" junk server]
      sds_isD(3) [OF s(2)] assms(4)
    by (simp add: addReplyErrorFormat_def s0(1) s(1))
qed

lemma shared_at_ok:
  assumes "shared_reply_ok shared" "0 \<le> i" "i < 32"
  shows "\<exists>ob. shared_at (sh_mbulkhdr shared) i = Some ob \<and> obj_is ob (bulk_count (ch CHR ''*'') i)"
    "\<exists>ob. shared_at (sh_bulkhdr shared) i = Some ob \<and> obj_is ob (bulk_count (ch CHR ''$'') i)"
proof -
  have "nat i < 32" "int (nat i) = i" using assms(2,3) by auto
  then have "obj_is (sh_mbulkhdr shared (nat i)) (bulk_count (ch CHR ''*'') i)" "obj_is (sh_bulkhdr shared (nat i)) (bulk_count (ch CHR ''$'') i)"
    using assms(1) unfolding shared_reply_ok_def by metis+
  then show "\<exists>ob. shared_at (sh_mbulkhdr shared) i = Some ob \<and> obj_is ob (bulk_count (ch CHR ''*'') i)"
    "\<exists>ob. shared_at (sh_bulkhdr shared) i = Some ob \<and> obj_is ob (bulk_count (ch CHR ''$'') i)"
    using assms(2,3) by (simp_all add: shared_at_def)
qed

lemma prefix_buffer:
  "\<exists>b b' z. wr (stackbuf junk 128) 0 prefix = Some b \<and>
    ll2string (drop 1 b) 127 ll = Some (sdec (sint ll) @ 0 # z, of_nat (length (sdec (sint ll)))) \<and>
    wr (take 1 b @ sdec (sint ll) @ 0 # z) (length (sdec (sint ll)) + 1) 13 = Some b' \<and>
    (\<exists>y. wr b' (length (sdec (sint ll)) + 2) 10 = Some (bulk_count prefix (sint ll) @ y))"
proof -
  define d where "d = sdec (sint ll)"
  have ld: "length d \<le> 20" using sdec_length_word by (simp add: d_def)
  define b where "b = prefix # drop 1 (stackbuf junk 128)"
  have b: "wr (stackbuf junk 128) 0 prefix = Some b"
    using length_stackbuf [of junk 128] by (cases "stackbuf junk 128") (simp_all add: wr_def b_def)
  define z where "z = drop (length d + 1) (drop 1 b)"
  have lz: "length z = 126 - length d" by (simp add: z_def b_def)
  have ll: "ll2string (drop 1 b) 127 ll = Some (d @ 0 # z, of_nat (length d))"
    using ll2string_sdec [of 127 "drop 1 b" ll] ld by (simp add: z_def d_def [symmetric] b_def)
  obtain x y where z: "z = x # y" using lz ld by (cases z) auto
  have "wr (take 1 b @ d @ 0 # z) (length d + 1) 13 = Some ((prefix # d) @ 13 # z)"
    using wr_at [of "prefix # d" "length d + 1" 0 z 13] by (simp add: b_def)
  moreover have "wr ((prefix # d) @ 13 # z) (length d + 2) 10 = Some (bulk_count prefix (sint ll) @ y)"
    using wr_at [of "(prefix # d) @ [13]" "length d + 2" x y 10] by (simp add: z bulk_count_def d_def)
  ultimately show ?thesis using b ll unfolding d_def by blast
qed

lemma length_bulk_count: "length (bulk_count c (sint (v :: u64))) = length (sdec (sint v)) + 3" "length (bulk_count c (sint v)) \<le> 23"
  using sdec_length_word [of v] by (simp_all add: bulk_count_def)

lemma addReplyLongLongWithPrefix_ok:
  assumes "\<forall>c. ae c" "zsize_ok zsize" "shared_reply_ok shared" "prefix = ch CHR ''*'' \<or> prefix = ch CHR ''$'' \<Longrightarrow> 0 \<le> sint ll"
  shows "replies zsize 1 (\<lambda>c. addReplyLongLongWithPrefix junk zsize server ae shared c ll prefix) (bulk_count prefix (sint ll))"
proof -
  consider "prefix = ch CHR ''*''" "sint ll < 32" | "prefix = ch CHR ''$''" "sint ll < 32" |
    "\<not> (prefix = ch CHR ''*'' \<and> sint ll < 32)" "\<not> (prefix = ch CHR ''$'' \<and> sint ll < 32)" by blast
  then show ?thesis
  proof cases
    case 1
    then obtain ob where "shared_at (sh_mbulkhdr shared) (sint ll) = Some ob" "obj_is ob (bulk_count prefix (sint ll))"
      using shared_at_ok(1) [OF assms(3)] assms(4) by auto
    then show ?thesis using 1 addReply_shared_ok [OF assms(1,2)] by (simp add: addReplyLongLongWithPrefix_def)
  next
    case 2
    then obtain ob where "shared_at (sh_bulkhdr shared) (sint ll) = Some ob" "obj_is ob (bulk_count prefix (sint ll))"
      using shared_at_ok(2) [OF assms(3)] assms(4) by auto
    then show ?thesis using 2 addReply_shared_ok [OF assms(1,2)] by (simp add: addReplyLongLongWithPrefix_def)
  next
    case 3
    let ?d = "sdec (sint ll)"
    obtain b b' z y where b: "wr (stackbuf junk 128) 0 prefix = Some b"
      "ll2string (drop 1 b) 127 ll = Some (?d @ 0 # z, of_nat (length ?d))"
      "wr (take 1 b @ ?d @ 0 # z) (length ?d + 1) 13 = Some b'"
      "wr b' (length ?d + 2) 10 = Some (bulk_count prefix (sint ll) @ y)"
      using prefix_buffer by blast
    have "addReplyLongLongWithPrefix junk zsize server ae shared c ll prefix =
        addReplyString junk zsize server ae c (bulk_count prefix (sint ll) @ y) (length ?d + 3)" for c :: "'a redisClient_scheme"
      unfolding addReplyLongLongWithPrefix_def if_not_P [OF 3(1)] if_not_P [OF 3(2)] b(1,2) bind.simps prod.case Let_def
        unat_length_sdec b(3,4) by simp
    then show ?thesis
      using addReplyString_ok [OF assms(1,2), of "length ?d + 3" "bulk_count prefix (sint ll) @ y" junk server]
        length_bulk_count [of prefix ll] sdec_length_word [of ll] by simp
  qed
qed

lemma addReplyLongLong_ok:
  assumes "\<forall>c. ae c" "zsize_ok zsize" "shared_reply_ok shared"
  shows "replies zsize 1 (\<lambda>c. addReplyLongLong junk zsize server ae shared c ll) (bulk_count (ch CHR '':'') (sint ll))"
proof -
  have "obj_is (sh_czero shared) (bulk_count (ch CHR '':'') (sint (0 :: u64)))" "obj_is (sh_cone shared) (bulk_count (ch CHR '':'') (sint (1 :: u64)))"
    using assms(3) by (simp_all add: shared_reply_ok_def)
  then show ?thesis
    using addReply_shared_ok [OF assms(1,2)] addReplyLongLongWithPrefix_ok [OF assms, of "ch CHR '':''" ll]
    by (cases "ll = 0"; cases "ll = 1") (simp_all add: addReplyLongLong_def)
qed

lemma addReplyMultiBulkLen_ok:
  assumes "\<forall>c. ae c" "zsize_ok zsize" "shared_reply_ok shared" "0 \<le> sint len"
  shows "replies zsize 1 (\<lambda>c. addReplyMultiBulkLen junk zsize server ae shared c len) (bulk_count (ch CHR ''*'') (sint len))"
proof (cases "sint len < 32")
  case True
  then obtain ob where "shared_at (sh_mbulkhdr shared) (sint len) = Some ob" "obj_is ob (bulk_count (ch CHR ''*'') (sint len))"
    using shared_at_ok(1) [OF assms(3,4)] by auto
  then show ?thesis using True addReply_shared_ok [OF assms(1,2)] by (simp add: addReplyMultiBulkLen_def)
next
  case False
  then show ?thesis using addReplyLongLongWithPrefix_ok [OF assms(1-3), of "ch CHR ''*''" len] assms(4) by (simp add: addReplyMultiBulkLen_def)
qed

lemma abs_sdiv_10: "nat \<bar>k sdiv 10\<bar> = nat \<bar>k\<bar> div 10"
proof -
  have "\<bar>k sdiv 10\<bar> = \<bar>k\<bar> div 10" by (auto simp: signed_divide_int_def sgn_if)
  then show ?thesis by (simp add: nat_div_distrib)
qed

lemma count_digits_length: "count_digits n len = len + length (dec (nat \<bar>sint n\<bar>)) - 1"
proof (induction n len rule: count_digits.induct)
  case (1 n len)
  define m where "m = (word_of_int (sint n sdiv 10) :: u64)"
  have s: "nat \<bar>sint m\<bar> = nat \<bar>sint n\<bar> div 10" using sint_sdiv_10 [of n] abs_sdiv_10 by (simp add: m_def)
  show ?case
  proof (cases "m = 0")
    case True
    then have "nat \<bar>sint n\<bar> < 10" using s by simp
    then show ?thesis using True by (subst count_digits.simps) (simp add: m_def [symmetric] dec.simps)
  next
    case False
    then have "sint m \<noteq> 0" by (metis signed_0 signed_word_eqI)
    then have "nat \<bar>sint m\<bar> \<noteq> 0" by simp
    then have "10 \<le> nat \<bar>sint n\<bar>" using s div_less [of "nat \<bar>sint n\<bar>" 10] by linarith
    then have "length (dec (nat \<bar>sint n\<bar>)) = length (dec (nat \<bar>sint m\<bar>)) + 1" unfolding s by (subst dec.simps) simp
    then show ?thesis using 1 [OF m_def] False dec_nonempty by (subst count_digits.simps) (simp add: m_def [symmetric])
  qed
qed

lemma count_digits_sdec:
  "(if sint n < 0 then count_digits (- n) 2 else count_digits n 1) = length (sdec (sint n))"
proof (cases "sint n < 0")
  case True
  have "\<bar>sint (- n)\<bar> = - sint n"
  proof (cases "sint n = - (2 ^ 63)")
    case True
    then have "n = word_of_int (- (2 ^ 63))" by (intro signed_word_eqI) simp
    then show ?thesis by simp
  next
    case False
    then have "- (2 ^ 63) < sint n" using sint_greater_eq [of n] by simp
    then have "sint (word_of_int (- sint n) :: u64) = - sint n" using True by (intro sint_of_int_range) simp_all
    moreover have "word_of_int (- sint n) = - n" by simp
    ultimately show ?thesis using True by simp
  qed
  then have "nat \<bar>sint (- n)\<bar> = nat (- sint n)" by simp
  then show ?thesis using True dec_nonempty by (simp add: count_digits_length sdec_def)
next
  case False
  then show ?thesis using dec_nonempty by (simp add: count_digits_length sdec_def)
qed

text \<open>The bytes of an object that is a reply.\<close>

definition arg_is :: "reply_arg \<Rightarrow> byte list \<Rightarrow> bool" where
  "arg_is obj t = (case obj of Reply_Raw ob \<Rightarrow> obj_is ob t | Reply_Int v \<Rightarrow> t = sdec (sint v))"

lemma addReply_ok:
  assumes "\<forall>c. ae c" "zsize_ok zsize" "arg_is obj t"
  shows "replies zsize 1 (\<lambda>c. addReply junk zsize server ae c obj) t"
  using assms(3) addReply_shared_ok [OF assms(1,2)] addReply_int_ok [OF assms(1,2)] by (cases obj) (simp_all add: arg_is_def)

lemma sint_of_nat_u64: "n < 2 ^ 63 \<Longrightarrow> sint (of_nat n :: u64) = int n"
  using sint_of_int_range [of "int n", where ?'a = 64] by simp

lemma addReplyBulkLen_ok:
  assumes "\<forall>c. ae c" "zsize_ok zsize" "shared_reply_ok shared" "arg_is obj t"
  shows "replies zsize 1 (\<lambda>c. addReplyBulkLen junk zsize server ae shared c obj) (bulk_count (ch CHR ''$'') (int (length t)))"
proof -
  define len where "len = (case obj of Reply_Raw ob \<Rightarrow> map_option sdslen (ro_ptr ob)
    | Reply_Int n \<Rightarrow> Some (if sint n < 0 then count_digits (- n) 2 else count_digits n 1))"
  have len: "len = Some (length t)"
    using assms(4) sds_isD(3) unfolding len_def arg_is_def obj_is_def count_digits_sdec by (auto split: reply_arg.splits)
  have t: "length t < 2 ^ 63"
  proof (cases obj)
    case (Reply_Raw ob)
    then show ?thesis using assms(4) by (auto simp: arg_is_def obj_is_def elim!: sds_is_cases)
  next
    case (Reply_Int v)
    then show ?thesis using assms(4) sdec_length_word [of v] by (simp add: arg_is_def)
  qed
  show ?thesis
  proof (cases "int (length t) < 32")
    case True
    then obtain ob where "shared_at (sh_bulkhdr shared) (int (length t)) = Some ob" "obj_is ob (bulk_count (ch CHR ''$'') (int (length t)))"
      using shared_at_ok(2) [OF assms(3), of "int (length t)"] by auto
    then show ?thesis unfolding addReplyBulkLen_def len_def [symmetric] len using True addReply_shared_ok [OF assms(1,2)] by simp
  next
    case False
    then show ?thesis
      using addReplyLongLongWithPrefix_ok [OF assms(1-3), of "ch CHR ''$''" "of_nat (length t)"] sint_of_nat_u64 [OF t]
      unfolding addReplyBulkLen_def len_def [symmetric] len by simp
  qed
qed

lemma shared_crlf: "shared_reply_ok shared \<Longrightarrow> obj_is (sh_crlf shared) [13, 10]"
  by (simp add: shared_reply_ok_def)

lemma addReplyBulk_ok:
  assumes "\<forall>c. ae c" "zsize_ok zsize" "shared_reply_ok shared" "arg_is obj t"
  shows "replies zsize 3 (\<lambda>c. addReplyBulk junk zsize server ae shared c obj) (bulk_string t)"
  using replies_bind [OF addReplyBulkLen_ok [OF assms] replies_bind [OF addReply_ok [OF assms(1,2,4)]
      addReply_shared_ok [OF assms(1,2) shared_crlf [OF assms(3)]]]]
  by (simp add: addReplyBulk_def bulk_string_def numeral_3_eq_3)

lemma addReplyBulkCBuffer_ok:
  assumes "\<forall>c. ae c" "zsize_ok zsize" "shared_reply_ok shared" "len \<le> length p" "len < 2 ^ 32"
  shows "replies zsize 3 (\<lambda>c. addReplyBulkCBuffer junk zsize server ae shared c p len) (bulk_string (take len p))"
proof -
  have "replies zsize 1 (\<lambda>c. addReplyLongLongWithPrefix junk zsize server ae shared c (of_nat len) (ch CHR ''$''))
      (bulk_count (ch CHR ''$'') (int len))"
    using addReplyLongLongWithPrefix_ok [OF assms(1-3), of "ch CHR ''$''" "of_nat len"] sint_of_nat_u64 [of len] assms(5) by simp
  from replies_bind [OF this replies_bind [OF addReplyString_ok [OF assms(1,2,4,5)]
      addReply_shared_ok [OF assms(1,2) shared_crlf [OF assms(3)]]]]
  show ?thesis using assms(4) by (simp add: addReplyBulkCBuffer_def bulk_string_def numeral_3_eq_3)
qed

lemma addReplyBulkLongLong_ok:
  assumes "\<forall>c. ae c" "zsize_ok zsize" "shared_reply_ok shared"
  shows "replies zsize 3 (\<lambda>c. addReplyBulkLongLong junk zsize server ae shared c ll) (bulk_string (sdec (sint ll)))"
proof -
  let ?d = "sdec (sint ll)"
  obtain z where "ll2string (stackbuf junk 64) 64 ll = Some (?d @ z, of_nat (length ?d))"
    using ll2string_stackbuf [of 64 junk ll] by simp
  then show ?thesis
    using addReplyBulkCBuffer_ok [OF assms, of "length ?d" "?d @ z" junk server] sdec_length_word [of ll]
    by (simp add: addReplyBulkLongLong_def unat_length_sdec)
qed

lemma addReplyBulkCString_ok:
  assumes "\<forall>c. ae c" "zsize_ok zsize" "shared_reply_ok shared" "0 \<notin> set t" "length t < 2 ^ 32"
  shows "replies zsize 3 (\<lambda>c. addReplyBulkCString junk zsize server ae shared c (Some (t @ [0]))) (bulk_string t)"
    "replies zsize 3 (\<lambda>c. addReplyBulkCString junk zsize server ae shared c None) (bulk_count (ch CHR ''$'') (- 1))"
  using addReplyBulkCBuffer_ok [OF assms(1-3), of "length t" "t @ [0]" junk server] strlen_terminated [OF assms(4), of "[]"] assms(5)
    replies_mono [OF addReply_shared_ok [OF assms(1,2)], of "sh_nullbulk shared" _ 3 junk server] assms(3)
  by (simp_all add: addReplyBulkCString_def shared_reply_ok_def)

section \<open>Deferred lengths\<close>

lemma addDeferred_ok:
  assumes "out_ok zsize c" "takes_reply c" "\<forall>c. ae c" "sent_ok c"
  shows "\<exists>c'. addDeferredMultiBulkLength ae c = (c', Some (length (c_reply c))) \<and> out_ok zsize c' \<and> out_frame c c' \<and> sent_ok c' \<and>
    (\<forall>h. out_stream h c' = out_stream h c @ h) \<and> holes c' = insert (length (c_reply c)) (holes c) \<and> reply_mem zsize c' = reply_mem zsize c"
proof -
  let ?c = "c\<lparr>c_reply := c_reply c @ [\<lparr>ro_ptr = None, ro_refcount = 1\<rparr>]\<rparr>"
  have "holes ?c = insert (length (c_reply c)) (holes c)" by (auto simp: holes_def nth_append less_Suc_eq split: if_splits)
  moreover have "sent_ok ?c" using assms(4) by (auto simp: sent_ok_def split: if_splits list.splits)
  moreover have "out_ok zsize ?c" "reply_mem zsize ?c = reply_mem zsize c" "out_frame c ?c" "out_stream h ?c = out_stream h c @ h" for h
    using assms(1) by (simp_all add: out_ok_def reply_mem_def node_mem_def node_ok_def out_frame_def out_stream_def node_bytes_def)
  ultimately show ?thesis using takes_reply_prepare(1) [OF assms(2,3)] by (simp add: addDeferredMultiBulkLength_def)
qed

text \<open>The header \<open>hdr\<close> in the place of the only hole.\<close>

definition filled :: "(nat \<Rightarrow> nat) \<Rightarrow> 'a redisClient_scheme \<Rightarrow> byte list \<Rightarrow> 'a redisClient_scheme \<Rightarrow> bool" where
  "filled zsize c hdr c' \<longleftrightarrow> out_ok zsize c' \<and> out_frame c c' \<and> (sent_ok c \<longrightarrow> sent_ok c') \<and> holes c' = {} \<and>
     (\<forall>h. out_stream h c' = out_stream hdr c) \<and> reply_mem zsize c' \<le> reply_mem zsize c + 2 ^ 34"

lemma no_other_hole:
  assumes "c_reply c = xs @ ob # ys" "holes c = {length xs}" "x \<in> set xs \<union> set ys"
  shows "ro_ptr x \<noteq> None"
proof -
  consider j where "j < length xs" "xs ! j = x" | j where "j < length ys" "ys ! j = x"
    using assms(3) by (auto simp: in_set_conv_nth)
  then obtain i where i: "i < length (c_reply c)" "i \<noteq> length xs" "c_reply c ! i = x"
  proof cases
    case (1 j)
    then show thesis using that [of j] by (simp add: assms(1) nth_append)
  next
    case (2 j)
    then show thesis using that [of "length xs + 1 + j"] by (simp add: assms(1) nth_append)
  qed
  have "i \<notin> holes c" unfolding assms(2) using i(2) by simp
  then show ?thesis using i(1,3) by (simp add: holes_def)
qed

lemma fill_hole:
  assumes "out_ok zsize c" "zsize_ok zsize" "c_reply c = xs @ ob # ys @ zs" "holes c = {length xs}"
    "node_ok ob'" "ro_ptr ob' \<noteq> None" "\<And>h. node_bytes h ob' = hdr @ concat (map (node_bytes h) ys)"
    "c' = c\<lparr>c_reply := xs @ ob' # zs, c_reply_bytes := c_reply_bytes c - of_nat (sum_list (map (node_mem zsize) ys)) + of_nat (node_mem zsize ob')\<rparr>"
  shows "filled zsize c hdr c'"
proof -
  have "length xs \<in> holes c" using assms(4) by simp
  then have ob: "ro_ptr ob = None" by (simp add: holes_def assms(3))
  have nx: "ro_ptr x \<noteq> None" if "x \<in> set xs \<union> set (ys @ zs)" for x
    using no_other_hole [OF assms(3,4) that] .
  have b: "c_reply_bytes c' = of_nat (reply_mem zsize c')"
    using assms(1) ob by (simp add: out_ok_def reply_mem_def assms(3,8) node_mem_def)
  have "sent_ok c'" if "sent_ok c"
    using that ob assms(7) [of "[]"] by (cases xs) (auto simp: sent_ok_def assms(3,8) node_bytes_def split: if_splits)
  moreover have "out_ok zsize c'" "out_frame c c'"
    using assms(1,5) b by (simp_all add: out_ok_def out_frame_def assms(3,8))
  moreover have "reply_mem zsize c' \<le> reply_mem zsize c + 2 ^ 34"
    using node_mem_bound [OF assms(2,5)] by (simp add: reply_mem_def assms(3,8))
  moreover have "x \<in> set (c_reply c') \<Longrightarrow> ro_ptr x \<noteq> None" for x using nx assms(6) by (auto simp: assms(8))
  then have "holes c' = {}" by (auto simp: holes_def)
  moreover have "out_stream h c' = out_stream hdr c" for h
  proof -
    have "node_bytes h x = node_bytes hdr x" if "x \<in> set xs \<union> set (ys @ zs)" for x
      using nx [OF that] by (auto simp: node_bytes_def)
    then have m: "map (node_bytes h) xs = map (node_bytes hdr) xs" "map (node_bytes h) ys = map (node_bytes hdr) ys"
      "map (node_bytes h) zs = map (node_bytes hdr) zs"
      by (auto intro!: map_cong)
    have "node_bytes hdr ob = hdr" using ob by (simp add: node_bytes_def)
    then show ?thesis unfolding out_stream_def assms(3) using assms(7) [of h] by (simp add: assms(8) m)
  qed
  ultimately show ?thesis unfolding filled_def by blast
qed

lemma filled_async:
  assumes "filled zsize c hdr d" "out_room zsize c 1"
  shows "\<exists>c'. asyncCloseClientOnOutputBufferLimitReached server d = Some c' \<and> filled zsize c hdr c'"
proof -
  have "reply_mem zsize d < 2 ^ 63" using assms by (auto simp: out_room_def filled_def)
  then obtain c' where "asyncCloseClientOnOutputBufferLimitReached server d = Some c'" "appends zsize 0 d [] c'"
    using async_ok assms(1) unfolding filled_def by blast
  then show ?thesis using assms(1) out_frame_trans [of c d c'] by (auto simp: appends_def filled_def)
qed

lemma setDeferred_ok:
  assumes "out_ok zsize c" "zsize_ok zsize" "out_room zsize c 1" "holes c = {ln}"
    "\<forall>ob p. ob \<in> set (c_reply c) \<longrightarrow> ro_ptr ob = Some p \<longrightarrow> sdslen p + 2 ^ 21 < 2 ^ 32"
  shows "\<exists>c'. setDeferredMultiBulkLength junk zsize server c (Some ln) (sint (v :: u64)) = Some c' \<and>
    filled zsize c (bulk_count (ch CHR ''*'') (sint v)) c'"
proof -
  define hdr where "hdr = bulk_count (ch CHR ''*'') (sint v)"
  have lh: "length hdr \<le> 23" "0 \<notin> set hdr"
    using length_bulk_count(2) sdec_nonzero by (auto simp: hdr_def bulk_count_def)
  obtain s0 where s0: "sdsempty junk = Some s0" "sds_is s0 [] 0" using sdsempty_is by blast
  obtain s f where s: "sdscatvprintf junk s0 6 hdr = Some s" "sds_is s hdr f"
    using sdscatvprintf_is [OF s0(2) lh(2), of junk 6] lh(1) by auto
  have ln: "ln < length (c_reply c)" "ro_ptr (c_reply c ! ln) = None" using assms(4) by (auto simp: holes_def)
  define xs zs ob where "xs = take ln (c_reply c)" and "zs = drop (ln + 1) (c_reply c)" and "ob = c_reply c ! ln"
  have r: "c_reply c = xs @ ob # zs" "length xs = ln"
    using ln by (simp_all add: xs_def zs_def ob_def id_take_nth_drop [symmetric])
  have h: "holes c = {length xs}" using assms(4) r(2) by simp
  define c1 where "c1 = c\<lparr>c_reply := (c_reply c)[ln := ob\<lparr>ro_ptr := Some s\<rparr>], c_reply_bytes := c_reply_bytes c + zmalloc_size_sds zsize s\<rparr>"
  have c1: "c_reply c1 = xs @ ob\<lparr>ro_ptr := Some s\<rparr> # zs" using r(2) by (simp add: c1_def r(1) list_update_append)
  define g where "g = (case rd (c_reply c1) (ln + 1) of None \<Rightarrow> Some c1
    | Some nxt \<Rightarrow> (case ro_ptr nxt of None \<Rightarrow> Some c1
      | Some p \<Rightarrow> do {
          let bytes = c_reply_bytes c1 - zmalloc_size_sds zsize s - zmalloc_size_sds zsize p;
          s' \<leftarrow> sdscatlen junk s (sds_buf p) (sdslen p);
          Some (c1\<lparr>c_reply := take ln (c_reply c1) @ ob\<lparr>ro_ptr := Some s'\<rparr> # drop (ln + 2) (c_reply c1),
            c_reply_bytes := bytes + zmalloc_size_sds zsize s'\<rparr>) }))"
  have g: "\<exists>d. g = Some d \<and> filled zsize c hdr d"
  proof (cases zs)
    case Nil
    have "filled zsize c hdr c1"
      using sds_isD [OF s(2)] Nil c1 r
      by (intro fill_hole [OF assms(1,2), of xs ob "[]" zs "ob\<lparr>ro_ptr := Some s\<rparr>" hdr] h)
        (simp_all add: node_ok_def node_bytes_def c1_def zmalloc_size_sds_def node_mem_def list_update_append)
    then show ?thesis using Nil r(2) by (simp add: g_def c1 rd_def)
  next
    case (Cons y ys)
    have "ro_ptr y \<noteq> None" using no_other_hole [OF r(1) h, of y] Cons by simp
    then obtain p where p: "ro_ptr y = Some p" by blast
    have pi: "sds_is p (sds_str p) (sdsavail p)"
      using assms(1) p r(1) Cons sds_is_exists by (auto simp: out_ok_def node_ok_def)
    have "sdslen p + 2 ^ 21 < 2 ^ 32" using assms(5) r(1) Cons p by auto
    then obtain s' f' where s': "sdscatlen junk s (sds_buf p) (sdslen p) = Some s'" "sds_is s' (hdr @ sds_str p) f'"
      using sdscatlen_is [OF s(2) sds_is_take(2) [OF pi], of junk] lh(1) sds_is_take(1) [OF pi] by auto
    let ?d = "c\<lparr>c_reply := xs @ ob\<lparr>ro_ptr := Some s'\<rparr> # ys,
      c_reply_bytes := c_reply_bytes c - of_nat (sum_list (map (node_mem zsize) [y])) + of_nat (node_mem zsize (ob\<lparr>ro_ptr := Some s'\<rparr>))\<rparr>"
    have "filled zsize c hdr ?d"
      using sds_isD [OF s'(2)] p r Cons
      by (intro fill_hole [OF assms(1,2), of xs ob "[y]" ys "ob\<lparr>ro_ptr := Some s'\<rparr>" hdr] h)
        (simp_all add: node_ok_def node_bytes_def)
    moreover have "g = Some ?d"
      unfolding g_def c1 using Cons r(2) p s'(1) by (simp add: rd_def nth_append c1_def zmalloc_size_sds_def node_mem_def)
    ultimately show ?thesis by blast
  qed
  have o: "rd (c_reply c) ln = Some ob" using ln(1) by (simp add: rd_def ob_def)
  have "setDeferredMultiBulkLength junk zsize server c (Some ln) (sint v) = Option.bind g (asyncCloseClientOnOutputBufferLimitReached server)"
    unfolding setDeferredMultiBulkLength_def option.case o s0(1) bind.simps bulk_count_def [symmetric] hdr_def [symmetric] s(1)
      c1_def [symmetric] g_def Let_def ..
  then show ?thesis using g filled_async [OF _ assms(3)] unfolding hdr_def by fastforce
qed

section \<open>Sending the stream\<close>

text \<open>The bytes that are still to be sent.\<close>

definition unsent :: "'a redisClient_scheme \<Rightarrow> byte list" where
  "unsent c = drop (c_sentlen c) (out_stream [] c)"

definition send_ok :: "'a redisClient_scheme \<Rightarrow> bool" where
  "send_ok c \<longleftrightarrow> length (c_buf c) = REDIS_REPLY_CHUNK_BYTES \<and> c_bufpos c \<le> REDIS_REPLY_CHUNK_BYTES \<and>
     (\<forall>ob \<in> set (c_reply c). \<exists>p. ro_ptr ob = Some p \<and> sds_ok p) \<and> sent_ok c"

lemma out_ok_send_ok:
  assumes "out_ok zsize c" "holes c = {}" "sent_ok c"
  shows "send_ok c"
proof -
  have "\<exists>p. ro_ptr ob = Some p \<and> sds_ok p" if "ob \<in> set (c_reply c)" for ob
  proof -
    have "ro_ptr ob \<noteq> None" using assms(2) that by (auto simp: holes_def in_set_conv_nth)
    then show ?thesis using assms(1) that by (auto simp: out_ok_def list_all_iff node_ok_def)
  qed
  then show ?thesis using assms by (simp add: send_ok_def out_ok_def)
qed

lemma send_chunk_ok:
  assumes "s < len" "len \<le> length b"
  shows "(\<exists>err ws'. send_chunk b s len ws = Some (Inr err, ws') \<and> (\<forall>k ws''. ws = Wrote k # ws'' \<longrightarrow> k = 0) \<and>
      (err \<longrightarrow> Failed \<in> set ws)) \<or>
    (\<exists>n ws'. send_chunk b s len ws = Some (Inl (n, take n (drop s b)), ws') \<and> 0 < n \<and> s + n \<le> len \<and> set ws' \<subseteq> set ws)"
proof -
  have m: "memread b s (len - s) = Some (take (len - s) (drop s b))" using assms by (simp add: memread_def)
  show ?thesis
  proof (cases ws)
    case Nil
    then show ?thesis by (intro disjI1 exI [of _ False]) (simp add: send_chunk_def m sys_write_def)
  next
    case (Cons w ws')
    then show ?thesis using assms by (cases w) (auto simp: send_chunk_def m sys_write_def min_def)
  qed
qed

text \<open>One accepted chunk of the static buffer, or of the first node.\<close>

lemma unsent_buffer:
  assumes "send_ok c" "0 < c_bufpos c" "c_sentlen c + n \<le> c_bufpos c"
    "c' = count_output (if c_sentlen c + n = c_bufpos c then c\<lparr>c_bufpos := 0, c_sentlen := 0\<rparr> else c\<lparr>c_sentlen := c_sentlen c + n\<rparr>) t"
  shows "send_ok c'" "take n (drop (c_sentlen c) (c_buf c)) @ unsent c' = unsent c"
proof -
  have s: "c_sentlen c < c_bufpos c" "length (c_buf c) = REDIS_REPLY_CHUNK_BYTES" "c_bufpos c \<le> REDIS_REPLY_CHUNK_BYTES"
    using assms(1,2) by (simp_all add: send_ok_def sent_ok_def)
  show "send_ok c'"
    using assms(1-3) unfolding assms(4) by (auto simp: send_ok_def sent_ok_def count_output_def split: list.splits)
  have d: "drop k (take m x) = take (m - k) (drop k x)" for k m and x :: "byte list" by (simp add: drop_take)
  have "take n (drop (c_sentlen c) (c_buf c)) @ drop (c_sentlen c + n) (take (c_bufpos c) (c_buf c)) = drop (c_sentlen c) (take (c_bufpos c) (c_buf c))"
  proof -
    have "take n (drop (c_sentlen c) (c_buf c)) = take n (drop (c_sentlen c) (take (c_bufpos c) (c_buf c)))"
      using assms(3) by (simp add: drop_take min_def)
    then show ?thesis using append_take_drop_id [of n "drop (c_sentlen c) (take (c_bufpos c) (c_buf c))"] by (simp add: add.commute)
  qed
  then show "take n (drop (c_sentlen c) (c_buf c)) @ unsent c' = unsent c"
    using assms(3) s by (auto simp: assms(4) unsent_def out_stream_def count_output_def)
qed

lemma unsent_node:
  assumes "send_ok c" "c_bufpos c = 0" "c_reply c = ob # reply" "ro_ptr ob = Some p" "c_sentlen c + n \<le> sdslen p" "0 < n"
    "c' = count_output (if c_sentlen c + n = sdslen p then c\<lparr>c_reply := reply, c_sentlen := 0, c_reply_bytes := m\<rparr>
      else c\<lparr>c_sentlen := c_sentlen c + n\<rparr>) t"
  shows "send_ok c'" "take n (drop (c_sentlen c) (sds_buf p)) @ unsent c' = unsent c"
proof -
  have pi: "sds_is p (sds_str p) (sdsavail p)" using assms(1,3,4) sds_is_exists by (auto simp: send_ok_def)
  have l: "length (sds_str p) = sdslen p" using sds_isD(3) [OF pi] by simp
  have nb: "node_bytes [] ob = sds_str p" using assms(4) by (simp add: node_bytes_def)
  show "send_ok c'"
    using assms(1-3,5) l nb unfolding assms(7) by (auto simp: send_ok_def sent_ok_def count_output_def split: list.splits)
  have "take n (drop (c_sentlen c) (sds_buf p)) = take n (drop (c_sentlen c) (sds_str p))"
    using assms(5) by (simp add: sds_str_def drop_take min_def)
  moreover have "take n (drop (c_sentlen c) (sds_str p)) @ drop (c_sentlen c + n) (sds_str p) = drop (c_sentlen c) (sds_str p)"
    using append_take_drop_id [of n "drop (c_sentlen c) (sds_str p)"] by (simp add: add.commute)
  ultimately show "take n (drop (c_sentlen c) (sds_buf p)) @ unsent c' = unsent c"
    using assms(2,3,5) l nb by (auto simp: assms(7) unsent_def out_stream_def count_output_def)
qed

lemma unsent_empty_node:
  assumes "send_ok c" "c_bufpos c = 0" "c_reply c = ob # reply" "ro_ptr ob = Some p" "sdslen p = 0"
  shows "send_ok (c\<lparr>c_reply := reply\<rparr>)" "unsent (c\<lparr>c_reply := reply\<rparr>) = unsent c"
proof -
  have nb: "node_bytes [] ob = []" using assms(4,5) by (simp add: node_bytes_def sds_str_def)
  then have "c_sentlen c = 0" using assms(1-3) by (simp add: send_ok_def sent_ok_def)
  then show "send_ok (c\<lparr>c_reply := reply\<rparr>)" "unsent (c\<lparr>c_reply := reply\<rparr>) = unsent c"
    using assms(1-3) nb by (auto simp: send_ok_def sent_ok_def unsent_def out_stream_def split: list.splits)
qed

text \<open>What the loop keeps of the client.\<close>

definition send_frame :: "'a redisClient_scheme \<Rightarrow> 'a redisClient_scheme \<Rightarrow> bool" where
  "send_frame c c' \<longleftrightarrow> c_flags c' = c_flags c \<and> c_fd c' = c_fd c \<and> redisClient.more c' = redisClient.more c"

definition counted :: "(nat \<Rightarrow> nat) \<Rightarrow> 'a redisClient_scheme \<Rightarrow> bool" where
  "counted zsize c \<longleftrightarrow> c_reply_bytes c = of_nat (reply_mem zsize c) \<and> (\<forall>ob \<in> set (c_reply c). node_bytes [] ob \<noteq> [])"

definition send_result ::
    "(nat \<Rightarrow> nat) \<Rightarrow> 'a redisClient_scheme \<Rightarrow> nat \<Rightarrow> byte list \<Rightarrow> write_result list \<Rightarrow> ('a redisClient_scheme \<times> nat \<times> byte list \<times> bool) option \<Rightarrow> bool" where
  "send_result zsize c tot out ws r \<longleftrightarrow>
     (\<exists>c' d err. r = Some (c', tot + length d, out @ d, err) \<and> send_ok c' \<and> send_frame c c' \<and> d @ unsent c' = unsent c \<and>
        (d = [] \<longrightarrow> unsent c \<noteq> [] \<longrightarrow> (\<forall>k ws'. ws = Wrote k # ws' \<longrightarrow> k = 0)) \<and>
        (err \<longrightarrow> Failed \<in> set ws) \<and> (counted zsize c \<longrightarrow> counted zsize c'))"

lemma send_result_step:
  assumes "send_ok c2" "send_frame c c2" "d @ unsent c2 = unsent c" "0 < n" "length d = n"
    "\<not> (tot + n > REDIS_MAX_WRITE_PER_EVENT \<and> limited) \<Longrightarrow> send_result zsize c2 (tot + n) (out @ d) ws2 r"
    "set ws2 \<subseteq> set ws" "counted zsize c \<Longrightarrow> counted zsize c2"
  shows "send_result zsize c tot out ws
    (if tot + n > REDIS_MAX_WRITE_PER_EVENT \<and> limited then Some (c2, tot + n, out @ d, False) else r)"
proof (cases "tot + n > REDIS_MAX_WRITE_PER_EVENT \<and> limited")
  case True
  then show ?thesis using assms(1-5,8) by (auto simp: send_result_def)
next
  case False
  then obtain c' d' err where "r = Some (c', tot + n + length d', (out @ d) @ d', err)"
    "send_ok c'" "send_frame c2 c'" "d' @ unsent c' = unsent c2" "err \<longrightarrow> Failed \<in> set ws2" "counted zsize c2 \<longrightarrow> counted zsize c'"
    using assms(6) unfolding send_result_def by blast
  then show ?thesis using False assms(1-5,7,8) unfolding send_result_def
    by (intro exI [of _ c'] exI [of _ "d @ d'"] exI [of _ err]) (auto simp: send_frame_def)
qed

lemma send_result_stop:
  assumes "send_ok c" "unsent c \<noteq> [] \<Longrightarrow> \<forall>k ws'. ws = Wrote k # ws' \<longrightarrow> k = 0" "err \<longrightarrow> Failed \<in> set ws"
  shows "send_result zsize c tot out ws (Some (c, tot, out, err))"
  using assms by (auto simp: send_result_def send_frame_def)

lemma send_loop_ok:
  assumes "send_ok c"
  shows "send_result zsize c tot out ws (send_loop zsize limited c tot out ws)"
  using assms
proof (induction zsize limited c tot out ws rule: send_loop.induct)
  case (1 zsize limited c tot out ws)
  show ?case
  proof (cases "c_bufpos c > 0")
    case b: True
    have s: "c_sentlen c < c_bufpos c" "c_bufpos c \<le> length (c_buf c)" using b "1.prems" by (simp_all add: send_ok_def sent_ok_def)
    let ?r = "send_chunk (c_buf c) (c_sentlen c) (c_bufpos c) ws"
    from send_chunk_ok [OF s, of ws] show ?thesis
    proof (elim disjE exE conjE)
      fix err ws' assume "?r = Some (Inr err, ws')" "\<forall>k ws''. ws = Wrote k # ws'' \<longrightarrow> k = 0" "err \<longrightarrow> Failed \<in> set ws"
      then show ?thesis using b send_result_stop [OF "1.prems"] by (subst send_loop.simps) simp
    next
      fix n ws' assume n: "?r = Some (Inl (n, take n (drop (c_sentlen c) (c_buf c))), ws')" "0 < n" "c_sentlen c + n \<le> c_bufpos c"
        "set ws' \<subseteq> set ws"
      let ?c2 = "count_output (if c_sentlen c + n = c_bufpos c then c\<lparr>c_bufpos := 0, c_sentlen := 0\<rparr>
        else c\<lparr>c_sentlen := c_sentlen c + n\<rparr>) (tot + n)"
      note u = unsent_buffer [OF "1.prems" b n(3) refl, of "tot + n"]
      have f: "send_frame c ?c2" "counted zsize c \<Longrightarrow> counted zsize ?c2"
        by (simp_all add: send_frame_def count_output_def counted_def reply_mem_def)
      from send_result_step [OF u(1) f(1) u(2) n(2) _ "1.IH"(1) [OF b n(1) refl refl refl refl refl refl _ u(1)] n(4) f(2)]
      show ?thesis using b n s by (subst send_loop.simps) (simp add: Let_def)
    qed
  next
    case b: False
    show ?thesis
    proof (cases "c_reply c")
      case Nil
      then show ?thesis using b send_result_stop [OF "1.prems"]
        by (subst send_loop.simps) (simp add: unsent_def out_stream_def)
    next
      case (Cons ob reply)
      obtain p where p: "ro_ptr ob = Some p" "sds_ok p" using "1.prems" Cons by (auto simp: send_ok_def)
      show ?thesis
      proof (cases "sdslen p = 0")
        case True
        note e = unsent_empty_node [OF "1.prems" _ Cons p(1) True]
        have "send_result zsize (c\<lparr>c_reply := reply\<rparr>) tot out ws (send_loop zsize limited (c\<lparr>c_reply := reply\<rparr>) tot out ws)"
          using "1.IH"(2) [OF b Cons p(1) True] e b by simp
        then show ?thesis using b Cons p(1) True e(2)
          by (subst send_loop.simps) (auto simp: send_result_def send_frame_def counted_def node_bytes_def sds_str_def)
      next
        case ne: False
        have s: "c_sentlen c < sdslen p" "sdslen p \<le> length (sds_buf p)"
          using "1.prems" b Cons p ne length_sds_str [OF p(2)] by (auto simp: send_ok_def sent_ok_def node_bytes_def sds_ok_def)
        let ?r = "send_chunk (sds_buf p) (c_sentlen c) (sdslen p) ws"
        from send_chunk_ok [OF s, of ws] show ?thesis
        proof (elim disjE exE conjE)
          fix err ws' assume "?r = Some (Inr err, ws')" "\<forall>k ws''. ws = Wrote k # ws'' \<longrightarrow> k = 0" "err \<longrightarrow> Failed \<in> set ws"
          then show ?thesis using b Cons p(1) ne send_result_stop [OF "1.prems"] by (subst send_loop.simps) simp
        next
          fix n ws' assume n: "?r = Some (Inl (n, take n (drop (c_sentlen c) (sds_buf p))), ws')" "0 < n" "c_sentlen c + n \<le> sdslen p"
            "set ws' \<subseteq> set ws"
          let ?c2 = "count_output (if c_sentlen c + n = sdslen p
            then c\<lparr>c_reply := reply, c_sentlen := 0, c_reply_bytes := c_reply_bytes c - zmalloc_size_sds zsize p\<rparr>
            else c\<lparr>c_sentlen := c_sentlen c + n\<rparr>) (tot + n)"
          note u = unsent_node [OF "1.prems" _ Cons p(1) n(3,2) refl, of "c_reply_bytes c - zmalloc_size_sds zsize p" "tot + n"]
          have f: "send_frame c ?c2" "counted zsize c \<Longrightarrow> counted zsize ?c2"
            using Cons p(1) by (simp_all add: send_frame_def count_output_def counted_def reply_mem_def zmalloc_size_sds_def node_mem_def)
          have b0: "c_bufpos c = 0" using b by simp
          from send_result_step [OF u(1) [OF b0] f(1) u(2) [OF b0] n(2) _ "1.IH"(3) [OF b Cons p(1) ne n(1) refl refl refl refl refl refl _ u(1) [OF b0]] n(4) f(2)]
          show ?thesis using b Cons p(1) ne n s by (subst send_loop.simps) (simp add: Let_def)
        qed
      qed
    qed
  qed
qed

section \<open>Properties\<close>

lemma length_node_stream:
  assumes "ob \<in> set (c_reply c)" "ro_ptr ob = Some p" "sds_ok p"
  shows "sdslen p \<le> length (out_stream h c)"
proof -
  have "node_bytes h ob = sds_str p" using assms(2) by (simp add: node_bytes_def)
  then have "length (sds_str p) \<le> length (concat (map (node_bytes h) (c_reply c)))"
    using assms(1) split_list [OF assms(1)] by auto
  then show ?thesis using length_sds_str [OF assms(3)] by (simp add: out_stream_def)
qed

lemma no_hole: "holes c = {} \<Longrightarrow> ob \<in> set (c_reply c) \<Longrightarrow> ro_ptr ob \<noteq> None"
  by (auto simp: holes_def in_set_conv_nth)

lemma out_stream_no_hole:
  assumes "holes c = {}"
  shows "out_stream h c = out_stream [] c"
proof -
  have "map (node_bytes h) (c_reply c) = map (node_bytes []) (c_reply c)"
    using no_hole [OF assms] by (force simp: node_bytes_def split: option.splits)
  then show ?thesis by (simp only: out_stream_def)
qed

text \<open>A client with an empty output, for the examples.\<close>

definition fresh_client :: redisClient where
  "fresh_client = \<lparr>c_id = 1, c_fd = 5, c_flags = {}, c_replstate = 0, c_repl_put_online_on_ack = False, c_reply = [], c_reply_bytes = 0,
     c_sentlen = 0, c_lastinteraction = 0, c_obuf_soft_limit_reached_time = 0, c_bufpos = 0, c_buf = replicate REDIS_REPLY_CHUNK_BYTES 0,
     server_clients_to_close = [], server_stat_net_output_bytes = 0\<rparr>"

definition some_server :: redisServer where
  "some_server = \<lparr>server_unixtime = 100, server_client_obuf_limits =
     (\<lambda>_. \<lparr>hard_limit_bytes = 0, soft_limit_bytes = 0, soft_limit_seconds = 0\<rparr>)\<rparr>"

lemma fresh_client_ok:
  "out_ok zsize fresh_client" "takes_reply fresh_client" "sent_ok fresh_client" "holes fresh_client = {}" "out_stream h fresh_client = []"
  "out_room zsize fresh_client 10" "c_reply fresh_client = []"
  by (simp_all add: fresh_client_def out_ok_def reply_mem_def takes_reply_def sent_ok_def holes_def out_stream_def out_room_def)

text \<open>C5: for a client that takes replies, every reply function appends exactly its bytes of the
  protocol to the stream of the client, the static buffer and then the list, whatever of the two it
  has to use; it keeps the client well formed, the account of the memory exact and the fields that do
  not belong to the output unchanged.\<close>

theorem reply_stream:
  assumes "\<forall>c. ae c" "zsize_ok zsize" "createSharedObjects junk0 = Some shared"
    "arg_is obj t" "sds_is s u f" "len \<le> length b" "len < 2 ^ 32" "0 \<le> sint cnt"
  shows "replies zsize 1 (\<lambda>c. addReply junk zsize server ae c obj) t \<and>
    replies zsize 1 (\<lambda>c. addReplySds junk zsize server ae c s) u \<and>
    replies zsize 1 (\<lambda>c. addReplyString junk zsize server ae c b len) (take len b) \<and>
    replies zsize 3 (\<lambda>c. addReplyErrorLength junk zsize server ae c b len) (bytes_of ''-ERR '' @ take len b @ [13, 10]) \<and>
    replies zsize 3 (\<lambda>c. addReplyStatusLength junk zsize server ae c b len) (bytes_of ''+'' @ take len b @ [13, 10]) \<and>
    replies zsize 1 (\<lambda>c. addReplyLongLong junk zsize server ae shared c v) (bulk_count (ch CHR '':'') (sint v)) \<and>
    replies zsize 1 (\<lambda>c. addReplyMultiBulkLen junk zsize server ae shared c cnt) (bulk_count (ch CHR ''*'') (sint cnt)) \<and>
    replies zsize 3 (\<lambda>c. addReplyBulk junk zsize server ae shared c obj) (bulk_string t) \<and>
    replies zsize 3 (\<lambda>c. addReplyBulkCBuffer junk zsize server ae shared c b len) (bulk_string (take len b)) \<and>
    replies zsize 3 (\<lambda>c. addReplyBulkLongLong junk zsize server ae shared c v) (bulk_string (sdec (sint v)))"
proof -
  have sh: "shared_reply_ok shared" using createSharedObjects_ok [of junk0] assms(3) by auto
  show ?thesis
    by (intro conjI addReply_ok [OF assms(1,2,4)] addReplySds_ok [OF assms(1,2,5)] addReplyString_ok [OF assms(1,2,6,7)]
      addReplyErrorLength_ok [OF assms(1,2,6,7)] addReplyStatusLength_ok [OF assms(1,2,6,7)] addReplyLongLong_ok [OF assms(1,2) sh]
      addReplyMultiBulkLen_ok [OF assms(1,2) sh assms(8)] addReplyBulk_ok [OF assms(1,2) sh assms(4)]
      addReplyBulkCBuffer_ok [OF assms(1,2) sh assms(6,7)] addReplyBulkLongLong_ok [OF assms(1,2) sh])
qed

theorem reply_stream_witness:
  "\<exists>shared c. createSharedObjects (\<lambda>i. 170) = Some shared \<and>
     addReplyBulk (\<lambda>i. 170) (\<lambda>n. n) some_server (\<lambda>c. True) shared fresh_client (Reply_Int (- 12)) = Some c \<and>
     out_stream [] c = [36, 51, 13, 10, 45, 49, 50, 13, 10]"
proof -
  obtain shared where sh: "createSharedObjects (\<lambda>i. 170) = Some shared" using createSharedObjects_ok by blast
  have z: "zsize_ok (\<lambda>n. n)" by (simp add: zsize_ok_def)
  have a: "\<forall>c :: redisClient. (\<lambda>c. True) c" by simp
  have d: "sdec (- 12) = [45, 49, 50]" "sdec 3 = [51]" by (simp_all add: sdec_def dec.simps)
  have t: "arg_is (Reply_Int (- 12)) [45, 49, 50]" by (simp add: arg_is_def d)
  obtain s where s: "sds_is s [] 0" using sdsempty_is by blast
  have "replies (\<lambda>n. n) 3 (\<lambda>c :: redisClient. addReplyBulk (\<lambda>i. 170) (\<lambda>n. n) some_server (\<lambda>c. True) shared c (Reply_Int (- 12)))
      (bulk_string [45, 49, 50])"
    using reply_stream [OF a z sh t s, of 0 "[]" 0 "\<lambda>i. 170" some_server 0] by simp
  moreover have "bulk_string [45, 49, 50] = [36, 51, 13, 10, 45, 49, 50, 13, 10]" by (simp add: bulk_string_def bulk_count_def d)
  moreover have "out_room (\<lambda>n. n) fresh_client 3" using out_room_mono [OF fresh_client_ok(6)] by simp
  ultimately show ?thesis
    using sh fresh_client_ok(1,2,5) unfolding replies_def appends_def by fastforce
qed

text \<open>C33: a reply whose number of elements is not known in advance: after
  \<open>addDeferredMultiBulkLength\<close>, any replies, and \<open>setDeferredMultiBulkLength\<close>, the stream has grown by
  the header with the length and then the replies, glued to the following node or not.\<close>

theorem reply_deferred:
  assumes "\<forall>c. ae c" "zsize_ok zsize" "out_ok zsize c" "takes_reply c" "sent_ok c" "holes c = {}" "out_room zsize c (n + 1)"
    "replies zsize n f b" "length (out_stream [] c) + length b + 2 ^ 21 < 2 ^ 32"
  shows "\<exists>c1 node c2 c3. addDeferredMultiBulkLength ae c = (c1, node) \<and> f c1 = Some c2 \<and>
    setDeferredMultiBulkLength junk zsize server c2 node (sint (v :: u64)) = Some c3 \<and>
    out_stream [] c3 = out_stream [] c @ bulk_count (ch CHR ''*'') (sint v) @ b \<and> out_ok zsize c3 \<and> sent_ok c3 \<and> holes c3 = {}"
proof -
  let ?n = "length (c_reply c)"
  obtain c1 where c1: "addDeferredMultiBulkLength ae c = (c1, Some ?n)" "out_ok zsize c1" "out_frame c c1" "sent_ok c1"
      "\<And>h. out_stream h c1 = out_stream h c @ h" "holes c1 = {?n}" "reply_mem zsize c1 = reply_mem zsize c"
    using addDeferred_ok [OF assms(3,4,1,5)] assms(6) by auto
  have "takes_reply c1" using takes_reply_frame [OF c1(3)] assms(4) by simp
  moreover have "out_room zsize c1 (n + 1)" using assms(7) c1(7) by (simp add: out_room_def)
  ultimately obtain c2 where c2: "f c1 = Some c2" "appends zsize n c1 b c2" "out_room zsize c2 1"
    using assms(8) c1(2) out_room_mono [of zsize c1 "n + 1" n] out_room_appends unfolding replies_def by fastforce
  have h2: "holes c2 = {?n}" "sent_ok c2" "out_ok zsize c2" using c2(2) c1(4,6) by (auto simp: appends_def)
  have st: "out_stream h c2 = out_stream h c @ h @ b" for h using c2(2) c1(5) by (simp add: appends_def)
  have "sdslen p + 2 ^ 21 < 2 ^ 32" if "ob \<in> set (c_reply c2)" "ro_ptr ob = Some p" for ob p
  proof -
    have "sds_ok p" using that h2(3) by (auto simp: out_ok_def list_all_iff node_ok_def)
    then show ?thesis using length_node_stream [OF that, of "[]"] st [of "[]"] assms(9) by simp
  qed
  then obtain c3 where c3: "setDeferredMultiBulkLength junk zsize server c2 (Some ?n) (sint v) = Some c3"
      "filled zsize c2 (bulk_count (ch CHR ''*'') (sint v)) c3"
    using setDeferred_ok [OF h2(3) assms(2) c2(3) h2(1), of junk server v] by blast
  show ?thesis using c1(1) c2(1) c3 st h2(2) out_stream_no_hole [OF assms(6)] by (auto simp: filled_def)
qed

theorem reply_deferred_witness:
  "\<exists>c1 node c2 c3. addDeferredMultiBulkLength (\<lambda>c. True) fresh_client = (c1, node) \<and>
    addReplyString (\<lambda>i. 170) (\<lambda>n. n) some_server (\<lambda>c. True) c1 [36, 48, 13, 10, 13, 10] 6 = Some c2 \<and>
    setDeferredMultiBulkLength (\<lambda>i. 170) (\<lambda>n. n) some_server c2 node (sint (1 :: u64)) = Some c3 \<and>
    out_stream [] c3 = [42, 49, 13, 10, 36, 48, 13, 10, 13, 10]"
proof -
  have z: "zsize_ok (\<lambda>n. n)" by (simp add: zsize_ok_def)
  have a: "\<forall>c :: redisClient. (\<lambda>c. True) c" by simp
  have r: "replies (\<lambda>n. n) 1 (\<lambda>c :: redisClient. addReplyString (\<lambda>i. 170) (\<lambda>n. n) some_server (\<lambda>c. True) c [36, 48, 13, 10, 13, 10] 6)
      [36, 48, 13, 10, 13, 10]"
    using addReplyString_ok [OF a z, of 6 "[36, 48, 13, 10, 13, 10]" "\<lambda>i. 170" some_server] by simp
  have m: "out_room (\<lambda>n. n) fresh_client (1 + 1)" using out_room_mono [OF fresh_client_ok(6)] by simp
  have b: "bulk_count (ch CHR ''*'') (sint (1 :: u64)) = [42, 49, 13, 10]" by (simp add: bulk_count_def sdec_def dec.simps)
  have l: "length (out_stream [] fresh_client) + length [36, 48, 13, 10, 13, 10 :: byte] + 2 ^ 21 < 2 ^ 32" by (simp add: fresh_client_ok(5))
  from reply_deferred [OF a z fresh_client_ok(1-4) m r l, of "\<lambda>i. 170" some_server 1] show ?thesis
    unfolding b fresh_client_ok(5) append_Nil by auto
qed

lemma sendReply_ok:
  assumes "out_ok zsize c" "holes c = {}" "sent_ok c"
  shows "\<exists>out r. sendReplyToClient zsize server limited c ws = Some (out, r) \<and>
    (\<forall>k ws'. ws = Wrote k # ws' \<and> 0 < k \<and> unsent c \<noteq> [] \<longrightarrow> out \<noteq> []) \<and>
    (case r of
       None \<Rightarrow> (\<exists>rest. out @ rest = unsent c) \<and> (Failed \<notin> set ws \<longrightarrow> out = unsent c \<and> REDIS_CLOSE_AFTER_REPLY \<in> c_flags c)
     | Some c' \<Rightarrow> out @ unsent c' = unsent c \<and> send_ok c' \<and> c_flags c' = c_flags c \<and>
         (counted zsize c \<longrightarrow> c_reply_bytes c' = of_nat (reply_mem zsize c')))"
proof -
  have ok: "send_ok c" by (rule out_ok_send_ok [OF assms])
  obtain c1 d err where l: "send_loop zsize limited c 0 [] ws = Some (c1, length d, d, err)" "send_ok c1" "send_frame c c1" "d @ unsent c1 = unsent c"
      "d = [] \<longrightarrow> unsent c \<noteq> [] \<longrightarrow> (\<forall>k ws'. ws = Wrote k # ws' \<longrightarrow> k = 0)" "err \<longrightarrow> Failed \<in> set ws" "counted zsize c \<longrightarrow> counted zsize c1"
    using send_loop_ok [OF ok, of zsize 0 "[]" ws limited] by (auto simp: send_result_def)
  have fl: "c_flags c1 = c_flags c" using l(3) by (simp add: send_frame_def)
  define c2 where "c2 = (if length d > 0 \<and> REDIS_MASTER \<notin> c_flags c1 then c1\<lparr>c_lastinteraction := server_unixtime server\<rparr> else c1)"
  have c2: "send_ok c2" "unsent c2 = unsent c1" "c_flags c2 = c_flags c" "c_bufpos c2 = c_bufpos c1" "c_reply c2 = c_reply c1"
      "c_reply_bytes c2 = c_reply_bytes c1" "reply_mem zsize c2 = reply_mem zsize c1"
    using l(2) fl by (simp_all add: c2_def send_ok_def sent_ok_def unsent_def out_stream_def reply_mem_def split: list.splits)
  have run: "sendReplyToClient zsize server limited c ws =
      (if err then Some (d, None)
       else if c_bufpos c2 = 0 \<and> length (c_reply c2) = 0
         then Some (d, if REDIS_CLOSE_AFTER_REPLY \<in> c_flags c2 then None else Some (c2\<lparr>c_sentlen := 0\<rparr>))
         else Some (d, Some c2))"
    by (simp add: sendReplyToClient_def l(1) Let_def c2_def)
  have z: "unsent c1 = []" "send_ok (c2\<lparr>c_sentlen := 0\<rparr>)" "unsent (c2\<lparr>c_sentlen := 0\<rparr>) = []" "reply_mem zsize (c2\<lparr>c_sentlen := 0\<rparr>) = reply_mem zsize c1"
    if "c_bufpos c2 = 0" "length (c_reply c2) = 0"
    using that c2 by (simp_all add: unsent_def out_stream_def send_ok_def sent_ok_def reply_mem_def)
  have prog: "\<forall>k ws'. ws = Wrote k # ws' \<and> 0 < k \<and> unsent c \<noteq> [] \<longrightarrow> d \<noteq> []" using l(5) by auto
  have cnt: "counted zsize c \<longrightarrow> c_reply_bytes c1 = of_nat (reply_mem zsize c1)" using l(7) by (auto simp: counted_def)
  consider "err" | "\<not> err" "c_bufpos c2 = 0 \<and> length (c_reply c2) = 0" | "\<not> err" "\<not> (c_bufpos c2 = 0 \<and> length (c_reply c2) = 0)" by blast
  then show ?thesis
  proof cases
    case 1
    then show ?thesis unfolding run using prog l(4,6) by auto
  next
    case 2
    show ?thesis
      unfolding run if_not_P [OF 2(1)] if_P [OF 2(2)] using prog l(4) z 2(2) c2(3,6) cnt by auto
  next
    case 3
    show ?thesis
      unfolding run if_not_P [OF 3(1)] if_not_P [OF 3(2)] using prog l(4) c2 cnt by auto
  qed
qed




definition client_ok :: "(nat \<Rightarrow> nat) \<Rightarrow> 'a redisClient_scheme \<Rightarrow> bool" where
  "client_ok zsize c \<longleftrightarrow> out_ok zsize c \<and> sent_ok c"

lemma client_ok_appends: "client_ok zsize c \<Longrightarrow> appends zsize n c b c' \<Longrightarrow> client_ok zsize c'"
  by (simp add: client_ok_def appends_def)

lemma copyClientOutputBuffer_ok:
  assumes "client_ok zsize dst" "client_ok zsize src" "c_sentlen dst = 0"
  shows "\<exists>c'. copyClientOutputBuffer dst src = Some c' \<and> client_ok zsize c' \<and> (\<forall>h. out_stream h c' = out_stream h src)"
proof -
  define b where "b = take (c_bufpos src) (c_buf src) @ drop (c_bufpos src) (c_buf dst)"
  define l where "l = map (\<lambda>ob. ob\<lparr>ro_refcount := ro_refcount ob + 1\<rparr>) (c_reply src)"
  have s: "length (c_buf src) = REDIS_REPLY_CHUNK_BYTES" "c_bufpos src \<le> REDIS_REPLY_CHUNK_BYTES" "length (c_buf dst) = REDIS_REPLY_CHUNK_BYTES"
    using assms(1,2) by (simp_all add: client_ok_def out_ok_def)
  have l: "map (node_bytes h) l = map (node_bytes h) (c_reply src)" "map (node_mem zsize) l = map (node_mem zsize) (c_reply src)"
      "list_all node_ok l = list_all node_ok (c_reply src)" for h
    by (simp_all add: l_def node_bytes_def node_mem_def node_ok_def list_all_iff)
  let ?c = "dst\<lparr>c_reply := l, c_buf := b, c_bufpos := c_bufpos src, c_reply_bytes := c_reply_bytes src\<rparr>"
  have "out_ok zsize ?c" using assms(2) s l by (simp add: client_ok_def out_ok_def reply_mem_def b_def)
  moreover have "sent_ok ?c" using assms(3) by (auto simp: sent_ok_def split: list.splits)
  moreover have "out_stream h ?c = out_stream h src" for h using s l by (simp add: out_stream_def b_def)
  moreover have "copyClientOutputBuffer dst src = Some ?c"
    using s by (simp add: copyClientOutputBuffer_def memread_def memwrite_def b_def l_def)
  ultimately show ?thesis by (auto simp: client_ok_def)
qed

lemma send_ok_client_ok:
  assumes "send_ok c" "c_reply_bytes c = of_nat (reply_mem zsize c)"
  shows "client_ok zsize c"
  using assms by (auto simp: send_ok_def client_ok_def out_ok_def list_all_iff node_ok_def split: option.splits)



end
