(* ===== verification/Query_Props.thy ===== *)
theory Query_Props
  imports Query Reply_Props
begin

text \<open>
  What the input functions of \<open>Query\<close> do to the stream of bytes a client sends: commands that arrive in
  any pieces are run one after the other with their arguments, a malformed request is answered and
  ends the connection, and the line protocol loses a byte after a bare newline.
\<close>

section \<open>Buffers\<close>

lemma strchr_found:
  assumes "c \<notin> set h" "0 \<notin> set h"
  shows "strchr_at (p @ h @ c # r) (length p) c = Some (Some (length p + length h))"
proof -
  have "takeWhile (\<lambda>x. x \<noteq> c \<and> x \<noteq> 0) (h @ c # r) = h" using assms by (subst takeWhile_append2) auto
  then show ?thesis by (simp add: strchr_at_def rd_def nth_append)
qed

lemma strchr_none:
  assumes "c \<notin> set h" "0 \<notin> set h" "c \<noteq> 0"
  shows "strchr_at (p @ h @ 0 # r) (length p) c = Some None"
proof -
  have "takeWhile (\<lambda>x. x \<noteq> c \<and> x \<noteq> 0) (h @ 0 # r) = h" using assms by (subst takeWhile_append2) auto
  then show ?thesis using assms(3) by (simp add: strchr_at_def rd_def nth_append)
qed

lemma sdsrange_tail:
  assumes "sds_is q t f" "length t < 2 ^ 31" "pos < 2 ^ 31"
  shows "\<exists>q' f'. sdsrange q (of_nat pos) (- 1) = Some q' \<and> sds_is q' (drop pos t) f'"
proof -
  have "range_of t (sint (of_nat pos :: u32)) (sint (- 1 :: u32)) = drop pos t"
    using sint_of_nat_u32 [OF assms(3)] by (auto simp: range_of_def range_pos_def Let_def)
  then show ?thesis using sdsrange_is [OF assms(1,2), of "of_nat pos" "- 1"] by simp
qed

lemma sdsIncrLen_shrink:
  assumes "sds_is q (t @ [a, b]) f"
  shows "\<exists>q'. sdsIncrLen q (- 2) = Some q' \<and> sds_is q' t (f + 2)"
proof -
  obtain r where q: "q = \<lparr>sds_len = of_nat (length (t @ [a, b])), sds_free = of_nat f, sds_buf = (t @ [a, b]) @ 0 # r\<rparr>"
    "length r = f" "length (t @ [a, b]) + f < 2 ^ 32"
    using sds_is_cases [OF assms] by blast
  have l: "sds_len q + - 2 = of_nat (length t)" "sds_free q - - 2 = of_nat (f + 2)" by (simp_all add: q(1))
  have u: "unat (of_nat (length t) :: u32) = length t" using q(3) by (intro unat_of_nat_u32) simp
  have g: "2 \<le> sds_len q"
    using unat_of_nat_u32 [of "length (t @ [a, b])"] q(3) by (simp add: q(1) word_le_nat_alt)
  have w: "wr (sds_buf q) (length t) 0 = Some (t @ 0 # b # 0 # r)" using wr_at [of t "length t" a "b # 0 # r" 0] by (simp add: q(1))
  have "sdsIncrLen q (- 2) = Some \<lparr>sds_len = of_nat (length t), sds_free = of_nat (f + 2), sds_buf = t @ 0 # b # 0 # r\<rparr>"
    using g unfolding sdsIncrLen_def l Let_def u w by simp
  then show ?thesis using q(2,3) by (simp add: sds_is_buf)
qed

lemma sdsIncrLen_grow:
  assumes "sds_is q t f" "length d \<le> f" "length d < 2 ^ 31"
  shows "\<exists>b q'. memwrite (sds_buf q) (length t) d = Some b \<and> sdsIncrLen (q\<lparr>sds_buf := b\<rparr>) (of_nat (length d)) = Some q' \<and>
    sds_is q' (t @ d) (f - length d)"
proof -
  obtain r where q: "q = \<lparr>sds_len = of_nat (length t), sds_free = of_nat f, sds_buf = t @ 0 # r\<rparr>"
    "length r = f" "length t + f < 2 ^ 32"
    using sds_is_cases [OF assms(1)] by blast
  have ld: "length d < length (0 # r)" using assms(2) q(2) by simp
  obtain x y where xy: "0 # r = x @ y" "length x = length d" using split_prefix [of "length d" "0 # r"] ld by auto
  obtain z y' where y: "y = z # y'" using xy ld by (cases y) auto
  have ly: "length y' = f - length d" using arg_cong [OF xy(1), of length] xy(2) q(2) y by simp
  have m: "memwrite (sds_buf q) (length t) d = Some (t @ d @ z # y')"
    using memwrite_at [of t "length t" x d y] xy by (simp add: q(1) y)
  let ?q = "q\<lparr>sds_buf := t @ d @ z # y'\<rparr>"
  have l: "sds_len ?q + of_nat (length d) = of_nat (length (t @ d))" "sds_free ?q - of_nat (length d) = of_nat (f - length d)"
    using assms(2) by (simp_all add: q(1) of_nat_diff)
  have u: "unat (of_nat (length (t @ d)) :: u32) = length (t @ d)" using q(3) assms(2) by (intro unat_of_nat_u32) simp
  have s: "0 \<le> sint (of_nat (length d) :: u32)" using sint_of_nat_u32 [OF assms(3)] by simp
  have g: "of_nat (length d) \<le> sds_free ?q"
    using unat_of_nat_u32 [of "length d"] unat_of_nat_u32 [of f] q(3) assms(2) by (simp add: q(1) word_le_nat_alt)
  have w: "wr (sds_buf ?q) (length (t @ d)) 0 = Some ((t @ d) @ 0 # y')" using wr_at [of "t @ d" "length (t @ d)" z y' 0] by simp
  have "sdsIncrLen ?q (of_nat (length d)) =
      Some \<lparr>sds_len = of_nat (length (t @ d)), sds_free = of_nat (f - length d), sds_buf = (t @ d) @ 0 # y'\<rparr>"
    using g s unfolding sdsIncrLen_def l Let_def u w by simp
  moreover have "sds_is \<lparr>sds_len = of_nat (length (t @ d)), sds_free = of_nat (f - length d), sds_buf = (t @ d) @ 0 # y'\<rparr> (t @ d) (f - length d)"
    using q(3) assms(2) ly unfolding sds_is_buf by auto
  ultimately show ?thesis using m by blast
qed

section \<open>Arguments\<close>

text \<open>How far a header with its line end has arrived.\<close>

lemma header_cut:
  assumes "u @ fut = h @ 13 # 10 # rest"
  obtains (part) z where "h = u @ z" | (cr) "u = h @ [13]" | (whole) v where "u = h @ 13 # 10 # v" "v @ fut = rest"
proof -
  from assms obtain w where "u = h @ w \<and> w @ fut = 13 # 10 # rest \<or> u @ w = h"
    unfolding append_eq_append_conv2 by blast
  then consider "h = u @ w" | "u = h @ w" "w = []" | w' where "u = h @ 13 # w'" "w' @ fut = 10 # rest"
    by (cases w) auto
  then show ?thesis
  proof cases
    case 3
    then show ?thesis using that(2,3) by (cases w') auto
  qed (use part in auto)
qed

lemma sdec_no_cr: "13 \<notin> set (sdec n)" "10 \<notin> set (sdec n)"
proof -
  have "13 \<notin> set (dec k)" "10 \<notin> set (dec k)" for k using dec_isdigit [of k] by (auto simp: list_all_iff)
  then show "13 \<notin> set (sdec n)" "10 \<notin> set (sdec n)" by (auto simp: sdec_def)
qed

lemma header_chars:
  assumes "n < 2 ^ 31" "c \<noteq> 0" "c \<noteq> 13"
  shows "13 \<notin> set (c # sdec (int n))" "0 \<notin> set (c # sdec (int n))" "length (c # sdec (int n)) \<le> 21" "10 \<notin> set (sdec (int n))"
    "string2ll (sdec (int n)) = Some (of_nat n)" "sint (of_nat n :: u64) = int n"
proof -
  show s: "sint (of_nat n :: u64) = int n" using assms(1) by (intro sint_of_nat_u64) simp
  show "13 \<notin> set (c # sdec (int n))" "0 \<notin> set (c # sdec (int n))" using assms(2,3) sdec_no_cr sdec_nonzero by auto
  show "length (c # sdec (int n)) \<le> 21" using sdec_length_word [of "of_nat n"] by (simp add: s)
  show "10 \<notin> set (sdec (int n))" by (rule sdec_no_cr(2))
  show "string2ll (sdec (int n)) = Some (of_nat n)" by (simp add: string2ll_iff s)
qed

lemma sds_is_sint: "sds_is q t f \<Longrightarrow> length t < 2 ^ 31 \<Longrightarrow> sint (sds_len q) = int (length t)"
  using sint_of_nat_u32 [of "length t"] by (auto elim!: sds_is_cases)

lemma sds_is_first: "sds_is q t f \<Longrightarrow> t \<noteq> [] \<Longrightarrow> rd (sds_buf q) 0 = Some (hd t)"
  by (cases t) (auto elim!: sds_is_cases simp: rd_def)

text \<open>The end of \<open>bulk_length\<close>: a large argument is moved to the front of the buffer.\<close>

lemma big_arg_room:
  assumes "sds_is q t f" "length t \<le> REDIS_INLINE_MAX_SIZE" "m \<le> length t" "n \<le> 512 * 1024 * 1024"
  shows "\<exists>q1 f'. sdsrange q (of_nat m) (- 1) = Some q1 \<and>
    sds_is (if sdslen q1 < n + 2 then sdsMakeRoomFor junk q1 (n + 2 - sdslen q1) else q1) (drop m t) f'"
proof -
  obtain q1 f1 where q1: "sdsrange q (of_nat m) (- 1) = Some q1" "sds_is q1 (drop m t) f1"
    using sdsrange_tail [OF assms(1), of m] assms(2,3) by auto
  have "length (drop m t) + (n + 2 - sdslen q1) + SDS_MAX_PREALLOC < 2 ^ 32" using assms(2,4) by simp
  from sdsMakeRoomFor_is [OF q1(2) this, of junk] show ?thesis using q1 by auto
qed

lemma bulk_length_ok:
  fixes c :: "'a queryClient_scheme"
  assumes "c_bulklen c = - 1" "sds_is (c_querybuf c) (p @ u) f" "length (p @ u) \<le> REDIS_INLINE_MAX_SIZE"
    "u @ fut = bulk_string a @ E" "length a \<le> 512 * 1024 * 1024"
  shows "bulk_length junk zsize server ae c (length p) = Some (Break c (length p)) \<and> length u \<le> 23 \<and> 10 \<notin> set u \<or>
    (\<exists>q' p' u' f'. bulk_length junk zsize server ae c (length p) =
        Some (Go (c\<lparr>c_querybuf := q', c_bulklen := int (length a)\<rparr>) (length p')) \<and>
      sds_is q' (p' @ u') f' \<and> u' @ fut = a @ [13, 10] @ E \<and> length (p' @ u') \<le> REDIS_INLINE_MAX_SIZE \<and>
      (REDIS_MBULK_BIG_ARG \<le> int (length a) \<longrightarrow> p' = []))"
proof -
  define h where "h = ch CHR ''$'' # sdec (int (length a))"
  have hc: "13 \<notin> set h" "0 \<notin> set h" "length h \<le> 21" "string2ll (sdec (int (length a))) = Some (of_nat (length a))"
    "sint (of_nat (length a) :: u64) = int (length a)"
    using header_chars [of "length a" "ch CHR ''$''"] assms(5) by (simp_all add: h_def)
  have lf: "10 \<notin> set h" using sdec_no_cr(2) by (simp add: h_def)
  have e: "u @ fut = h @ 13 # 10 # a @ [13, 10] @ E" using assms(4) by (simp add: bulk_string_def bulk_count_def h_def)
  obtain r where q: "sds_buf (c_querybuf c) = (p @ u) @ 0 # r" using sds_is_cases [OF assms(2)] by (metis sds.select_convs(3))
  have len: "sdslen (c_querybuf c) = length (p @ u)" "sint (sds_len (c_querybuf c)) = int (length (p @ u))"
    using sds_isD(3) [OF assms(2)] sds_is_sint [OF assms(2)] assms(3) by simp_all
  from e show ?thesis
  proof (cases rule: header_cut)
    case (part z)
    then have "strchr_at (sds_buf (c_querybuf c)) (length p) 13 = Some None"
      using strchr_none [of 13 u p r] hc(1,2) by (simp add: q)
    then have "bulk_length junk zsize server ae c (length p) = Some (Break c (length p))"
      using assms(1,3) by (simp add: bulk_length_def len(1))
    then show ?thesis using arg_cong [OF part, of length] hc(3) lf part by simp
  next
    case cr
    then have "strchr_at (sds_buf (c_querybuf c)) (length p) 13 = Some (Some (length p + length h))"
      using strchr_found [of 13 h p "0 # r"] hc(1,2) by (simp add: q)
    then have "bulk_length junk zsize server ae c (length p) = Some (Break c (length p))"
      using assms(1) cr by (simp add: bulk_length_def len(2))
    then show ?thesis using cr hc(3) lf by simp
  next
    case (whole v)
    let ?n = "length p + length h"
    have s: "strchr_at (sds_buf (c_querybuf c)) (length p) 13 = Some (Some ?n)"
      using strchr_found [of 13 h p "10 # v @ 0 # r"] hc(1,2) whole(1) by (simp add: q)
    have b: "rd (sds_buf (c_querybuf c)) (length p) = Some (ch CHR ''$'')" by (simp add: q rd_def nth_append whole(1) h_def)
    have m: "memread (sds_buf (c_querybuf c)) (length p + 1) (?n - (length p + 1)) = Some (sdec (int (length a)))"
      by (simp add: q memread_def whole(1) h_def)
    have c: "\<not> int ?n > sint (sds_len (c_querybuf c)) - 2" by (simp add: len(2) whole(1))
    have d: "drop (?n + 2) (p @ u) = v" by (simp add: whole(1))
    show ?thesis
    proof (cases "REDIS_MBULK_BIG_ARG \<le> int (length a)")
      case True
      obtain q1 f' where q1: "sdsrange (c_querybuf c) (of_nat (?n + 2)) (- 1) = Some q1"
        "sds_is (if sdslen q1 < length a + 2 then sdsMakeRoomFor junk q1 (length a + 2 - sdslen q1) else q1) v f'"
        using big_arg_room [OF assms(2,3) _ assms(5), of "?n + 2" junk] unfolding d by (auto simp: whole(1))
      define q' where "q' = (if sdslen q1 < length a + 2 then sdsMakeRoomFor junk q1 (length a + 2 - sdslen q1) else q1)"
      have "bulk_length junk zsize server ae c (length p) = Some (Go (c\<lparr>c_querybuf := q', c_bulklen := int (length a)\<rparr>) (length []))"
        unfolding bulk_length_def Let_def s bind.simps option.case if_not_P [OF c] b m hc(4) q1(1)
        using assms(1,5) True hc(5) by (simp add: q1(1) [simplified] q'_def)
      moreover have "sds_is q' ([] @ v) f'" using q1(2) by (simp only: q'_def append_Nil)
      moreover have "length ([] @ v) \<le> REDIS_INLINE_MAX_SIZE" using assms(3) by (simp add: whole(1))
      ultimately show ?thesis using whole(2) by blast
    next
      case False
      let ?p = "p @ h @ [13, 10]"
      have "bulk_length junk zsize server ae c (length p) =
          Some (Go (c\<lparr>c_querybuf := c_querybuf c, c_bulklen := int (length a)\<rparr>) (length ?p))"
        unfolding bulk_length_def Let_def s bind.simps option.case if_not_P [OF c] b m hc(4)
        using assms(1,5) False hc(5) by simp
      moreover have "sds_is (c_querybuf c) (?p @ v) f" "length (?p @ v) \<le> REDIS_INLINE_MAX_SIZE"
        using assms(2,3) by (simp_all add: whole(1))
      ultimately show ?thesis using whole(2) False by blast
    qed
  qed
qed

lemma append_cut:
  assumes "u @ v = x @ y" "length x \<le> length u"
  obtains w where "u = x @ w" "w @ v = y"
proof
  show u: "u = x @ drop (length x) u" using assms by (metis append_eq_conv_conj append_take_drop_id take_append take_all_iff length_append diff_is_0_eq' append_Nil2 take_0)
  show "drop (length x) u @ v = y" using assms(1) u by (metis append.assoc same_append_eq)
qed

lemma bulk_enough:
  assumes "pos + m = n" "n < 2 ^ 32" "k \<le> 512 * 1024 * 1024"
  shows "(of_nat n - of_nat pos :: u64) < ucast (word_of_int (int k + 2) :: u32) \<longleftrightarrow> m < k + 2"
proof -
  have "(of_nat n - of_nat pos :: u64) = of_nat m" using assms(1) by auto
  moreover have "unat (of_nat m :: u64) = m" using assms(1,2) by (intro unat_of_nat_small) simp
  moreover have "(word_of_int (int k + 2) :: u32) = of_nat (k + 2)" by simp
  moreover have "unat (of_nat (k + 2) :: u32) = k + 2" using assms(3) by (intro unat_of_nat_u32) simp
  then have "unat (ucast (of_nat (k + 2) :: u32) :: u64) = k + 2" by (subst unat_ucast_up) simp_all
  ultimately show ?thesis by (simp only: word_less_nat_alt)
qed

lemma read_bulk_ok:
  fixes c :: "'a queryClient_scheme"
  assumes "c_bulklen c = int (length a)" "sds_is (c_querybuf c) (p @ u) f" "u @ fut = a @ [13, 10] @ E"
    "length a \<le> 512 * 1024 * 1024" "length (c_argv c) < c_argv_size c"
    "length (p @ u) \<le> REDIS_INLINE_MAX_SIZE \<or> p = [] \<and> REDIS_MBULK_BIG_ARG \<le> int (length a) \<and> length u \<le> length a + 2"
  shows "read_bulk junk c (length p) = Some (Break c (length p)) \<and> length u < length a + 2 \<or>
    (\<exists>s g q' p' u' f'. read_bulk junk c (length p) = Some (Go (c\<lparr>c_querybuf := q', c_argv := c_argv c @ [s], c_bulklen := - 1,
        c_multibulklen := c_multibulklen c - 1\<rparr>) (length p')) \<and>
      sds_is s a g \<and> sds_is q' (p' @ u') f' \<and> u' @ fut = E \<and> length (p' @ u') \<le> REDIS_INLINE_MAX_SIZE)"
proof -
  let ?q = "c_querybuf c"
  have lt: "length (p @ u) < 2 ^ 31" using assms(4,6) by auto
  have len: "sdslen ?q = length (p @ u)" "sint (sds_len ?q) = int (length (p @ u))"
    using sds_isD(3) [OF assms(2)] sds_is_sint [OF assms(2) lt] by simp_all
  have cmp: "(of_nat (sdslen ?q) - of_nat (length p) :: u64) < ucast (word_of_int (c_bulklen c + 2) :: u32) \<longleftrightarrow> length u < length a + 2"
    unfolding assms(1) len(1) using lt assms(4) by (intro bulk_enough) simp_all
  show ?thesis
  proof (cases "length u < length a + 2")
    case True
    have "read_bulk junk c (length p) = Some (Break c (length p))" unfolding read_bulk_def Let_def if_P [OF cmp [THEN iffD2, OF True]] ..
    then show ?thesis using True by blast
  next
    case False
    note nb = if_not_P [OF cmp [THEN arg_cong [of _ _ Not], THEN iffD2, OF False]]
    obtain v where v: "u = a @ [13, 10] @ v" "v @ fut = E"
      using append_cut [of u fut "a @ [13, 10]" E] assms(3) False by auto
    show ?thesis
    proof (cases "p = [] \<and> REDIS_MBULK_BIG_ARG \<le> int (length a) \<and> v = []")
      case True
      obtain s where s: "sdsIncrLen ?q (- 2) = Some s" "sds_is s a (f + 2)"
        using sdsIncrLen_shrink [of ?q a 13 10 f] assms(2) True by (auto simp: v(1))
      obtain q0 where q0: "sdsempty junk = Some q0" "sds_is q0 [] 0" using sdsempty_is by blast
      obtain f' where f': "sds_is (sdsMakeRoomFor junk q0 (length a + 2)) [] f'"
        using sdsMakeRoomFor_is [OF q0(2), of "length a + 2" junk] assms(4) by auto
      have "read_bulk junk c (length p) = Some (Go (c\<lparr>c_querybuf := sdsMakeRoomFor junk q0 (length a + 2), c_argv := c_argv c @ [s],
          c_bulklen := - 1, c_multibulklen := c_multibulklen c - 1\<rparr>) (length []))"
        unfolding read_bulk_def Let_def nb using True assms(1,5) by (simp add: len(2) v(1) s(1) q0(1) argv_push_def nat_add_distrib)
      moreover have "length ([] @ v) \<le> REDIS_INLINE_MAX_SIZE" using True by simp
      ultimately show ?thesis using s(2) f' v(2) True by (metis append_Nil)
    next
      case no: False
      then have bd: "length (p @ u) \<le> REDIS_INLINE_MAX_SIZE" using assms(6) by (auto simp: v(1))
      obtain r where r: "sds_buf ?q = (p @ u) @ 0 # r" using sds_is_cases [OF assms(2)] by (metis sds.select_convs(3))
      obtain s where s: "sdsnewlen junk (Some (drop (length p) (sds_buf ?q))) (length a) = Some s" "sds_is s a 0"
        using sdsnewlen_is [of "length a" "drop (length p) (sds_buf ?q)" junk] assms(4) by (auto simp: r v(1))
      have cond: "\<not> (length p = 0 \<and> REDIS_MBULK_BIG_ARG \<le> c_bulklen c \<and> sint (sds_len ?q) = c_bulklen c + 2)"
        using no by (auto simp: assms(1) len(2) v(1))
      have "read_bulk junk c (length p) = Some (Go (c\<lparr>c_querybuf := ?q, c_argv := c_argv c @ [s], c_bulklen := - 1,
          c_multibulklen := c_multibulklen c - 1\<rparr>) (length (p @ a @ [13, 10])))"
        unfolding read_bulk_def Let_def nb if_not_P [OF cond] using assms(1,5) s(1) by (simp add: argv_push_def nat_add_distrib)
      moreover have "sds_is ?q ((p @ a @ [13, 10]) @ v) f" "length ((p @ a @ [13, 10]) @ v) \<le> REDIS_INLINE_MAX_SIZE"
        using assms(2) bd by (simp_all add: v(1))
      ultimately show ?thesis using s(2) v(2) by blast
    qed
  qed
qed

section \<open>Commands\<close>

definition command_bytes :: "byte list list \<Rightarrow> byte list" where
  "command_bytes args = bulk_count (ch CHR ''*'') (int (length args)) @ concat (map bulk_string args)"

definition command_ok :: "byte list list \<Rightarrow> bool" where
  "command_ok args \<longleftrightarrow> args \<noteq> [] \<and> length args \<le> 1024 * 1024 \<and> (\<forall>a\<in>set args. length a \<le> 512 * 1024 * 1024)"

text \<open>The rest of a command: the arguments \<open>as\<close> are missing, of which the first may have its length read.\<close>

definition rest_bytes :: "int \<Rightarrow> byte list list \<Rightarrow> byte list" where
  "rest_bytes bulklen as =
     (if bulklen = - 1 then concat (map bulk_string as) else hd as @ [13, 10] @ concat (map bulk_string (tl as)))"

definition in_command :: "'a queryClient_scheme \<Rightarrow> byte list list \<Rightarrow> byte list list \<Rightarrow> bool" where
  "in_command c dn as \<longleftrightarrow> map sds_str (c_argv c) = dn \<and> c_multibulklen c = length as \<and> c_argv_size c = length dn + length as \<and>
     (\<forall>a\<in>set as. length a \<le> 512 * 1024 * 1024) \<and> (c_bulklen c = - 1 \<or> as \<noteq> [] \<and> c_bulklen c = int (length (hd as)))"

text \<open>How much may be waiting in the buffer: before the parser runs, and after it.\<close>

definition waiting :: "'a queryClient_scheme \<Rightarrow> byte list \<Rightarrow> bool" where
  "waiting c u \<longleftrightarrow> (if c_bulklen c = - 1 then length u \<le> 23 \<and> 10 \<notin> set u else int (length u) < c_bulklen c + 2)"

definition loaded :: "'a queryClient_scheme \<Rightarrow> nat \<Rightarrow> bool" where
  "loaded c n \<longleftrightarrow> n \<le> REDIS_INLINE_MAX_SIZE \<or> REDIS_MBULK_BIG_ARG \<le> c_bulklen c \<and> int n \<le> c_bulklen c + 2"

definition input_frame :: "'a queryClient_scheme \<Rightarrow> 'a queryClient_scheme \<Rightarrow> bool" where
  "input_frame c c' \<longleftrightarrow> c_flags c' = c_flags c \<and> c_reqtype c' = c_reqtype c \<and> queryClient.more c' = queryClient.more c"

text \<open>The result of the loop on the command \<open>args\<close> that the bytes \<open>E\<close> follow, where \<open>fut\<close> has not arrived.\<close>

definition parsed ::
    "'a queryClient_scheme \<Rightarrow> byte list \<Rightarrow> byte list list \<Rightarrow> byte list \<Rightarrow> 'a queryClient_scheme mbulk option \<Rightarrow> bool" where
  "parsed c fut args E r \<longleftrightarrow>
     (\<exists>c' p u f dn as. r = Some (Break c' (length p)) \<and> input_frame c c' \<and> in_command c' dn as \<and> dn @ as = args \<and>
        sds_is (c_querybuf c') (p @ u) f \<and> length (p @ u) < 2 ^ 31 \<and> u @ fut = rest_bytes (c_bulklen c') as @ E \<and>
        (if as = [] then length u \<le> REDIS_INLINE_MAX_SIZE else waiting c' u))"

lemma parsedI:
  assumes "input_frame c c'" "in_command c' dn as" "sds_is (c_querybuf c') (p @ u) f" "length (p @ u) < 2 ^ 31"
    "u @ fut = rest_bytes (c_bulklen c') as @ E" "if as = [] then length u \<le> REDIS_INLINE_MAX_SIZE else waiting c' u"
  shows "parsed c fut (dn @ as) E (Some (Break c' (length p)))"
  unfolding parsed_def using assms by blast

lemma parsed_frame: "input_frame c c' \<Longrightarrow> parsed c' fut args E r \<Longrightarrow> parsed c fut args E r"
  unfolding parsed_def by (auto simp: input_frame_def)

lemma rest_bytes_simps:
  "rest_bytes (- 1) as = concat (map bulk_string as)"
  "rest_bytes (int n) (a # as) = a @ [13, 10] @ concat (map bulk_string as)"
  by (simp_all add: rest_bytes_def)

definition window :: "int \<Rightarrow> byte list \<Rightarrow> byte list \<Rightarrow> bool" where
  "window bulklen p u \<longleftrightarrow>
     length (p @ u) \<le> REDIS_INLINE_MAX_SIZE \<or> p = [] \<and> REDIS_MBULK_BIG_ARG \<le> bulklen \<and> int (length u) \<le> bulklen + 2"

lemma window_small: "window (- 1) p u \<longleftrightarrow> length (p @ u) \<le> REDIS_INLINE_MAX_SIZE"
  by (simp add: window_def)

lemma mbulk_read:
  fixes c :: "'a queryClient_scheme"
  assumes IH: "\<And>(c :: 'a queryClient_scheme) dn p u f. in_command c dn as \<Longrightarrow> c_bulklen c = - 1 \<Longrightarrow>
      sds_is (c_querybuf c) (p @ u) f \<Longrightarrow> u @ fut = concat (map bulk_string as) @ E \<Longrightarrow> length (p @ u) \<le> REDIS_INLINE_MAX_SIZE \<Longrightarrow>
      parsed c fut (dn @ as) E (mbulk_loop junk zsize server ae c (length p))"
    and c: "in_command c dn (a # as)" "c_bulklen c = int (length a)" "sds_is (c_querybuf c) (p @ u) f"
      "u @ fut = a @ [13, 10] @ concat (map bulk_string as) @ E" "window (int (length a)) p u"
  shows "parsed c fut (dn @ a # as) E (case read_bulk junk c (length p) of
      Some (Go c pos) \<Rightarrow> mbulk_loop junk zsize server ae c pos | r \<Rightarrow> r)"
proof -
  have la: "length a \<le> 512 * 1024 * 1024" "length (c_argv c) < c_argv_size c" using c(1) by (auto simp: in_command_def)
  have w: "length (p @ u) \<le> REDIS_INLINE_MAX_SIZE \<or> p = [] \<and> REDIS_MBULK_BIG_ARG \<le> int (length a) \<and> length u \<le> length a + 2"
    using c(5) by (auto simp: window_def)
  consider "read_bulk junk c (length p) = Some (Break c (length p))" "length u < length a + 2" |
    s g q' p' u' f' where "read_bulk junk c (length p) = Some (Go (c\<lparr>c_querybuf := q', c_argv := c_argv c @ [s], c_bulklen := - 1,
        c_multibulklen := c_multibulklen c - 1\<rparr>) (length p'))"
      "sds_is s a g" "sds_is q' (p' @ u') f'" "u' @ fut = concat (map bulk_string as) @ E" "length (p' @ u') \<le> REDIS_INLINE_MAX_SIZE"
    using read_bulk_ok [OF c(2,3,4) la w, of junk] by blast
  then show ?thesis
  proof cases
    case 1
    have "length (p @ u) < 2 ^ 31" "int (length u) < int (length a) + 2" using w la(1) 1(2) by auto
    then have "parsed c fut (dn @ a # as) E (Some (Break c (length p)))"
      using c by (intro parsedI) (simp_all add: input_frame_def waiting_def rest_bytes_simps)
    then show ?thesis using 1(1) by simp
  next
    case 2
    let ?c = "c\<lparr>c_querybuf := q', c_argv := c_argv c @ [s], c_bulklen := - 1, c_multibulklen := c_multibulklen c - 1\<rparr>"
    have "in_command ?c (dn @ [a]) as" using c(1) sds_isD(2) [OF 2(2)] by (simp add: in_command_def)
    then have "parsed ?c fut ((dn @ [a]) @ as) E (mbulk_loop junk zsize server ae ?c (length p'))" using 2(3-5) by (intro IH) simp_all
    then show ?thesis using 2(1) by (intro parsed_frame [of c ?c]) (simp_all add: input_frame_def)
  qed
qed

lemma mbulk_loop_ok:
  fixes c :: "'a queryClient_scheme"
  assumes "in_command c dn as" "sds_is (c_querybuf c) (p @ u) f" "u @ fut = rest_bytes (c_bulklen c) as @ E" "window (c_bulklen c) p u"
  shows "parsed c fut (dn @ as) E (mbulk_loop junk zsize server ae c (length p))"
  using assms
proof (induction as arbitrary: c dn p u f)
  case Nil
  then have b: "c_bulklen c = - 1" "c_multibulklen c = 0" by (simp_all add: in_command_def)
  then have "length (p @ u) \<le> REDIS_INLINE_MAX_SIZE" using Nil.prems(4) by (simp only: window_small)
  then have "parsed c fut (dn @ []) E (Some (Break c (length p)))" using Nil.prems by (intro parsedI) (auto simp: input_frame_def)
  then show ?case using b(2) by (subst mbulk_loop.simps) simp
next
  case (Cons a as)
  have m: "c_multibulklen c \<noteq> 0" "length a \<le> 512 * 1024 * 1024" "c_bulklen c = - 1 \<or> c_bulklen c = int (length a)"
    using Cons.prems(1) by (auto simp: in_command_def)
  have IH: "parsed c fut (dn @ as) E (mbulk_loop junk zsize server ae c (length p))"
    if "in_command c dn as" "c_bulklen c = - 1" "sds_is (c_querybuf c) (p @ u) f" "u @ fut = concat (map bulk_string as) @ E"
      "length (p @ u) \<le> REDIS_INLINE_MAX_SIZE" for c :: "'a queryClient_scheme" and dn p u f
    using Cons.IH [OF that(1,3)] that(2,4,5) by (simp add: window_small rest_bytes_simps)
  note unf = mbulk_loop.simps [of junk zsize server ae c "length p", unfolded if_not_P [OF m(1)]]
  show ?case
  proof (cases "c_bulklen c = - 1")
    case True
    have u: "u @ fut = bulk_string a @ concat (map bulk_string as) @ E" "length (p @ u) \<le> REDIS_INLINE_MAX_SIZE"
      using Cons.prems(3,4) True by (simp_all add: rest_bytes_simps window_small)
    consider "bulk_length junk zsize server ae c (length p) = Some (Break c (length p))" "length u \<le> 23" "10 \<notin> set u" |
      q' p' u' f' where "bulk_length junk zsize server ae c (length p) =
          Some (Go (c\<lparr>c_querybuf := q', c_bulklen := int (length a)\<rparr>) (length p'))"
        "sds_is q' (p' @ u') f'" "u' @ fut = a @ [13, 10] @ concat (map bulk_string as) @ E" "length (p' @ u') \<le> REDIS_INLINE_MAX_SIZE"
      using bulk_length_ok [OF True Cons.prems(2) u(2,1) m(2), of junk zsize server ae] by blast
    then show ?thesis
    proof cases
      case 1
      have "parsed c fut (dn @ a # as) E (Some (Break c (length p)))"
        using Cons.prems 1(2,3) u(2) True by (intro parsedI) (auto simp: input_frame_def waiting_def)
      then show ?thesis using 1(1) unf by simp
    next
      case 2
      let ?c = "c\<lparr>c_querybuf := q', c_bulklen := int (length a)\<rparr>"
      have "in_command ?c dn (a # as)" "window (int (length a)) p' u'"
        using Cons.prems(1) 2(4) by (simp_all add: in_command_def window_def disjI1)
      then have "parsed ?c fut (dn @ a # as) E (case read_bulk junk ?c (length p') of
          Some (Go c pos) \<Rightarrow> mbulk_loop junk zsize server ae c pos | r \<Rightarrow> r)"
        using 2(2,3) by (intro mbulk_read [OF IH]) simp_all
      then show ?thesis using 2(1) unf by (intro parsed_frame [of c ?c]) (simp_all add: input_frame_def)
    qed
  next
    case False
    then have b: "c_bulklen c = int (length a)" using m(3) by blast
    have "bulk_length junk zsize server ae c (length p) = Some (Go c (length p))" using False by (simp add: bulk_length_def)
    moreover have "parsed c fut (dn @ a # as) E (case read_bulk junk c (length p) of
        Some (Go c pos) \<Rightarrow> mbulk_loop junk zsize server ae c pos | r \<Rightarrow> r)"
      using Cons.prems b by (intro mbulk_read [OF IH]) (simp_all add: rest_bytes_simps)
    ultimately show ?thesis using unf by simp
  qed
qed

lemma mbulk_count_ok:
  fixes c :: "'a queryClient_scheme"
  assumes "c_argv c = []" "sds_is (c_querybuf c) u f" "length u \<le> REDIS_INLINE_MAX_SIZE"
    "u @ fut = command_bytes args @ E" "command_ok args"
  shows "mbulk_count junk zsize server ae c = Some (Return c False) \<and> length u \<le> 23 \<and> 10 \<notin> set u \<or>
    (\<exists>p v. mbulk_count junk zsize server ae c =
        Some (Go (c\<lparr>c_multibulklen := length args, c_argv_size := length args\<rparr>) (length p)) \<and>
      u = p @ v \<and> v @ fut = concat (map bulk_string args) @ E)"
proof -
  define h where "h = ch CHR ''*'' # sdec (int (length args))"
  have hc: "13 \<notin> set h" "0 \<notin> set h" "length h \<le> 21" "string2ll (sdec (int (length args))) = Some (of_nat (length args))"
    "sint (of_nat (length args) :: u64) = int (length args)"
    using header_chars [of "length args" "ch CHR ''*''"] assms(5) by (simp_all add: h_def command_ok_def)
  have lf: "10 \<notin> set h" using sdec_no_cr(2) by (simp add: h_def)
  have n: "0 < length args" "length args \<le> 1048576" using assms(5) by (simp_all add: command_ok_def)
  have e: "u @ fut = h @ 13 # 10 # concat (map bulk_string args) @ E" using assms(4) by (simp add: command_bytes_def bulk_count_def h_def)
  obtain r where q: "sds_buf (c_querybuf c) = u @ 0 # r" using sds_is_cases [OF assms(2)] by (metis sds.select_convs(3))
  have len: "sdslen (c_querybuf c) = length u" "sint (sds_len (c_querybuf c)) = int (length u)"
    using sds_isD(3) [OF assms(2)] sds_is_sint [OF assms(2)] assms(3) by simp_all
  from e show ?thesis
  proof (cases rule: header_cut)
    case (part z)
    then have "strchr_at (sds_buf (c_querybuf c)) 0 13 = Some None"
      using strchr_none [of 13 u "[]" r] hc(1,2) by (simp add: q)
    then have "mbulk_count junk zsize server ae c = Some (Return c False)"
      using assms(1,3) by (simp add: mbulk_count_def len(1))
    then show ?thesis using arg_cong [OF part, of length] hc(3) lf part by simp
  next
    case cr
    then have "strchr_at (sds_buf (c_querybuf c)) 0 13 = Some (Some (length h))"
      using strchr_found [of 13 h "[]" "0 # r"] hc(1,2) by (simp add: q)
    then have "mbulk_count junk zsize server ae c = Some (Return c False)"
      using assms(1) cr by (simp add: mbulk_count_def len(2))
    then show ?thesis using cr hc(3) lf by simp
  next
    case (whole v)
    have s: "strchr_at (sds_buf (c_querybuf c)) 0 13 = Some (Some (length h))"
      using strchr_found [of 13 h "[]" "10 # v @ 0 # r"] hc(1,2) whole(1) by (simp add: q)
    have b: "rd (sds_buf (c_querybuf c)) 0 = Some (ch CHR ''*'')" by (simp add: q rd_def whole(1) h_def)
    have m: "memread (sds_buf (c_querybuf c)) 1 (length h - 1) = Some (sdec (int (length args)))"
      by (simp add: q memread_def whole(1) h_def)
    have c: "\<not> int (length h) > sint (sds_len (c_querybuf c)) - 2" by (simp add: len(2) whole(1))
    have "mbulk_count junk zsize server ae c =
        Some (Go (c\<lparr>c_multibulklen := length args, c_argv_size := length args\<rparr>) (length (h @ [13, 10])))"
      unfolding mbulk_count_def Let_def s bind.simps option.case if_not_P [OF c] b m hc(4) hc(5)
      using assms(1) n by simp
    then show ?thesis using whole by (metis append.assoc append_Cons append_Nil)
  qed
qed

text \<open>The client expects the bytes \<open>E\<close>, the rest of the commands \<open>cs\<close>, of which the first may be half read.\<close>

definition expects :: "'a queryClient_scheme \<Rightarrow> byte list \<Rightarrow> byte list list list \<Rightarrow> bool" where
  "expects c E cs \<longleftrightarrow>
     (if c_multibulklen c = 0
      then c_argv c = [] \<and> c_bulklen c = - 1 \<and> (c_reqtype c = 0 \<or> c_reqtype c = REDIS_REQ_MULTIBULK) \<and> E = concat (map command_bytes cs)
      else c_reqtype c = REDIS_REQ_MULTIBULK \<and>
        (\<exists>dn as cs'. cs = (dn @ as) # cs' \<and> in_command c dn as \<and> E = rest_bytes (c_bulklen c) as @ concat (map command_bytes cs')))"

lemma window_loaded: "window (c_bulklen c) [] u \<longleftrightarrow> loaded c (length u)"
  by (simp add: window_def loaded_def)

text \<open>What \<open>processMultibulkBuffer\<close> returns: the arguments of the command, or the client waits for more.\<close>

definition mbulk_result ::
    "'a queryClient_scheme \<Rightarrow> byte list \<Rightarrow> byte list list \<Rightarrow> byte list list list \<Rightarrow> 'a queryClient_scheme \<Rightarrow> bool \<Rightarrow> bool" where
  "mbulk_result c fut args cs c' ok \<longleftrightarrow> input_frame c c' \<and> (\<exists>u f. sds_is (c_querybuf c') u f \<and>
     (if ok then map sds_str (c_argv c') = args \<and> u @ fut = concat (map command_bytes cs) \<and> length u \<le> REDIS_INLINE_MAX_SIZE
      else expects c' (u @ fut) (args # cs) \<and> waiting c' u))"

text \<open>Behind the loop: the buffer is trimmed.\<close>

lemma parsed_trim:
  assumes "parsed c fut args (concat (map command_bytes cs)) r" "c_reqtype c = REDIS_REQ_MULTIBULK"
  shows "\<exists>c' ok. Option.bind r mbulk_end = Some (c', ok) \<and> mbulk_result c fut args cs c' ok"
proof -
  obtain c' p u f dn as where p: "r = Some (Break c' (length p))" "input_frame c c'" "in_command c' dn as" "dn @ as = args"
    "sds_is (c_querybuf c') (p @ u) f" "length (p @ u) < 2 ^ 31" "u @ fut = rest_bytes (c_bulklen c') as @ concat (map command_bytes cs)"
    "if as = [] then length u \<le> REDIS_INLINE_MAX_SIZE else waiting c' u"
    using assms(1) unfolding parsed_def by blast
  obtain q f' where q: "(if length p \<noteq> 0 then sdsrange (c_querybuf c') (of_nat (length p)) (- 1) else Some (c_querybuf c')) = Some q" "sds_is q u f'"
    using sdsrange_tail [OF p(5,6), of "length p"] p(5,6) by (cases "p = []") auto
  let ?c = "c'\<lparr>c_querybuf := q\<rparr>"
  have m: "c_multibulklen c' = length as" using p(3) by (simp add: in_command_def)
  have fr: "input_frame c ?c" using p(2) by (simp add: input_frame_def)
  have i: "in_command ?c dn as" "waiting ?c n \<longleftrightarrow> waiting c' n" for n using p(3) by (simp_all add: in_command_def waiting_def)
  have "if as = [] then map sds_str (c_argv ?c) = args \<and> u @ fut = concat (map command_bytes cs) \<and> length u \<le> REDIS_INLINE_MAX_SIZE
     else expects ?c (u @ fut) (args # cs) \<and> waiting ?c u"
  proof (cases "as = []")
    case True
    then show ?thesis using p(3,4,7,8) by (simp add: in_command_def rest_bytes_simps)
  next
    case False
    have "expects ?c (u @ fut) ((dn @ as) # cs)"
      unfolding expects_def using False m i(1) p(7) fr assms(2) by (auto simp: input_frame_def)
    then show ?thesis using False p(4,8) i(2) by simp
  qed
  then have "mbulk_result c fut args cs ?c (as = [])"
    unfolding mbulk_result_def using q(2) fr by (intro conjI exI [of _ u] exI [of _ f']) simp_all
  then show ?thesis using q(1) by (simp add: p(1) m mbulk_end_def)
qed

lemma processMultibulk_ok:
  fixes c :: "'a queryClient_scheme"
  assumes "expects c (u @ fut) (args # cs)" "c_reqtype c = REDIS_REQ_MULTIBULK" "sds_is (c_querybuf c) u f" "loaded c (length u)" "command_ok args"
  shows "\<exists>c' ok. processMultibulkBuffer junk zsize server ae c = Some (c', ok) \<and> mbulk_result c fut args cs c' ok"
proof (cases "c_multibulklen c = 0")
  case True
  then have i: "c_argv c = []" "c_bulklen c = - 1" "u @ fut = command_bytes args @ concat (map command_bytes cs)" "length u \<le> REDIS_INLINE_MAX_SIZE"
    using assms(1,4) by (auto simp: expects_def loaded_def)
  consider "mbulk_count junk zsize server ae c = Some (Return c False)" "length u \<le> 23" "10 \<notin> set u" |
    p v where "mbulk_count junk zsize server ae c = Some (Go (c\<lparr>c_multibulklen := length args, c_argv_size := length args\<rparr>) (length p))"
      "u = p @ v" "v @ fut = concat (map bulk_string args) @ concat (map command_bytes cs)"
    using mbulk_count_ok [OF i(1) assms(3) i(4,3) assms(5), of junk zsize server ae] by blast
  then show ?thesis
  proof cases
    case 1
    then have "processMultibulkBuffer junk zsize server ae c = Some (c, False)" using True by (simp add: processMultibulkBuffer_def mbulk_end_def)
    moreover have "mbulk_result c fut args cs c False"
      unfolding mbulk_result_def using assms(1,3) 1(2,3) i(2) by (intro conjI exI [of _ u] exI [of _ f]) (simp_all add: input_frame_def waiting_def)
    ultimately show ?thesis by blast
  next
    case 2
    let ?c = "c\<lparr>c_multibulklen := length args, c_argv_size := length args\<rparr>"
    have "in_command ?c [] args" using assms(5) i(1,2) by (simp add: in_command_def command_ok_def)
    then have "parsed ?c fut ([] @ args) (concat (map command_bytes cs)) (mbulk_loop junk zsize server ae ?c (length p))"
      using assms(3) i(2,4) 2(2,3) by (intro mbulk_loop_ok) (simp_all add: window_small rest_bytes_simps)
    then have "parsed c fut args (concat (map command_bytes cs)) (mbulk_loop junk zsize server ae ?c (length p))"
      by (intro parsed_frame [of c ?c]) (simp_all add: input_frame_def)
    from parsed_trim [OF this assms(2)] show ?thesis
      using True 2(1) assms(5) by (simp add: processMultibulkBuffer_def command_ok_def)
  qed
next
  case False
  then obtain dn as where a: "args = dn @ as" "in_command c dn as" "u @ fut = rest_bytes (c_bulklen c) as @ concat (map command_bytes cs)"
    using assms(1) by (auto simp: expects_def)
  have "parsed c fut (dn @ as) (concat (map command_bytes cs)) (mbulk_loop junk zsize server ae c (length ([] :: byte list)))"
    using a(2,3) assms(3,4) by (intro mbulk_loop_ok) (simp_all add: window_loaded)
  from parsed_trim [OF this assms(2)] show ?thesis using False by (simp add: processMultibulkBuffer_def a(1))
qed

text \<open>A dispatcher that runs every command, neither blocking nor closing the client, and leaves the
  input alone. \<open>exec\<close> is its effect on the rest of the state.\<close>

definition dispatches ::
    "('a queryClient_scheme \<Rightarrow> 'a queryClient_scheme \<times> bool) \<Rightarrow> ('a \<Rightarrow> byte list list \<Rightarrow> 'a) \<Rightarrow> bool" where
  "dispatches processCommand exec \<longleftrightarrow>
     (\<forall>c. c_argv c \<noteq> [] \<and> REDIS_BLOCKED \<notin> c_flags c \<and> REDIS_CLOSE_AFTER_REPLY \<notin> c_flags c \<longrightarrow>
        (\<exists>c'. processCommand c = (c', True) \<and> c_querybuf c' = c_querybuf c \<and>
              REDIS_BLOCKED \<notin> c_flags c' \<and> REDIS_CLOSE_AFTER_REPLY \<notin> c_flags c' \<and>
              queryClient.more c' = exec (queryClient.more c) (map sds_str (c_argv c))))"

definition open_client :: "'a queryClient_scheme \<Rightarrow> bool" where
  "open_client c \<longleftrightarrow> REDIS_BLOCKED \<notin> c_flags c \<and> REDIS_CLOSE_AFTER_REPLY \<notin> c_flags c"

lemma resetClient_ok:
  "expects (resetClient c) (concat (map command_bytes cs)) cs" "open_client c \<Longrightarrow> open_client (resetClient c)"
  "c_querybuf (resetClient c) = c_querybuf c" "queryClient.more (resetClient c) = queryClient.more c"
  by (auto simp: resetClient_def freeClientArgv_def Let_def expects_def open_client_def)

text \<open>Between two events: \<open>u\<close> has arrived and is not used yet.\<close>

definition resting :: "'a queryClient_scheme \<Rightarrow> byte list \<Rightarrow> byte list list list \<Rightarrow> bool" where
  "resting c fut cs \<longleftrightarrow> open_client c \<and>
     (\<exists>u f. sds_is (c_querybuf c) u f \<and> expects c (u @ fut) cs \<and> waiting c u)"

lemma expects_first:
  assumes "expects c (u @ fut) cs" "u \<noteq> []" "c_reqtype c = 0"
  shows "hd u = ch CHR ''*''"
proof -
  have e: "u @ fut = concat (map command_bytes cs)" using assms(1,3) by (auto simp: expects_def split: if_splits)
  then obtain args cs' where "cs = args # cs'" using assms(2) by (cases cs) auto
  then have "hd (u @ fut) = ch CHR ''*''" by (simp add: e command_bytes_def bulk_count_def)
  then show ?thesis using assms(2) by simp
qed

lemma processInputBuffer_ok:
  fixes c :: "'a queryClient_scheme"
  assumes "dispatches processCommand exec" "list_all command_ok cs" "open_client c" "sds_is (c_querybuf c) u f" "expects c (u @ fut) cs"
    "loaded c (length u)"
  shows "\<exists>c' n. processInputBuffer processCommand junk zsize server ae c = Some c' \<and> n \<le> length cs \<and>
    queryClient.more c' = foldl exec (queryClient.more c) (take n cs) \<and> resting c' fut (drop n cs)"
  using assms(2-6)
proof (induction cs arbitrary: c u f)
  case Nil
  then have "u = []" "c_bulklen c = - 1" by (auto simp: expects_def split: if_splits)
  then have "processInputBuffer processCommand junk zsize server ae c = Some c" "resting c fut []"
    using Nil.prems sds_isD(3) [OF Nil.prems(3)] unfolding resting_def
    by (subst processInputBuffer.simps, simp, intro conjI exI [of _ u] exI [of _ f]) (simp_all add: waiting_def)
  then show ?case by auto
next
  case (Cons args cs)
  show ?case
  proof (cases "u = []")
    case True
    have "waiting c []" using Cons.prems(4) by (auto simp: waiting_def expects_def in_command_def split: if_splits)
    then have "resting c fut (args # cs)" using Cons.prems(2-4) True unfolding resting_def by auto
    moreover have "processInputBuffer processCommand junk zsize server ae c = Some c"
      using True sds_isD(3) [OF Cons.prems(3)] by (subst processInputBuffer.simps) simp
    ultimately show ?thesis by (intro exI [of _ c] exI [of _ 0]) simp
  next
    case False
    define c1 where "c1 = (if c_reqtype c = 0
      then c\<lparr>c_reqtype := (if hd u = ch CHR ''*'' then REDIS_REQ_MULTIBULK else REDIS_REQ_INLINE)\<rparr> else c)"
    have rt: "c_reqtype c1 = REDIS_REQ_MULTIBULK"
      using expects_first [OF Cons.prems(4) False] Cons.prems(4) by (auto simp: c1_def expects_def split: if_splits)
    have c1: "open_client c1" "sds_is (c_querybuf c1) u f" "loaded c1 (length u)" "queryClient.more c1 = queryClient.more c"
      using Cons.prems by (simp_all add: c1_def open_client_def loaded_def)
    have "expects c1 (u @ fut) (args # cs)"
      using Cons.prems(4) rt by (auto simp: c1_def expects_def in_command_def split: if_splits)
    then obtain c2 ok where c2': "processMultibulkBuffer junk zsize server ae c1 = Some (c2, ok)" "mbulk_result c1 fut args cs c2 ok"
      using processMultibulk_ok [OF _ rt c1(2,3), of fut args cs junk zsize server ae] Cons.prems(1) by auto
    then obtain u2 f2 where c2: "input_frame c1 c2" "sds_is (c_querybuf c2) u2 f2"
      "if ok then map sds_str (c_argv c2) = args \<and> u2 @ fut = concat (map command_bytes cs) \<and> length u2 \<le> REDIS_INLINE_MAX_SIZE
       else expects c2 (u2 @ fut) (args # cs) \<and> waiting c2 u2"
      unfolding mbulk_result_def by blast
    have o2: "open_client c2" "queryClient.more c2 = queryClient.more c"
      using c1(1,4) c2(1) by (simp_all add: open_client_def input_frame_def)
    have b: "rd (sds_buf (c_querybuf c)) 0 = Some (hd u)" "sdslen (c_querybuf c) \<noteq> 0"
      using sds_is_first [OF Cons.prems(3) False] sds_isD(3) [OF Cons.prems(3)] False by simp_all
    have unf: "processInputBuffer processCommand junk zsize server ae c =
        (if \<not> ok then Some c2
         else if c_argv c2 = [] then processInputBuffer processCommand junk zsize server ae (resetClient c2)
         else case processCommand c2 of
           (c, ok) \<Rightarrow> processInputBuffer processCommand junk zsize server ae (if ok then resetClient c else c))"
      using Cons.prems(2) b rt c2'(1)
      by (subst processInputBuffer.simps) (simp add: open_client_def c1_def [symmetric])
    show ?thesis
    proof (cases ok)
      case True
      then have d: "map sds_str (c_argv c2) = args" "u2 @ fut = concat (map command_bytes cs)" "length u2 \<le> REDIS_INLINE_MAX_SIZE"
        using c2(3) by simp_all
      then have ne: "c_argv c2 \<noteq> []" using Cons.prems(1) by (auto simp: command_ok_def)
      obtain c3 where c3: "processCommand c2 = (c3, True)" "c_querybuf c3 = c_querybuf c2" "open_client c3"
        "queryClient.more c3 = exec (queryClient.more c) args"
        using assms(1) ne o2 d(1) unfolding dispatches_def open_client_def by metis
      have "expects (resetClient c3) (u2 @ fut) cs" using resetClient_ok(1) [of c3 cs] d(2) by simp
      then obtain c' n where n: "processInputBuffer processCommand junk zsize server ae (resetClient c3) = Some c'" "n \<le> length cs"
        "queryClient.more c' = foldl exec (queryClient.more c3) (take n cs)" "resting c' fut (drop n cs)"
        using Cons.IH [of "resetClient c3" u2 f2] Cons.prems(1) c3(2,3) c2(2) d(3) resetClient_ok(2-4) [of c3] by (auto simp: loaded_def)
      then show ?thesis using unf ne c3(1,4) True by (intro exI [of _ c'] exI [of _ "Suc n"]) simp
    next
      case no: False
      then have "resting c2 fut (args # cs)" using c2(2,3) o2(1) unfolding resting_def by auto
      then show ?thesis using unf no o2(2) by (intro exI [of _ c2] exI [of _ 0]) simp
    qed
  qed
qed

section \<open>Reading the socket\<close>

lemma read_len_ok:
  fixes c :: "'a queryClient_scheme"
  assumes "expects c (u @ fut) cs" "waiting c u" "sds_is (c_querybuf c) u f"
  shows "0 < read_len c" "read_len c \<le> REDIS_IOBUF_LEN" "n \<le> nat (read_len c) \<Longrightarrow> loaded c (length u + n)"
    "length u \<le> 512 * 1024 * 1024 + 2"
proof -
  have bl: "c_bulklen c = - 1 \<or> 0 \<le> c_bulklen c \<and> c_bulklen c \<le> 536870912 \<and> c_multibulklen c \<noteq> 0 \<and> c_reqtype c = REDIS_REQ_MULTIBULK"
    using assms(1) by (auto simp: expects_def in_command_def split: if_splits)
  then have u: "int (length u) < 536870914" using assms(2) by (auto simp: waiting_def split: if_splits)
  then show "length u \<le> 512 * 1024 * 1024 + 2" by simp
  have "(0 < read_len c \<and> read_len c \<le> REDIS_IOBUF_LEN) \<and> (n \<le> nat (read_len c) \<longrightarrow> loaded c (length u + n))" for n
  proof (cases "REDIS_MBULK_BIG_ARG \<le> c_bulklen c")
    case True
    define k where "k = nat (c_bulklen c) + 2"
    have k: "int k = c_bulklen c + 2" "k < 2 ^ 31" "length u < k" using True bl assms(2) by (auto simp: k_def waiting_def)
    have "sds_len (c_querybuf c) = of_nat (length u)" using sds_is_cases [OF assms(3)] by (metis sds.select_convs(1))
    moreover have "word_of_int (c_bulklen c + 2) = (of_nat k :: u32)" unfolding k(1) [symmetric] by simp
    ultimately have "sint (word_of_int (c_bulklen c + 2) - sds_len (c_querybuf c) :: u32) = int k - int (length u)"
      using sint_length_diff [of k "length u"] k(2,3) by simp
    then have "read_len c = (if int k - int (length u) < REDIS_IOBUF_LEN then int k - int (length u) else REDIS_IOBUF_LEN)"
      using True bl by (simp add: read_len_def Let_def)
    then show ?thesis
      using k True by (auto simp: loaded_def)
  next
    case False
    then have "read_len c = REDIS_IOBUF_LEN" "int (length u) < 32770" using assms(2) by (auto simp: read_len_def waiting_def split: if_splits)
    then show ?thesis
      by (auto simp: loaded_def)
  qed
  then show "0 < read_len c" "read_len c \<le> REDIS_IOBUF_LEN" "n \<le> nat (read_len c) \<Longrightarrow> loaded c (length u + n)" by blast+
qed

text \<open>Reading changes no field of the parser but the buffer.\<close>

definition same_parse :: "'a queryClient_scheme \<Rightarrow> 'a queryClient_scheme \<Rightarrow> bool" where
  "same_parse c c' \<longleftrightarrow> c_flags c' = c_flags c \<and> c_argv c' = c_argv c \<and> c_argv_size c' = c_argv_size c \<and> c_reqtype c' = c_reqtype c \<and>
     c_multibulklen c' = c_multibulklen c \<and> c_bulklen c' = c_bulklen c \<and> queryClient.more c' = queryClient.more c"

lemma same_parse_cong:
  assumes "same_parse c c'"
  shows "open_client c' = open_client c" "waiting c' = waiting c" "loaded c' = loaded c" "expects c' = expects c"
    "queryClient.more c' = queryClient.more c"
  using assms by (simp_all add: same_parse_def open_client_def fun_eq_iff waiting_def loaded_def expects_def in_command_def)

definition peak_client :: "'a queryClient_scheme \<Rightarrow> 'a queryClient_scheme" where
  "peak_client c = (if c_querybuf_peak c < sdslen (c_querybuf c) then c\<lparr>c_querybuf_peak := sdslen (c_querybuf c)\<rparr> else c)"

lemma peak_client_ok: "same_parse c (peak_client c)" "c_querybuf (peak_client c) = c_querybuf c"
  by (simp_all add: peak_client_def same_parse_def)

lemma readQuery_ok:
  fixes c :: "'a queryClient_scheme"
  assumes "dispatches processCommand exec" "list_all command_ok cs" "resting c (d @ fut) cs" "d \<noteq> []" "REDIS_MAX_QUERYBUF_LEN \<le> maxlen"
  shows "\<exists>c' n m. readQueryFromClient processCommand junk zsize server ae maxlen c (Arrived d) = Some (Some c', n) \<and> 0 < n \<and> n \<le> length d \<and>
    m \<le> length cs \<and> queryClient.more c' = foldl exec (queryClient.more c) (take m cs) \<and> resting c' (drop n (d @ fut)) (drop m cs)"
proof -
  obtain u f where u: "open_client c" "sds_is (c_querybuf c) u f" "expects c (u @ d @ fut) cs" "waiting c u"
    using assms(3) by (auto simp: resting_def)
  note rl = read_len_ok [OF u(3,4,2)]
  define k where "k = nat (read_len c)"
  define e where "e = take k d"
  define q where "q = sdsMakeRoomFor junk (c_querybuf c) k"
  have k: "0 < k" "k \<le> 16384" using rl(1,2) by (simp_all add: k_def)
  have e: "0 < length e" "length e \<le> k" "length e \<le> length d" "d @ fut = e @ drop (length e) (d @ fut)"
    using assms(4) k by (auto simp: e_def min_def)
  have "length u + k + SDS_MAX_PREALLOC < 2 ^ 32" using rl(4) k(2) by simp
  then obtain f1 where f1: "k \<le> f1" "sds_is q u f1" using sdsMakeRoomFor_is [OF u(2)] unfolding q_def by blast
  obtain b q' where q': "memwrite (sds_buf q) (length u) e = Some b" "sdsIncrLen (q\<lparr>sds_buf := b\<rparr>) (of_nat (length e)) = Some q'"
    "sds_is q' (u @ e) (f1 - length e)"
    using sdsIncrLen_grow [OF f1(2), of e] e(2) f1(1) k(2) by auto
  let ?c = "(peak_client c)\<lparr>c_querybuf := q\<rparr>"
  define c1 where "c1 = ?c\<lparr>c_querybuf := q', c_lastinteraction := server_unixtime server,
    c_reploff := (if REDIS_MASTER \<in> c_flags ?c then c_reploff ?c + int (length e) else c_reploff ?c),
    server_stat_net_input_bytes := server_stat_net_input_bytes ?c + of_nat (length e)\<rparr>"
  have sp: "same_parse c c1" using peak_client_ok(1) [of c] by (simp add: c1_def same_parse_def)
  have l: "loaded c (length (u @ e))" using rl(3) [of "length e"] e(2) by (simp add: k_def)
  have mx: "\<not> sdslen q' > maxlen" using sds_isD(3) [OF q'(3)] rl(4) e(2) k(2) assms(5) by simp
  have x: "expects c1 ((u @ e) @ drop (length e) (d @ fut)) cs" using u(3) e(4) same_parse_cong(4) [OF sp] by simp
  have o1: "open_client c1" "sds_is (c_querybuf c1) (u @ e) (f1 - length e)" "loaded c1 (length (u @ e))"
    using u(1) q'(3) l same_parse_cong(1,3) [OF sp] by (simp_all add: c1_def)
  obtain c' m where c': "processInputBuffer processCommand junk zsize server ae c1 = Some c'" "m \<le> length cs"
    "queryClient.more c' = foldl exec (queryClient.more c1) (take m cs)" "resting c' (drop (length e) (d @ fut)) (drop m cs)"
    using processInputBuffer_ok [OF assms(1,2) o1(1,2) x o1(3), of junk zsize server ae] by blast
  have "readQueryFromClient processCommand junk zsize server ae maxlen c (Arrived d) = Some (Some c', length e)"
    unfolding readQueryFromClient_def Let_def
    unfolding peak_client_def [symmetric] peak_client_ok(2) k_def [symmetric]
    unfolding q_def [symmetric] read_result.case e_def [symmetric]
    unfolding sds_isD(3) [OF u(2)] q'(1) bind.simps q'(2)
    unfolding bind.simps c1_def [symmetric] c'(1)
    using rl(1) e(1) mx by simp
  then show ?thesis using c' e(1,3) same_parse_cong(5) [OF sp] by auto
qed

lemma readQuery_nodata:
  assumes "resting c fut cs" "readQueryFromClient processCommand junk zsize server ae maxlen c NoData = Some (Some c', n)"
  shows "n = 0 \<and> queryClient.more c' = queryClient.more c \<and> resting c' fut cs"
proof -
  obtain u f where u: "open_client c" "sds_is (c_querybuf c) u f" "expects c (u @ fut) cs" "waiting c u"
    using assms(1) by (auto simp: resting_def)
  note rl = read_len_ok [OF u(3,4,2)]
  define q where "q = sdsMakeRoomFor junk (c_querybuf c) (nat (read_len c))"
  have "length u + nat (read_len c) + SDS_MAX_PREALLOC < 2 ^ 32" using rl(2,4) by simp
  then obtain f1 where f1: "sds_is q u f1" using sdsMakeRoomFor_is [OF u(2)] unfolding q_def by blast
  have "c' = (peak_client c)\<lparr>c_querybuf := q\<rparr>" "n = 0"
    using assms(2) rl(1) unfolding readQueryFromClient_def Let_def
    unfolding peak_client_def [symmetric] peak_client_ok(2)
    unfolding q_def [symmetric] by simp_all
  moreover then have sp: "same_parse c c'" using peak_client_ok(1) [of c] by (simp add: same_parse_def)
  ultimately show ?thesis using u f1 same_parse_cong [OF sp] unfolding resting_def by auto
qed

text \<open>The events of a client whose peer sends the bytes \<open>s\<close>: some of them arrive, or there are none yet.
  The last two arguments are the client and the bytes that have not been read.\<close>

inductive receives ::
    "('a queryClient_scheme \<Rightarrow> 'a queryClient_scheme \<times> bool) \<Rightarrow> (nat \<Rightarrow> byte) \<Rightarrow> (nat \<Rightarrow> nat) \<Rightarrow> redisServer \<Rightarrow> ('a queryClient_scheme \<Rightarrow> bool) \<Rightarrow>
     nat \<Rightarrow> 'a queryClient_scheme \<Rightarrow> byte list \<Rightarrow> 'a queryClient_scheme \<Rightarrow> byte list \<Rightarrow> bool"
  for processCommand junk zsize server ae maxlen c s where
  start: "receives processCommand junk zsize server ae maxlen c s c s"
| arrive: "receives processCommand junk zsize server ae maxlen c s c1 s1 \<Longrightarrow> 0 < k \<Longrightarrow> s1 \<noteq> [] \<Longrightarrow>
    readQueryFromClient processCommand junk zsize server ae maxlen c1 (Arrived (take k s1)) = Some (Some c2, n) \<Longrightarrow>
    receives processCommand junk zsize server ae maxlen c s c2 (drop n s1)"
| nodata: "receives processCommand junk zsize server ae maxlen c s c1 s1 \<Longrightarrow>
    readQueryFromClient processCommand junk zsize server ae maxlen c1 NoData = Some (Some c2, n) \<Longrightarrow>
    receives processCommand junk zsize server ae maxlen c s c2 (drop n s1)"

lemma receives_resting:
  assumes "receives processCommand junk zsize server ae maxlen c s c' s'" "dispatches processCommand exec" "list_all command_ok cs"
    "resting c s cs" "REDIS_MAX_QUERYBUF_LEN \<le> maxlen"
  shows "\<exists>m \<le> length cs. queryClient.more c' = foldl exec (queryClient.more c) (take m cs) \<and> resting c' s' (drop m cs)"
  using assms(1)
proof (induction rule: receives.induct)
  case start
  then show ?case using assms(4) by (intro exI [of _ 0]) simp
next
  case (arrive c1 s1 k c2 n)
  obtain m where m: "m \<le> length cs" "queryClient.more c1 = foldl exec (queryClient.more c) (take m cs)" "resting c1 s1 (drop m cs)"
    using arrive.IH by blast
  have t: "resting c1 (take k s1 @ drop k s1) (drop m cs)" "take k s1 \<noteq> []" "list_all command_ok (drop m cs)"
    using m(3) arrive.hyps(2,3) assms(3) by (auto simp: list_all_iff dest: in_set_dropD)
  obtain m' where m': "m' \<le> length (drop m cs)" "queryClient.more c2 = foldl exec (queryClient.more c1) (take m' (drop m cs))"
    "resting c2 (drop n s1) (drop m' (drop m cs))"
    using readQuery_ok [OF assms(2) t(3,1,2) assms(5), of junk zsize server ae] arrive.hyps(4) by auto
  have "take (m + m') cs = take m cs @ take m' (drop m cs)" by (simp add: take_add)
  then show ?case using m(1,2) m' by (intro exI [of _ "m + m'"]) (simp add: add.commute)
next
  case (nodata c1 s1 c2 n)
  then show ?case using readQuery_nodata by (metis drop0)
qed

lemma resting_end:
  assumes "resting c [] cs"
  shows "cs = [] \<and> sds_str (c_querybuf c) = []"
proof -
  obtain u f where u: "sds_is (c_querybuf c) u f" "expects c u cs" "waiting c u" using assms by (auto simp: resting_def)
  have lf: "10 \<in> set (command_bytes x)" "10 \<in> set (bulk_string a)" for x a
    by (simp_all add: command_bytes_def bulk_string_def bulk_count_def)
  show ?thesis
  proof (cases "c_multibulklen c = 0")
    case True
    then have "u = concat (map command_bytes cs)" "10 \<notin> set u" using u(2,3) by (auto simp: expects_def waiting_def)
    then show ?thesis using lf(1) sds_isD(2) [OF u(1)] by (cases cs) auto
  next
    case False
    then obtain dn as cs' where a: "cs = (dn @ as) # cs'" "in_command c dn as" "u = rest_bytes (c_bulklen c) as @ concat (map command_bytes cs')"
      using u(2) by (auto simp: expects_def)
    obtain x xs where as: "as = x # xs" using a(2) False by (cases as) (auto simp: in_command_def)
    have "c_bulklen c = - 1 \<or> c_bulklen c = int (length x)" using a(2) by (auto simp: in_command_def as)
    then show ?thesis using a(3) u(3) lf(2) [of x] by (auto simp: as rest_bytes_simps waiting_def)
  qed
qed

lemma createClient_ok:
  fixes c :: "'a queryClient_scheme"
  assumes "createClient junk server listen cid cl outb inb x fd = Some (Some c)"
  shows "resting c (concat (map command_bytes cs)) cs" "queryClient.more c = x" "c_flags c = {}" "c_fd c = fd"
    "out_ok zsize c" "out_stream h c = []" "reply_mem zsize c = 0" "sds_is (c_querybuf c) [] 0" "c_reqtype c = 0" "c_multibulklen c = 0" "c_argv c = []"
proof -
  obtain q where q: "sdsempty junk = Some q" "sds_is q [] 0" using sdsempty_is by blast
  have c: "c_flags c = {}" "c_fd c = fd" "c_querybuf c = q" "c_argv c = []" "c_multibulklen c = 0" "c_bulklen c = - 1" "c_reqtype c = 0" "queryClient.more c = x"
    "c_reply c = []" "c_reply_bytes c = 0" "c_bufpos c = 0" "length (c_buf c) = REDIS_REPLY_CHUNK_BYTES"
    using assms q(1) by (auto simp: createClient_def split: if_splits)
  show "resting c (concat (map command_bytes cs)) cs"
    using q(2) c unfolding resting_def by (intro conjI exI [of _ "[]"] exI [of _ 0]) (simp_all add: open_client_def expects_def waiting_def)
  show "out_ok zsize c" "out_stream h c = []" "reply_mem zsize c = 0" using c by (simp_all add: out_ok_def out_stream_def reply_mem_def)
  show "queryClient.more c = x" "c_flags c = {}" "c_fd c = fd" "sds_is (c_querybuf c) [] 0" "c_reqtype c = 0" "c_multibulklen c = 0" "c_argv c = []"
    using c q(2) by simp_all
qed

lemma receives_completes:
  assumes "dispatches processCommand exec" "list_all command_ok cs" "resting c s cs" "REDIS_MAX_QUERYBUF_LEN \<le> maxlen"
    "receives processCommand junk zsize server ae maxlen c s c' rest"
  shows "\<exists>c''. receives processCommand junk zsize server ae maxlen c s c'' []"
  using assms(5)
proof (induction "length rest" arbitrary: c' rest rule: less_induct)
  case less
  obtain m where m: "resting c' rest (drop m cs)"
    using receives_resting [OF less.prems assms(1,2,3,4)] by blast
  have ok: "list_all command_ok (drop m cs)" using assms(2) by (auto simp: list_all_iff dest: in_set_dropD)
  show ?case
  proof (cases "rest = []")
    case False
    then obtain c1 n where n: "readQueryFromClient processCommand junk zsize server ae maxlen c' (Arrived (take (length rest) rest)) = Some (Some c1, n)"
      "0 < n" "n \<le> length rest"
      using readQuery_ok [OF assms(1) ok _ _ assms(4), of c' rest "[]" junk zsize server ae] m by auto
    then have "receives processCommand junk zsize server ae maxlen c s c1 (drop n rest)"       using False by (intro receives.arrive [OF less.prems, of "length rest"]) simp_all
    then show ?thesis using less.hyps [of "drop n rest" c1] n(2) False by simp
  qed (use less.prems in blast)
qed

section \<open>Commands in pieces\<close>

text \<open>C2: commands that a new client sends in the form of the protocol are run with exactly their arguments,
  one after the other, however the bytes are cut into pieces by the socket: at every moment the
  commands run so far are a beginning of those sent; when all bytes have been read all commands have
  been run; a call that finds bytes takes at least one of them and does not fail; and so all bytes can
  be read.\<close>

theorem query_commands:
  fixes c c' :: "'a queryClient_scheme"
  assumes "dispatches processCommand exec" "list_all command_ok cs" "createClient junk0 server listen cid cl outb inb x fd = Some (Some c)"
    "REDIS_MAX_QUERYBUF_LEN \<le> maxlen"
    "receives processCommand junk zsize server ae maxlen c (concat (map command_bytes cs)) c' rest"
  shows "(\<exists>m \<le> length cs. queryClient.more c' = foldl exec x (take m cs)) \<and>
    (rest = [] \<longrightarrow> queryClient.more c' = foldl exec x cs \<and> sds_str (c_querybuf c') = []) \<and>
    (\<forall>k. 0 < k \<and> rest \<noteq> [] \<longrightarrow> (\<exists>c'' n. 0 < n \<and> n \<le> length rest \<and>
       readQueryFromClient processCommand junk zsize server ae maxlen c' (Arrived (take k rest)) = Some (Some c'', n))) \<and>
    (\<exists>c''. receives processCommand junk zsize server ae maxlen c (concat (map command_bytes cs)) c'' [])"
proof -
  note rest = createClient_ok(1) [OF assms(3)]
  obtain m where m: "m \<le> length cs" "queryClient.more c' = foldl exec x (take m cs)" "resting c' rest (drop m cs)"
    using receives_resting [OF assms(5,1,2) rest assms(4)] createClient_ok(2) [OF assms(3)] by auto
  have ok: "list_all command_ok (drop m cs)" using assms(2) by (auto simp: list_all_iff dest: in_set_dropD)
  have "drop m cs = [] \<and> sds_str (c_querybuf c') = []" if "rest = []"
    using resting_end m(3) that by blast
  moreover have "\<exists>c'' n. 0 < n \<and> n \<le> length rest \<and>
      readQueryFromClient processCommand junk zsize server ae maxlen c' (Arrived (take k rest)) = Some (Some c'', n)"
    if "0 < k" "rest \<noteq> []" for k
    using readQuery_ok [OF assms(1) ok _ _ assms(4), of c' "take k rest" "drop k rest" junk zsize server ae] m(3) that by fastforce
  ultimately show ?thesis using m(1,2) receives_completes [OF assms(1,2) rest assms(4,5)] by auto
qed

text \<open>A dispatcher that writes down the commands it is given.\<close>

definition log_command :: "byte list list list queryClient_scheme \<Rightarrow> byte list list list queryClient_scheme \<times> bool" where
  "log_command c = (queryClient.more_update (\<lambda>l. l @ [map sds_str (c_argv c)]) c, True)"

lemma log_command_dispatches: "dispatches log_command (\<lambda>l args. l @ [args])"
  by (simp add: dispatches_def log_command_def)

theorem query_commands_witness:
  "\<exists>c c'. createClient (\<lambda>i. 170) some_server True 1 [] 0 0 ([] :: byte list list list) 5 = Some (Some c) \<and>
     receives log_command (\<lambda>i. 170) (\<lambda>n. n) some_server (\<lambda>c. True) (1024 * 1024 * 1024) c
       (command_bytes [[83, 69, 84], [107], [13, 10, 0]] @ command_bytes [[80, 73, 78, 71]]) c' [] \<and>
     queryClient.more c' = [[[83, 69, 84], [107], [13, 10, 0]], [[80, 73, 78, 71]]]"
proof -
  let ?cs = "[[[83, 69, 84], [107], [13, 10, 0]], [[80, 73, 78, 71]]] :: byte list list list"
  obtain q where "sdsempty (\<lambda>i. 170) = Some q" using sdsempty_is by blast
  then obtain c where c: "createClient (\<lambda>i. 170) some_server True 1 [] 0 0 ([] :: byte list list list) 5 = Some (Some c)"
    by (simp add: createClient_def)
  have ok: "list_all command_ok ?cs" by (simp add: command_ok_def)
  have m: "REDIS_MAX_QUERYBUF_LEN \<le> 1024 * 1024 * 1024" by simp
  have e: "concat (map command_bytes ?cs) = command_bytes [[83, 69, 84], [107], [13, 10, 0]] @ command_bytes [[80, 73, 78, 71]]" by simp
  note t = query_commands [OF log_command_dispatches ok c m, where junk = "\<lambda>i. 170" and zsize = "\<lambda>n. n" and ae = "\<lambda>c. True"]
  obtain c' where r: "receives log_command (\<lambda>i. 170) (\<lambda>n. n) some_server (\<lambda>c. True) (1024 * 1024 * 1024) c (concat (map command_bytes ?cs)) c' []"
    using t [OF receives.start] by blast
  then show ?thesis using t [OF r] c unfolding e by auto
qed

section \<open>Lines\<close>

lemma inline_args_ok:
  assumes "length (c_argv c) + length as \<le> c_argv_size c"
  shows "inline_args c as = Some (c\<lparr>c_argv := c_argv c @ filter (\<lambda>a. sdslen a \<noteq> 0) as\<rparr>)"
  using assms
proof (induction as arbitrary: c)
  case (Cons a as)
  then show ?case by (cases "sdslen a \<noteq> 0") (simp_all add: argv_push_def)
qed simp

lemma inline_newline:
  assumes "10 \<notin> set t" "0 \<notin> set t" "t = [] \<or> last t \<noteq> 13" and b_def: "b = t @ (if crlf then [13, 10] else [10]) @ r"
  shows "\<exists>n. strchr_at b 0 10 = Some (Some n) \<and>
    (if n \<noteq> 0 then map_option (\<lambda>x. x = 13) (rd b (n - 1)) else Some False) = Some crlf \<and> (if crlf then n - 1 else n) = length t"
proof (cases crlf)
  case True
  have "strchr_at b 0 10 = Some (Some (length (t @ [13])))"
    using strchr_found [of 10 "t @ [13]" "[]" r] assms(1,2) True by (simp add: b_def)
  then show ?thesis using True by (simp add: rd_def b_def nth_append)
next
  case False
  have "strchr_at b 0 10 = Some (Some (length t))" using strchr_found [of 10 t "[]" r] assms(1,2) False by (simp add: b_def)
  moreover have "(if length t \<noteq> 0 then map_option (\<lambda>x. x = 13) (rd b (length t - 1)) else Some False) = Some False"
    using assms(3) False by (cases t rule: rev_cases) (simp_all add: rd_def b_def nth_append)
  ultimately show ?thesis using False by auto
qed

text \<open>C37: a line of the inline protocol gives the nonempty arguments of \<open>sdssplitargs\<close>. Behind a line that ends
  with CR and LF the rest of the buffer is kept; behind a line that ends with LF alone the first byte
  of the rest, which is the first byte of the next request, is lost.\<close>

theorem inline_line:
  fixes c :: "'a queryClient_scheme"
  assumes "sds_is (c_querybuf c) (t @ (if crlf then [13, 10] else [10]) @ rest) f" "length t + length rest + 4 < 2 ^ 31"
    "10 \<notin> set t" "0 \<notin> set t" "t = [] \<or> last t \<noteq> 13" "sdssplitargs junk (t @ [0]) = Some (Some args)"
  shows "\<exists>c'. processInlineBuffer junk zsize server ae c = Some (c', True) \<and> c_argv c' = filter (\<lambda>a. sdslen a \<noteq> 0) args \<and>
    sds_str (c_querybuf c') = (if crlf then rest else drop 1 rest)"
proof -
  let ?q = "c_querybuf c"
  let ?l = "t @ (if crlf then [13, 10] else [10]) @ rest"
  obtain r where b: "sds_buf ?q = ?l @ 0 # r" using sds_is_cases [OF assms(1)] by (metis sds.select_convs(3))
  have b': "sds_buf ?q = t @ (if crlf then [13, 10] else [10]) @ rest @ 0 # r" using b by simp
  obtain n where n: "strchr_at (sds_buf ?q) 0 10 = Some (Some n)"
    "(if n \<noteq> 0 then map_option (\<lambda>x. x = 13) (rd (sds_buf ?q) (n - 1)) else Some False) = Some crlf" "(if crlf then n - 1 else n) = length t"
    using inline_newline [OF assms(3-5) b'] by blast
  obtain aux where aux: "sdsnewlen junk (Some (sds_buf ?q)) (length t) = Some aux" "sds_is aux t 0"
    using sdsnewlen_is [of "length t" "sds_buf ?q" junk] assms(2) by (auto simp: b')
  have ab: "sds_buf aux = t @ [0]" using sds_is_cases [OF aux(2)] by (metis length_0_conv sds.select_convs(3))
  have "length ?l < 2 ^ 31" "length t + 2 < 2 ^ 31" using assms(2) by simp_all
  then obtain q' f' where q': "sdsrange ?q (of_nat (length t + 2)) (- 1) = Some q'" "sds_is q' (drop (length t + 2) ?l) f'"
    using sdsrange_tail [OF assms(1), of "length t + 2"] by blast
  have d: "drop (length t + 2) ?l = (if crlf then rest else drop 1 rest)" by simp
  define c1 where "c1 = (if length t = 0 \<and> REDIS_SLAVE \<in> c_flags c then c\<lparr>c_repl_ack_time := server_unixtime server\<rparr> else c)"
  define c2 where "c2 = (if args \<noteq> [] then c1\<lparr>c_querybuf := q', c_argv_size := length args\<rparr> else c1\<lparr>c_querybuf := q'\<rparr>)"
  have i: "inline_args (c2\<lparr>c_argv := []\<rparr>) args = Some (c2\<lparr>c_argv := filter (\<lambda>a. sdslen a \<noteq> 0) args\<rparr>)"
    by (subst inline_args_ok) (simp_all add: c2_def)
  have "processInlineBuffer junk zsize server ae c = Some (c2\<lparr>c_argv := filter (\<lambda>a. sdslen a \<noteq> 0) args\<rparr>, True)"
    unfolding processInlineBuffer_def Let_def n(1) bind.simps option.case n(2)
    unfolding bind.simps n(3) aux(1) ab assms(6) option.case q'(1)
    unfolding bind.simps c1_def [symmetric] c2_def [symmetric] i by simp
  moreover have "sds_str (c_querybuf (c2\<lparr>c_argv := filter (\<lambda>a. sdslen a \<noteq> 0) args\<rparr>)) = (if crlf then rest else drop 1 rest)"
    using sds_isD(2) [OF q'(2)] unfolding d by (simp add: c2_def)
  ultimately show ?thesis by auto
qed

text \<open>The quoted string \<open>P\<close>, LF, and the beginning of a second request, of which one byte is lost.\<close>

theorem inline_line_witness:
  "\<exists>c s c'. createClient (\<lambda>i. 170) some_server True 1 [] 0 0 () 5 = Some (Some c) \<and>
    sdscatlen (\<lambda>i. 170) (c_querybuf c) (repr_of [80] @ [10, 71, 69, 84]) 7 = Some s \<and>
    processInlineBuffer (\<lambda>i. 170) (\<lambda>n. n) some_server (\<lambda>c. True) (c\<lparr>c_querybuf := s\<rparr>) = Some (c', True) \<and>
    map sds_str (c_argv c') = [[80]] \<and> sds_str (c_querybuf c') = [69, 84]"
proof -
  obtain q where "sdsempty (\<lambda>i. 170) = Some q" using sdsempty_is by blast
  then obtain c :: queryClient where c: "createClient (\<lambda>i. 170) some_server True 1 [] 0 0 () 5 = Some (Some c)" by (simp add: createClient_def)
  have r: "repr_of [80] = [34, 80, 34]" by (simp add: repr_of_def repr_byte_def isprint_def)
  obtain s f where s: "sdscatlen (\<lambda>i. 170) (c_querybuf c) (repr_of [80] @ [10, 71, 69, 84]) 7 = Some s" "sds_is s (repr_of [80] @ [10, 71, 69, 84]) f"
    using sdscatlen_is [OF createClient_ok(8) [OF c], of 7 "repr_of [80] @ [10, 71, 69, 84]" "\<lambda>i. 170"] by (auto simp: r)
  obtain a g where a: "sdssplitargs (\<lambda>i. 170) (repr_of [80] @ [0]) = Some (Some [a])" "sds_is a [80] g"
    using sdssplitargs_repr [of "[80]" "\<lambda>i. 170"] by auto
  have l: "sds_is (c_querybuf (c\<lparr>c_querybuf := s\<rparr>)) (repr_of [80] @ (if False then [13, 10] else [10]) @ [71, 69, 84]) f" using s(2) by simp
  have "\<exists>c'. processInlineBuffer (\<lambda>i. 170) (\<lambda>n. n) some_server (\<lambda>c. True) (c\<lparr>c_querybuf := s\<rparr>) = Some (c', True) \<and>
      c_argv c' = filter (\<lambda>a. sdslen a \<noteq> 0) [a] \<and> sds_str (c_querybuf c') = (if False then [71, 69, 84] else drop 1 [71, 69, 84])"
    using l by (rule inline_line) (use a in \<open>simp_all add: r\<close>)
  then show ?thesis using c s(1) sds_isD(2,3) [OF a(2)] by auto
qed

section \<open>Malformed requests\<close>

lemma more_frame:
  fixes c c' :: "'a queryClient_scheme"
  assumes "out_frame c c'"
  shows "c_querybuf c' = c_querybuf c" "queryClient.more c' = queryClient.more c"
proof -
  have "redisClient.more c' = redisClient.more c" using assms by (simp add: out_frame_def)
  then show "c_querybuf c' = c_querybuf c" "queryClient.more c' = queryClient.more c" by (cases c; cases c'; simp)+
qed

text \<open>The client is answered with an error, will be closed and ran no command; what follows is ignored.\<close>

definition refused :: "'a queryClient_scheme \<Rightarrow> 'a queryClient_scheme \<Rightarrow> byte list \<Rightarrow> bool" where
  "refused c c' msg \<longleftrightarrow> (\<forall>h. out_stream h c' = out_stream h c @ bytes_of ''-ERR '' @ msg @ [13, 10]) \<and>
     REDIS_CLOSE_AFTER_REPLY \<in> c_flags c' \<and> queryClient.more c' = queryClient.more c"

lemma refused_ignores: "refused c c' msg \<Longrightarrow> processInputBuffer processCommand junk zsize server ae c' = Some c'"
  by (subst processInputBuffer.simps) (simp add: refused_def)

text \<open>A client that can be answered: its socket can be watched, its output is well formed and has room for an error.\<close>

definition answerable :: "(nat \<Rightarrow> nat) \<Rightarrow> ('a queryClient_scheme \<Rightarrow> bool) \<Rightarrow> 'a queryClient_scheme \<Rightarrow> bool" where
  "answerable zsize ae c \<longleftrightarrow> (\<forall>c. ae c) \<and> zsize_ok zsize \<and> out_ok zsize c \<and> takes_reply c \<and> out_room zsize c 3"

lemma refusedI:
  fixes c :: "'a queryClient_scheme"
  assumes "replies zsize 3 g (bytes_of ''-ERR '' @ msg @ [13, 10])" "answerable zsize ae c"
    "sds_is (c_querybuf c) t f" "length t < 2 ^ 31"
  shows "\<exists>c'. Option.bind (g c) (\<lambda>c. setProtocolError c 0) = Some c' \<and> refused c c' msg"
proof -
  obtain c1 where c1: "g c = Some c1" "appends zsize 3 c (bytes_of ''-ERR '' @ msg @ [13, 10]) c1"
    using assms(1,2) unfolding replies_def answerable_def by blast
  note fr = more_frame [OF appendsD(2) [OF c1(2)]]
  obtain q f' where "sdsrange (c_querybuf c) (of_nat 0) (- 1) = Some q" using sdsrange_tail [OF assms(3,4), of 0] by auto
  then have "setProtocolError c1 0 = Some (c1\<lparr>c_flags := insert REDIS_CLOSE_AFTER_REPLY (c_flags c1), c_querybuf := q\<rparr>)"
    using fr(1) by (simp add: setProtocolError_def Let_def)
  moreover have "refused c (c1\<lparr>c_flags := insert REDIS_CLOSE_AFTER_REPLY (c_flags c1), c_querybuf := q\<rparr>) msg"
    using c1(2) fr(2) by (simp add: refused_def appends_def out_stream_def)
  ultimately show ?thesis using c1(1) by auto
qed

text \<open>A header line that is not what the parser expects in the state of the client, and the error it gives.\<close>

definition malformed :: "'a queryClient_scheme \<Rightarrow> byte list \<Rightarrow> byte list \<Rightarrow> bool" where
  "malformed c line msg \<longleftrightarrow>
     (if c_multibulklen c = 0
      then c_argv c = [] \<and> (c_reqtype c = 0 \<or> c_reqtype c = REDIS_REQ_MULTIBULK) \<and>
        (\<exists>t. line = ch CHR ''*'' # t \<and> (\<forall>v :: u64. t = sdec (sint v) \<longrightarrow> 1024 * 1024 < sint v)) \<and>
        msg = bytes_of ''Protocol error: invalid multibulk length''
      else c_reqtype c = REDIS_REQ_MULTIBULK \<and> c_bulklen c = - 1 \<and>
        (\<exists>b t. line = b # t \<and>
          (if b = ch CHR ''$''
           then (\<forall>v :: u64. t = sdec (sint v) \<longrightarrow> sint v < 0 \<or> 512 * 1024 * 1024 < sint v) \<and>
             msg = bytes_of ''Protocol error: invalid bulk length''
           else msg = bytes_of ''Protocol error: expected '' @ [39, ch CHR ''$'', 39] @ bytes_of '', got '' @ [39, if b = 10 then 32 else b, 39])))"

lemma mbulk_error_ok:
  fixes c :: "'a queryClient_scheme"
  assumes "answerable zsize ae c" "sds_is (c_querybuf c) t f" "length t < 2 ^ 31" "0 \<notin> set (bytes_of msg)" "length msg < 100"
  shows "\<exists>c'. mbulk_error junk zsize server ae c msg 0 = Some (Return c' False) \<and> refused c c' (bytes_of msg)"
proof -
  have "replies zsize 3 (\<lambda>c. addReplyError junk zsize server ae c (bytes_of msg @ [0])) (bytes_of ''-ERR '' @ bytes_of msg @ [13, 10])"
    using assms(1,4,5) by (intro addReplyError_ok) (simp_all add: answerable_def)
  from refusedI [OF this assms(1-3)] show ?thesis by (auto simp: mbulk_error_def protocol_error_def)
qed

lemma header_line:
  assumes "sds_is q (line @ [13, 10] @ rest) f" "length (line @ [13, 10] @ rest) < 2 ^ 31" "13 \<notin> set line" "0 \<notin> set line" "line = b # t"
  shows "strchr_at (sds_buf q) 0 13 = Some (Some (length line))" "\<not> int (length line) > sint (sds_len q) - 2"
    "rd (sds_buf q) 0 = Some b" "memread (sds_buf q) (Suc 0) (length line - Suc 0) = Some t"
proof -
  obtain r where q: "sds_buf q = (line @ [13, 10] @ rest) @ 0 # r" using sds_is_cases [OF assms(1)] by (metis sds.select_convs(3))
  show "strchr_at (sds_buf q) 0 13 = Some (Some (length line))"
    using strchr_found [of 13 line "[]" "10 # rest @ 0 # r"] assms(3,4) by (simp add: q)
  show "\<not> int (length line) > sint (sds_len q) - 2" using sds_is_sint [OF assms(1,2)] by simp
  show "rd (sds_buf q) 0 = Some b" "memread (sds_buf q) (Suc 0) (length line - Suc 0) = Some t"
    by (simp_all add: q rd_def memread_def assms(5))
qed

lemma mbulk_count_malformed:
  fixes c :: "'a queryClient_scheme"
  assumes "answerable zsize ae c" "sds_is (c_querybuf c) (line @ [13, 10] @ rest) f" "length (line @ [13, 10] @ rest) < 2 ^ 31"
    "13 \<notin> set line" "0 \<notin> set line" "malformed c line msg" "c_multibulklen c = 0"
  shows "\<exists>c'. mbulk_count junk zsize server ae c = Some (Return c' False) \<and> refused c c' msg"
proof -
  obtain t where t: "line = ch CHR ''*'' # t" "\<forall>v :: u64. t = sdec (sint v) \<longrightarrow> 1024 * 1024 < sint v" "c_argv c = []"
    "msg = bytes_of ''Protocol error: invalid multibulk length''"
    using assms(6,7) by (auto simp: malformed_def)
  note h = header_line [OF assms(2-5) t(1)]
  obtain c' where c': "mbulk_error junk zsize server ae c ''Protocol error: invalid multibulk length'' 0 = Some (Return c' False)" "refused c c' msg"
    using mbulk_error_ok [OF assms(1-3), of "''Protocol error: invalid multibulk length''" junk server] by (auto simp: t(4))
  have "case string2ll t of None \<Rightarrow> True | Some ll \<Rightarrow> 1024 * 1024 < sint ll" using t(2) by (auto simp: string2ll_iff split: option.splits)
  then have "mbulk_count junk zsize server ae c = Some (Return c' False)"
    using t(3) h c'(1) by (auto simp: mbulk_count_def Let_def split: option.splits)
  then show ?thesis using c'(2) by blast
qed

lemma bulk_length_malformed:
  fixes c :: "'a queryClient_scheme"
  assumes "answerable zsize ae c" "sds_is (c_querybuf c) (line @ [13, 10] @ rest) f" "length (line @ [13, 10] @ rest) < 2 ^ 31"
    "13 \<notin> set line" "0 \<notin> set line" "malformed c line msg" "c_multibulklen c \<noteq> 0"
  shows "\<exists>c'. bulk_length junk zsize server ae c 0 = Some (Return c' False) \<and> refused c c' msg"
proof -
  obtain b t where t: "line = b # t" "c_bulklen c = - 1"
    "if b = ch CHR ''$'' then (\<forall>v :: u64. t = sdec (sint v) \<longrightarrow> sint v < 0 \<or> 512 * 1024 * 1024 < sint v) \<and>
         msg = bytes_of ''Protocol error: invalid bulk length''
     else msg = bytes_of ''Protocol error: expected '' @ [39, ch CHR ''$'', 39] @ bytes_of '', got '' @ [39, if b = 10 then 32 else b, 39]"
    using assms(6,7) by (auto simp: malformed_def)
  note h = header_line [OF assms(2-5) t(1)]
  show ?thesis
  proof (cases "b = ch CHR ''$''")
    case True
    obtain c' where c': "mbulk_error junk zsize server ae c ''Protocol error: invalid bulk length'' 0 = Some (Return c' False)" "refused c c' msg"
      using mbulk_error_ok [OF assms(1-3), of "''Protocol error: invalid bulk length''" junk server] t(3) True by auto
    have "case string2ll t of None \<Rightarrow> True | Some ll \<Rightarrow> sint ll < 0 \<or> 512 * 1024 * 1024 < sint ll"
      using t(3) True by (auto simp: string2ll_iff split: option.splits)
    then have "bulk_length junk zsize server ae c 0 = Some (Return c' False)"
      using t(2) h c'(1) True by (auto simp: bulk_length_def Let_def split: option.splits)
    then show ?thesis using c'(2) by blast
  next
    case False
    define x where "x = bytes_of ''Protocol error: expected '' @ [39, ch CHR ''$'', 39] @ bytes_of '', got '' @ [39, b, 39]"
    have b: "b \<noteq> 13" "b \<noteq> 0" using assms(4,5) t(1) by auto
    have x: "0 \<notin> set x" "length x + SDS_MAX_PREALLOC < 2 ^ 32" "map (\<lambda>b. if b = 13 \<or> b = 10 then 32 else b) x = msg"
      using b t(3) False by (simp_all add: x_def)
    have "replies zsize 3 (\<lambda>c. addReplyErrorFormat junk zsize server ae c 38 x) (bytes_of ''-ERR '' @ msg @ [13, 10])"
      using addReplyErrorFormat_ok [of ae zsize x junk server 38] assms(1) x by (simp add: answerable_def)
    from refusedI [OF this assms(1-3)] obtain c' where
      c': "Option.bind (addReplyErrorFormat junk zsize server ae c 38 x) (\<lambda>c. setProtocolError c 0) = Some c'" "refused c c' msg" by blast
    have "bulk_length junk zsize server ae c 0 =
        Option.bind (Option.bind (addReplyErrorFormat junk zsize server ae c 38 x) (\<lambda>c. setProtocolError c 0)) (\<lambda>c. Some (Return c False))"
      using t(2) h False by (simp add: bulk_length_def Let_def x_def)
    then show ?thesis using c' by simp
  qed
qed



end
