(* ===== verification/Aof_Props.thy ===== *)
theory Aof_Props
  imports Aof Query_Props
begin

text \<open>
  The append-only file: what the commands of a running server leave in it, and what a server that loads it gets back.
  Specifications are streams of bytes (\<open>command_bytes\<close>, \<open>rw_stream\<close>) and lists of commands; \<open>aof_run\<close> is the
  server that feeds, flushes and rewrites its file, and \<open>aof_inv\<close> its invariant.
\<close>

section \<open>Writing commands\<close>

lemma cat_header_ok:
  assumes "length buf = 32" "sds_is dst t f" "length t + length (bulk_count pre (sint n)) + SDS_MAX_PREALLOC < 2 ^ 32"
  shows "\<exists>dst' buf' f'. cat_header junk buf dst pre n = Some (dst', buf') \<and> length buf' = 32 \<and> sds_is dst' (t @ bulk_count pre (sint n)) f'"
proof -
  define d where "d = sdec (sint n)"
  have ld: "length d \<le> 20" using sdec_length_word by (simp add: d_def)
  obtain b0 b where b: "buf = b0 # b" "length b = 31" using assms(1) by (cases buf) auto
  define z where "z = drop (length d + 1) b"
  have ll: "ll2string b 31 n = Some (d @ 0 # z, of_nat (length d))"
    using ll2string_sdec [of 31 b n] ld b(2) by (simp add: z_def d_def [symmetric])
  have lz: "length z = 30 - length d" using b(2) by (simp add: z_def)
  obtain x y where z: "z = x # y" using lz ld by (cases z) auto
  have w1: "wr (pre # d @ 0 # z) (Suc (length d)) 13 = Some ((pre # d) @ 13 # z)"
    using wr_at [of "pre # d" "length d + 1" 0 z 13] by simp
  have w2: "wr ((pre # d) @ 13 # z) (Suc (Suc (length d))) 10 = Some (bulk_count pre (sint n) @ y)"
    using wr_at [of "(pre # d) @ [13]" "length d + 2" x y 10] by (simp add: z bulk_count_def d_def)
  have l: "length (bulk_count pre (sint n)) = length d + 3" using length_bulk_count(1) by (simp add: d_def)
  obtain dst' f' where s: "sdscatlen junk dst (bulk_count pre (sint n) @ y) (length d + 3) = Some dst'" "sds_is dst' (t @ bulk_count pre (sint n)) f'"
    using sdscatlen_is [OF assms(2), of "length d + 3" "bulk_count pre (sint n) @ y" junk] assms(3) by (auto simp: l)
  note ul = unat_length_sdec [of n, folded d_def]
  have "wr buf 0 pre = Some (pre # b)" by (simp add: wr_def b(1))
  then have "cat_header junk buf dst pre n = Some (dst', bulk_count pre (sint n) @ y)"
    using ll w1 w2 s(1) by (simp add: cat_header_def Let_def ul numeral_3_eq_3)
  moreover have "length (bulk_count pre (sint n) @ y) = 32" using lz z ld by (simp add: l)
  ultimately show ?thesis using s(2) by blast
qed

lemma cat_args_ok:
  assumes "length buf = 32" "sds_is dst t f" "length t + length (concat (map bulk_string (map obj_string argv))) + SDS_MAX_PREALLOC < 2 ^ 32"
  shows "\<exists>dst' f'. cat_args junk buf dst argv = Some dst' \<and> sds_is dst' (t @ concat (map bulk_string (map obj_string argv))) f'"
  using assms
proof (induction argv arbitrary: buf dst t f)
  case (Cons ob argv)
  let ?s = "obj_string ob"
  let ?h = "bulk_count (ch CHR ''$'') (int (length ?s))"
  obtain ob' where ob: "getDecodedObject junk ob = Some ob'" "sds_of ob' = ?s"
    using getDecodedObject_string [of junk ob] by (auto simp: sds_of_def)
  have b: "length t + length ?h + length ?s + 2 + length (concat (map bulk_string (map obj_string argv))) + SDS_MAX_PREALLOC < 2 ^ 32"
    using Cons.prems(3) by (simp add: bulk_string_def [of ?s])
  then have i: "sint (of_nat (length ?s) :: u64) = int (length ?s)" by (intro sint_of_nat_u64) simp
  obtain d1 buf1 f1 where d1: "cat_header junk buf dst (ch CHR ''$'') (of_nat (length ?s)) = Some (d1, buf1)" "length buf1 = 32" "sds_is d1 (t @ ?h) f1"
    using cat_header_ok [OF Cons.prems(1,2), of "ch CHR ''$''" "of_nat (length ?s)" junk] b unfolding i by auto
  obtain d2 f2 where d2: "sdscatlen junk d1 ?s (length ?s) = Some d2" "sds_is d2 (t @ ?h @ ?s) f2"
    using sdscatlen_is [OF d1(3), of "length ?s" ?s junk] b by auto
  obtain d3 f3 where d3: "sdscatlen junk d2 [13, 10] 2 = Some d3" "sds_is d3 (t @ bulk_string ?s) f3"
    using sdscatlen_is [OF d2(2), of 2 "[13, 10]" junk] b by (auto simp: bulk_string_def)
  have "length (t @ bulk_string ?s) + length (concat (map bulk_string (map obj_string argv))) + SDS_MAX_PREALLOC < 2 ^ 32"
    using Cons.prems(3) by simp
  from Cons.IH [OF d1(2) d3(2) this] show ?case using ob d1(1) d2(1) d3(1) by (auto simp: Let_def)
qed auto

text \<open>\<open>catAppendOnlyGenericCommand\<close> writes a command in the form that the parser of requests reads.\<close>

lemma catAppend_ok:
  assumes "sds_is dst t f" "length t + length (command_bytes (map obj_string argv)) + SDS_MAX_PREALLOC < 2 ^ 32" "length argv < 2 ^ 32"
  shows "\<exists>dst' f'. catAppendOnlyGenericCommand junk dst argv = Some dst' \<and> sds_is dst' (t @ command_bytes (map obj_string argv)) f'"
proof -
  have i: "sint (of_nat (length argv) :: u64) = int (length argv)" using assms(3) by (intro sint_of_nat_u64) simp
  have b: "length t + length (bulk_count (ch CHR ''*'') (int (length argv))) + length (concat (map bulk_string (map obj_string argv))) + SDS_MAX_PREALLOC < 2 ^ 32"
    using assms(2) by (simp add: command_bytes_def)
  obtain d1 buf1 f1 where d1: "cat_header junk (stackbuf junk 32) dst (ch CHR ''*'') (of_nat (length argv)) = Some (d1, buf1)" "length buf1 = 32"
      "sds_is d1 (t @ bulk_count (ch CHR ''*'') (int (length argv))) f1"
    using cat_header_ok [OF length_stackbuf assms(1), of "ch CHR ''*''" "of_nat (length argv)" junk junk] b unfolding i by auto
  have "length (t @ bulk_count (ch CHR ''*'') (int (length argv))) + length (concat (map bulk_string (map obj_string argv))) + SDS_MAX_PREALLOC < 2 ^ 32"
    using b by simp
  from cat_args_ok [OF d1(2,3) this] show ?thesis using d1(1) by (auto simp: catAppendOnlyGenericCommand_def command_bytes_def)
qed

text \<open>One command after the other, each appended with a call of its own.\<close>

fun cat_commands :: "(nat \<Rightarrow> byte) \<Rightarrow> sds \<Rightarrow> robj list list \<Rightarrow> sds option" where
  "cat_commands junk dst [] = Some dst"
| "cat_commands junk dst (argv # cmds) = do {
     dst \<leftarrow> catAppendOnlyGenericCommand junk dst argv;
     cat_commands junk dst cmds
   }"

lemma cat_commands_ok:
  assumes "sds_is dst t f" "length t + length (concat (map command_bytes (map (map obj_string) cmds))) + SDS_MAX_PREALLOC < 2 ^ 32"
    "list_all command_ok (map (map obj_string) cmds)"
  shows "\<exists>dst' f'. cat_commands junk dst cmds = Some dst' \<and> sds_is dst' (t @ concat (map command_bytes (map (map obj_string) cmds))) f'"
  using assms
proof (induction cmds arbitrary: dst t f)
  case (Cons argv cmds)
  have "length t + length (command_bytes (map obj_string argv)) + SDS_MAX_PREALLOC < 2 ^ 32" "length argv < 2 ^ 32"
    using Cons.prems(2,3) by (simp_all add: command_ok_def)
  then obtain d f1 where d: "catAppendOnlyGenericCommand junk dst argv = Some d" "sds_is d (t @ command_bytes (map obj_string argv)) f1"
    using catAppend_ok [OF Cons.prems(1)] by blast
  have "length (t @ command_bytes (map obj_string argv)) + length (concat (map command_bytes (map (map obj_string) cmds))) + SDS_MAX_PREALLOC < 2 ^ 32"
    "list_all command_ok (map (map obj_string) cmds)"
    using Cons.prems(2,3) by simp_all
  from Cons.IH [OF d(2) this] show ?case using d(1) by auto
qed auto

section \<open>The buffer of a rewrite\<close>

text \<open>The bytes of the blocks; a block is an array of which the first \<open>rw_used\<close> bytes are used; all blocks but the
  last are full.\<close>

definition rw_stream :: "aofrwblock list \<Rightarrow> byte list" where
  "rw_stream blocks = concat (map (\<lambda>b. take (rw_used b) (rw_buf b)) blocks)"

definition block_ok :: "aofrwblock \<Rightarrow> bool" where
  "block_ok b \<longleftrightarrow> length (rw_buf b) = AOF_RW_BUF_BLOCK_SIZE \<and> rw_used b + rw_free b = AOF_RW_BUF_BLOCK_SIZE"

definition rw_ok :: "aofrwblock list \<Rightarrow> bool" where
  "rw_ok blocks \<longleftrightarrow> list_all block_ok blocks \<and> list_all (\<lambda>b. rw_free b = 0) (butlast blocks)"

lemma rw_stream_simps [simp]:
  "rw_stream [] = []" "rw_stream (b # bs) = take (rw_used b) (rw_buf b) @ rw_stream bs" "rw_stream (xs @ ys) = rw_stream xs @ rw_stream ys"
  by (simp_all add: rw_stream_def)

lemma fresh_block_ok: "block_ok (fresh_block junk)" "rw_used (fresh_block junk) = 0" "rw_free (fresh_block junk) \<noteq> 0"
  by (simp_all add: block_ok_def fresh_block_def)

lemma fill_block_ok:
  assumes "rw_ok blocks" "len \<le> length s"
  shows "\<exists>blocks' k. fill_block blocks s len = Some (blocks', drop k s, len - k) \<and> k \<le> len \<and> rw_ok blocks' \<and>
    rw_stream blocks' = rw_stream blocks @ take k s \<and> (k < len \<longrightarrow> list_all (\<lambda>b. rw_free b = 0) blocks')"
proof (cases blocks rule: rev_cases)
  case Nil
  then show ?thesis using assms by (intro exI [of _ blocks] exI [of _ 0]) (simp add: fill_block_def)
next
  case (snoc bs b)
  have b: "length (rw_buf b) = AOF_RW_BUF_BLOCK_SIZE" "rw_used b + rw_free b = AOF_RW_BUF_BLOCK_SIZE"
    "list_all block_ok bs" "list_all (\<lambda>b. rw_free b = 0) bs"
    using assms(1) by (simp_all add: snoc rw_ok_def block_ok_def)
  define k where "k = (if rw_free b < len then rw_free b else len)"
  define b' where "b' = \<lparr>rw_used = rw_used b + k, rw_free = rw_free b - k, rw_buf = take (rw_used b) (rw_buf b) @ take k s @ drop (rw_used b + k) (rw_buf b)\<rparr>"
  have k: "k \<le> len" "k \<le> rw_free b" "k < len \<longrightarrow> rw_free b - k = 0" by (auto simp: k_def)
  have m: "memread s 0 k = Some (take k s)" "memwrite (rw_buf b) (rw_used b) (take k s) = Some (rw_buf b')"
    using k b(1,2) assms(2) by (simp_all add: memread_def memwrite_def b'_def)
  have f: "fill_block blocks s len = (if k = 0 then Some (blocks, s, len) else Some (bs @ [b'], drop k s, len - k))"
    using m by (simp add: fill_block_def snoc Let_def k_def [symmetric]) (simp add: b'_def)
  have s: "take (rw_used b') (rw_buf b') = take (rw_used b) (rw_buf b) @ take k s"
    using k b(1,2) assms(2) by (simp add: b'_def)
  have "block_ok b'" using k b(1,2) assms(2) by (simp add: block_ok_def b'_def)
  then have "rw_ok (bs @ [b'])" "rw_stream (bs @ [b']) = rw_stream blocks @ take k s" "k < len \<longrightarrow> list_all (\<lambda>b. rw_free b = 0) (bs @ [b'])"
    using b(3,4) s k(3) by (simp_all add: rw_ok_def snoc) (simp add: b'_def)
  moreover have "k = 0 \<Longrightarrow> bs @ [b'] = blocks" using append_take_drop_id [of "rw_used b" "rw_buf b"] by (simp add: snoc b'_def)
  ultimately show ?thesis using f k(1) by (intro exI [of _ "bs @ [b']"] exI [of _ k]) auto
qed

lemma rw_append_ok:
  assumes "rw_ok blocks" "len \<le> length s"
  shows "\<exists>blocks'. rw_append_loop junk blocks s len = Some blocks' \<and> rw_ok blocks' \<and> rw_stream blocks' = rw_stream blocks @ take len s"
  using assms
proof (induction junk blocks s len rule: rw_append_loop.induct)
  case (1 junk blocks s len)
  show ?case
  proof (cases "len = 0")
    case False
    obtain bs k where f: "fill_block blocks s len = Some (bs, drop k s, len - k)" "k \<le> len" "rw_ok bs"
        "rw_stream bs = rw_stream blocks @ take k s" "k < len \<longrightarrow> list_all (\<lambda>b. rw_free b = 0) bs"
      using fill_block_ok [OF 1(2,3)] by blast
    note u = rw_append_loop.simps [of junk blocks s len, unfolded if_not_P [OF False] f(1) option.case prod.case]
    show ?thesis
    proof (cases "len - k = 0")
      case True
      then show ?thesis using f(2-4) u by auto
    next
      case False
      have "rw_ok (bs @ [fresh_block junk])" using f(3,5) False fresh_block_ok [of junk] by (simp add: rw_ok_def)
      then obtain blocks' where "rw_append_loop junk (bs @ [fresh_block junk]) (drop k s) (len - k) = Some blocks'" "rw_ok blocks'"
          "rw_stream blocks' = rw_stream (bs @ [fresh_block junk]) @ take (len - k) (drop k s)"
        using 1(1) [OF \<open>len \<noteq> 0\<close> f(1) refl refl False] diff_le_mono [OF 1(3), of k] by auto
      moreover have "take k s @ take (len - k) (drop k s) = take len s" using f(2) by (metis le_add_diff_inverse take_add)
      ultimately show ?thesis using False f(4) fresh_block_ok(2) by (simp add: u)
    qed
  qed (use 1(2) in \<open>simp add: rw_append_loop.simps\<close>)
qed

lemma rw_size:
  assumes "rw_ok (aof_rewrite_buf_blocks sv)"
  shows "aofRewriteBufferSize sv = length (rw_stream (aof_rewrite_buf_blocks sv))"
proof (cases "aof_rewrite_buf_blocks sv" rule: rev_cases)
  case (snoc bs b)
  have "list_all block_ok bs \<Longrightarrow> list_all (\<lambda>b. rw_free b = 0) bs \<Longrightarrow> length (rw_stream bs) = length bs * AOF_RW_BUF_BLOCK_SIZE" for bs
    by (induction bs) (simp_all add: block_ok_def)
  then show ?thesis using assms by (simp add: aofRewriteBufferSize_def snoc rw_ok_def block_ok_def)
qed (simp add: aofRewriteBufferSize_def)

text \<open>The blocks are written completely, or the result is \<open>- 1\<close>.\<close>

lemma rw_write_ok:
  assumes "list_all block_ok blocks" "0 \<le> n"
  shows "\<exists>out' r. rw_write_loop w i out n blocks = Some (out', r) \<and>
    (r \<noteq> - 1 \<longrightarrow> out' = out @ rw_stream blocks \<and> r = n + int (length (rw_stream blocks))) \<and>
    ((\<forall>j < length blocks. w (i + j) = int (rw_used (blocks ! j))) \<longrightarrow> r \<noteq> - 1)"
  using assms
proof (induction blocks arbitrary: i out n)
  case (Cons b blocks)
  have b: "rw_used b \<le> length (rw_buf b)" using Cons.prems(1) by (simp add: block_ok_def)
  show ?case
  proof (cases "rw_used b \<noteq> 0 \<and> w i \<noteq> int (rw_used b)")
    case True
    then show ?thesis using b by (auto simp: memread_def intro!: exI [of _ 0])
  next
    case False
    define k where "k = int (rw_used b)"
    have u: "rw_write_loop w i out n (b # blocks) = rw_write_loop w (Suc i) (out @ take (rw_used b) (rw_buf b)) (n + k) blocks"
      using False b by (auto simp: memread_def k_def)
    have s: "(\<forall>j < length (b # blocks). w (i + j) = int (rw_used ((b # blocks) ! j))) \<Longrightarrow> (\<forall>j < length blocks. w (Suc i + j) = int (rw_used (blocks ! j)))"
      by auto
    have "list_all block_ok blocks" "0 \<le> n + k" using Cons.prems by (simp_all add: k_def)
    from Cons.IH [OF this, of "Suc i" "out @ take (rw_used b) (rw_buf b)"] obtain out' r where
      "rw_write_loop w (Suc i) (out @ take (rw_used b) (rw_buf b)) (n + k) blocks = Some (out', r)"
      "r \<noteq> - 1 \<longrightarrow> out' = (out @ take (rw_used b) (rw_buf b)) @ rw_stream blocks \<and> r = n + k + int (length (rw_stream blocks))"
      "(\<forall>j < length blocks. w (Suc i + j) = int (rw_used (blocks ! j))) \<longrightarrow> r \<noteq> - 1" by blast
    then show ?thesis using b s unfolding u by (auto simp: k_def)
  qed
qed simp

section \<open>Flushing\<close>

lemma sdsclear_is:
  assumes "sds_is s t f"
  shows "\<exists>s'. sdsclear s = Some s' \<and> sds_is s' [] (f + length t)"
proof -
  obtain r where s: "s = \<lparr>sds_len = of_nat (length t), sds_free = of_nat f, sds_buf = t @ 0 # r\<rparr>" "length r = f" "length t + f < 2 ^ 32"
    using sds_is_cases [OF assms] by blast
  have "sds_is \<lparr>sds_len = 0, sds_free = of_nat f + of_nat (length t), sds_buf = (t @ 0 # r)[0 := 0]\<rparr> [] (f + length t)"
    using s(2,3) by (intro sds_isI) (auto simp: nth_list_update)
  then show ?thesis by (simp add: sdsclear_def s(1) wr_def)
qed

text \<open>The buffer holds \<open>t\<close>, and the server knows the size of the file.\<close>

definition aof_ok :: "aofServer \<Rightarrow> byte list \<Rightarrow> bool" where
  "aof_ok sv t \<longleftrightarrow> (\<exists>f. sds_is (aof_buf sv) t f) \<and> length t < 2 ^ 31 \<and> aof_current_size sv = length (aof_file sv) \<and>
     aof_synced sv \<le> length (aof_file sv)"

definition aof_frame :: "aofServer \<Rightarrow> aofServer \<Rightarrow> bool" where
  "aof_frame sv sv' \<longleftrightarrow> aof_state sv' = aof_state sv \<and> aof_fsync sv' = aof_fsync sv \<and> aof_no_fsync_on_rewrite sv' = aof_no_fsync_on_rewrite sv \<and>
     aof_child_pid sv' = aof_child_pid sv \<and> rdb_child_pid sv' = rdb_child_pid sv \<and> aof_rewrite_buf_blocks sv' = aof_rewrite_buf_blocks sv \<and>
     aof_fd sv' = aof_fd sv \<and> aof_load_truncated sv' = aof_load_truncated sv"

text \<open>\<open>fsync\<close> is not left to the end of a running child.\<close>

definition syncs_now :: "aofServer \<Rightarrow> bool" where
  "syncs_now sv \<longleftrightarrow> aof_fsync sv = AOF_FSYNC_ALWAYS \<and> \<not> (aof_no_fsync_on_rewrite sv \<and> (aof_child_pid sv \<noteq> - 1 \<or> rdb_child_pid sv \<noteq> - 1))"

text \<open>\<open>sv'\<close> is \<open>sv\<close> after \<open>k\<close> bytes of its buffer have gone to the file.\<close>

definition moved :: "aofServer \<Rightarrow> byte list \<Rightarrow> nat \<Rightarrow> aofServer \<Rightarrow> bool" where
  "moved sv t k sv' \<longleftrightarrow> aof_ok sv' (drop k t) \<and> aof_file sv' = aof_file sv @ take k t \<and> aof_synced sv \<le> aof_synced sv' \<and>
     aof_frame sv sv' \<and> aof_selected_db sv' = aof_selected_db sv"

lemma flush_error_ok:
  assumes "aof_ok sv t" "aof_file sv1 = aof_file sv @ take (nat nwritten) t" "- 1 \<le> nwritten" "nwritten < int (length t)"
    "aof_buf sv1 = aof_buf sv" "aof_current_size sv1 = aof_current_size sv" "aof_synced sv1 = aof_synced sv" "aof_frame sv sv1"
    "aof_selected_db sv1 = aof_selected_db sv"
  shows "\<exists>r. flush_error unixtime nwritten errno trunc_ok sv1 = Some r \<and>
    (case r of Continue sv' \<Rightarrow> aof_fsync sv \<noteq> AOF_FSYNC_ALWAYS \<and> (\<exists>k. moved sv t k sv')
     | Exit sv' \<Rightarrow> aof_fsync sv = AOF_FSYNC_ALWAYS \<and> (\<exists>k. aof_file sv' = aof_file sv @ take k t))"
proof -
  define k where "k = (if trunc_ok then 0 else nat nwritten)"
  define sv2 where "sv2 = (let can_log = unixtime - last_write_error_log sv1 > AOF_WRITE_LOG_ERROR_RATE;
      sv = (if can_log then sv1\<lparr>last_write_error_log := unixtime\<rparr> else sv1)
    in if nwritten = - 1 then (if can_log then sv\<lparr>aof_last_write_errno := errno\<rparr> else sv)
       else if trunc_ok then sv\<lparr>aof_file := ftruncate (aof_file sv) (aof_current_size sv), aof_last_write_errno := ENOSPC\<rparr>
       else sv\<lparr>aof_last_write_errno := ENOSPC\<rparr>)"
  have a: "aof_current_size sv = length (aof_file sv)" "length t < 2 ^ 31" "aof_synced sv \<le> length (aof_file sv)" using assms(1) by (simp_all add: aof_ok_def)
  have f2: "aof_file sv2 = aof_file sv @ take k t" "aof_frame sv sv2" "aof_buf sv2 = aof_buf sv" "aof_current_size sv2 = aof_current_size sv"
    "aof_synced sv2 = aof_synced sv" "aof_selected_db sv2 = aof_selected_db sv"
    using assms(2,5-9) a(1) by (auto simp: sv2_def k_def Let_def ftruncate_def aof_frame_def)
  have p: "aof_fsync sv2 = aof_fsync sv" using f2(2) by (simp add: aof_frame_def)
  have e: "flush_error unixtime nwritten errno trunc_ok sv1 =
      (if aof_fsync sv2 = AOF_FSYNC_ALWAYS then Some (Exit sv2)
       else let sv = sv2\<lparr>aof_last_write_status := False\<rparr>
            in if (if nwritten = - 1 \<or> trunc_ok then - 1 else nwritten) > 0 then do {
                 q \<leftarrow> sdsrange (aof_buf sv) (word_of_int nwritten) (- 1);
                 Some (Continue (sv\<lparr>aof_current_size := aof_current_size sv + nat nwritten, aof_buf := q\<rparr>))
               } else Some (Continue sv))"
    by (simp add: flush_error_def sv2_def Let_def)
  show ?thesis
  proof (cases "aof_fsync sv = AOF_FSYNC_ALWAYS")
    case True
    then show ?thesis using f2(1) by (auto simp: e p)
  next
    case False
    show ?thesis
    proof (cases "0 < nwritten \<and> \<not> trunc_ok")
      case True
      then have k: "nwritten = int k" "k < 2 ^ 31" "k \<le> length t" using assms(4) a(2) by (simp_all add: k_def)
      obtain g0 where "sds_is (aof_buf sv) t g0" using assms(1) by (auto simp: aof_ok_def)
      then obtain q g where "sdsrange (aof_buf sv) (of_nat k) (- 1) = Some q" "sds_is q (drop k t) g"
        using sdsrange_tail a(2) k(2) by blast
      then have q: "sdsrange (aof_buf sv) (word_of_int nwritten) (- 1) = Some q" "sds_is q (drop k t) g" by (simp_all add: k(1))
      then have "moved sv t k (sv2\<lparr>aof_last_write_status := False, aof_current_size := aof_current_size sv + k, aof_buf := q\<rparr>)"
        using f2 a k by (auto simp: moved_def aof_ok_def aof_frame_def)
      moreover have "flush_error unixtime nwritten errno trunc_ok sv1 =
          Some (Continue (sv2\<lparr>aof_last_write_status := False, aof_current_size := aof_current_size sv + k, aof_buf := q\<rparr>))"
        using True False q(1) f2(3,4) unfolding e p by (simp add: k(1))
      ultimately show ?thesis using False by auto
    next
      case False': False
      then have "k = 0" by (auto simp: k_def)
      then have "moved sv t 0 (sv2\<lparr>aof_last_write_status := False\<rparr>)"
        using f2 a assms(1) by (auto simp: moved_def aof_ok_def aof_frame_def)
      then show ?thesis using False False' by (auto simp: e p)
    qed
  qed
qed

lemma flush_fsync_frame:
  "aof_file (flush_fsync unixtime sync ok sv) = aof_file sv" "aof_buf (flush_fsync unixtime sync ok sv) = aof_buf sv"
  "aof_current_size (flush_fsync unixtime sync ok sv) = aof_current_size sv" "aof_selected_db (flush_fsync unixtime sync ok sv) = aof_selected_db sv"
  "aof_frame sv (flush_fsync unixtime sync ok sv)"
  "aof_synced (flush_fsync unixtime sync ok sv) = (if syncs_now sv \<and> ok then length (aof_file sv) else aof_synced sv)"
  by (auto simp: flush_fsync_def aof_do_fsync_def aof_background_fsync_def aof_frame_def syncs_now_def)

lemma flush_ok:
  assumes "aof_ok sv t" "- 1 \<le> nwritten" "nwritten \<le> int (length t)"
  shows "\<exists>r. flushAppendOnlyFile junk unixtime pending nwritten errno trunc_ok fsync_ok force sv = Some r \<and>
    (case r of Continue sv' \<Rightarrow> \<exists>k. moved sv t k sv' \<and> (syncs_now sv \<and> fsync_ok \<and> t \<noteq> [] \<longrightarrow> length t \<le> k \<and> aof_synced sv' = length (aof_file sv'))
     | Exit sv' \<Rightarrow> aof_fsync sv = AOF_FSYNC_ALWAYS \<and> (\<exists>k. aof_file sv' = aof_file sv @ take k t))"
proof -
  obtain f where b: "sds_is (aof_buf sv) t f" "length t < 2 ^ 31" "aof_current_size sv = length (aof_file sv)" "aof_synced sv \<le> length (aof_file sv)"
    using assms(1) by (auto simp: aof_ok_def)
  define sync where "sync = (aof_fsync sv = AOF_FSYNC_EVERYSEC \<and> pending)"
  define delay where "delay = (sync \<and> \<not> force)"
  have sl: "sdslen (aof_buf sv) = length t" "sint (sds_len (aof_buf sv)) = int (length t)" using sds_isD(3) [OF b(1)] sds_is_sint [OF b(1,2)] by simp_all
  have m0: "moved sv t 0 sv" "moved sv t 0 (sv\<lparr>aof_flush_postponed_start := unixtime\<rparr>)"
    using assms(1) by (simp_all add: moved_def aof_ok_def aof_frame_def)
  show ?thesis
  proof (cases "t = [] \<or> delay \<and> (aof_flush_postponed_start sv = 0 \<or> unixtime - aof_flush_postponed_start sv < 2)")
    case True
    have "delay \<Longrightarrow> \<not> syncs_now sv" by (auto simp: delay_def sync_def syncs_now_def)
    with True show ?thesis using m0 by (auto simp: flushAppendOnlyFile_def Let_def sl sync_def [symmetric] delay_def [symmetric])
  next
    case False
    define sv1 where "sv1 = (if delay then sv\<lparr>aof_delayed_fsync := aof_delayed_fsync sv + 1\<rparr> else sv)
      \<lparr>aof_file := aof_file sv @ take (nat nwritten) t, aof_flush_postponed_start := 0\<rparr>"
    have s1: "aof_file sv1 = aof_file sv @ take (nat nwritten) t" "aof_buf sv1 = aof_buf sv" "aof_current_size sv1 = aof_current_size sv"
      "aof_synced sv1 = aof_synced sv" "aof_frame sv sv1" "aof_selected_db sv1 = aof_selected_db sv" "syncs_now sv1 = syncs_now sv"
      by (simp_all add: sv1_def aof_frame_def syncs_now_def)
    have e: "flushAppendOnlyFile junk unixtime pending nwritten errno trunc_ok fsync_ok force sv =
       (if nwritten \<noteq> int (length t) then flush_error unixtime nwritten errno trunc_ok sv1
        else do {
          buf \<leftarrow> (if length t + sdsavail (aof_buf sv) < 4000 then sdsclear (aof_buf sv) else sdsempty junk);
          Some (Continue (flush_fsync unixtime sync fsync_ok
            (sv1\<lparr>aof_last_write_status := True, aof_current_size := aof_current_size sv1 + nat nwritten, aof_buf := buf\<rparr>)))
        })"
      using False sds_is_mem [OF b(1)]
      by (auto simp: flushAppendOnlyFile_def Let_def sl sync_def [symmetric] delay_def [symmetric] sv1_def)
    show ?thesis
    proof (cases "nwritten = int (length t)")
      case True
      obtain q g where q: "(if length t + sdsavail (aof_buf sv) < 4000 then sdsclear (aof_buf sv) else sdsempty junk) = Some q" "sds_is q [] g"
        using sdsclear_is [OF b(1)] sdsempty_is [of junk] by (cases "length t + sdsavail (aof_buf sv) < 4000") auto
      define sv2 where "sv2 = sv1\<lparr>aof_last_write_status := True, aof_current_size := aof_current_size sv1 + nat nwritten, aof_buf := q\<rparr>"
      note ff = flush_fsync_frame [where unixtime = unixtime and sync = sync and ok = fsync_ok and sv = sv2]
      have "moved sv t (length t) (flush_fsync unixtime sync fsync_ok sv2)"
        using s1 b(3,4) q(2) True ff by (auto simp: moved_def aof_ok_def aof_frame_def sv2_def)
      moreover have "syncs_now sv2 = syncs_now sv" using s1(7) by (simp add: sv2_def syncs_now_def)
      moreover have "flushAppendOnlyFile junk unixtime pending nwritten errno trunc_ok fsync_ok force sv =
          Some (Continue (flush_fsync unixtime sync fsync_ok sv2))"
        using True q(1) unfolding e sv2_def by simp
      ultimately show ?thesis using ff(1,6) by auto
    next
      case ne: False
      then have n: "nwritten < int (length t)" using assms(3) by simp
      have "aof_fsync sv \<noteq> AOF_FSYNC_ALWAYS \<Longrightarrow> \<not> syncs_now sv" by (simp add: syncs_now_def)
      then show ?thesis
        using ne flush_error_ok [OF assms(1) s1(1) assms(2) n s1(2-6), of unixtime errno trunc_ok]
        unfolding e by (auto split: run.splits)
    qed
  qed
qed

section \<open>Feeding commands\<close>

text \<open>The commands that \<open>feedAppendOnlyFile\<close> writes for a command, when the database \<open>sel\<close> is the last one selected in the
  file: relative times to live become absolute ones.\<close>

definition select_command :: "int \<Rightarrow> byte list list" where
  "select_command db = [bytes_of ''SELECT'', sdec db]"

definition expire_time :: "u64 \<Rightarrow> command_proc \<Rightarrow> robj \<Rightarrow> u64" where
  "expire_time now cmd seconds =
     (let t = word_of_int (fst (strtoll (obj_string seconds @ [0])));
          t = (if cmd \<in> {expireCommand, setexCommand, expireatCommand} then t * 1000 else t)
      in if cmd = expireatCommand then t else t + now)"

definition expire_command :: "u64 \<Rightarrow> command_proc \<Rightarrow> robj \<Rightarrow> robj \<Rightarrow> byte list list" where
  "expire_command now cmd key seconds = [bytes_of ''PEXPIREAT'', obj_string key, sdec (sint (expire_time now cmd seconds))]"

definition propagated :: "u64 \<Rightarrow> command_proc \<Rightarrow> int \<Rightarrow> robj list \<Rightarrow> int \<Rightarrow> byte list list list" where
  "propagated now cmd dictid argv sel =
     (if dictid \<noteq> sel then [select_command dictid] else []) @
     (if cmd = otherCommand then [map obj_string argv]
      else if cmd \<in> {setexCommand, psetexCommand}
      then [[bytes_of ''SET'', obj_string (argv ! 1), obj_string (argv ! 3)], expire_command now cmd (argv ! 1) (argv ! 2)]
      else [expire_command now cmd (argv ! 1) (argv ! 2)])"

definition arity_ok :: "command_proc \<Rightarrow> robj list \<Rightarrow> bool" where
  "arity_ok cmd argv \<longleftrightarrow> (cmd \<in> {setexCommand, psetexCommand} \<longrightarrow> 4 \<le> length argv) \<and> (cmd \<noteq> otherCommand \<longrightarrow> 3 \<le> length argv)"

abbreviation log_bytes :: "byte list list list \<Rightarrow> byte list" where
  "log_bytes cs \<equiv> concat (map command_bytes cs)"

lemma select_text:
  "bytes_of ''*2'' @ [13, 10] @ bytes_of ''$6'' @ [13, 10] @ bytes_of ''SELECT'' @ [13, 10] @
     bytes_of ''$'' @ sdec (int (length (sdec db))) @ [13, 10] @ sdec db @ [13, 10] = command_bytes (select_command db)"
proof -
  have "sdec 2 = [50]" "sdec 6 = [54]" by (simp_all add: sdec_def dec.simps)
  then show ?thesis by (simp add: select_command_def command_bytes_def bulk_string_def bulk_count_def)
qed

lemma catExpireAt_ok:
  assumes "shared_ok shared" "cmd \<noteq> otherCommand" "sds_is buf t f" "length t + length (command_bytes (expire_command now cmd key seconds)) + SDS_MAX_PREALLOC < 2 ^ 32"
  shows "\<exists>buf' f'. catAppendOnlyExpireAtCommand junk shared now buf cmd key seconds = Some buf' \<and>
    sds_is buf' (t @ command_bytes (expire_command now cmd key seconds)) f'"
proof -
  obtain ob where ob: "getDecodedObject junk seconds = Some ob" "sds_of ob = obj_string seconds"
    using getDecodedObject_string [of junk seconds] by (auto simp: sds_of_def)
  let ?argv = "[createStringObject (bytes_of ''PEXPIREAT''), key, createStringObjectFromLongLong shared (expire_time now cmd seconds)]"
  have "obj_string (createStringObjectFromLongLong shared v) = sdec (sint v)" for v
    using assms(1) by (auto simp: createStringObjectFromLongLong_def shared_ok_def obj_string_def incrRefCount_def)
  then have e: "map obj_string ?argv = expire_command now cmd key seconds" by (simp add: expire_command_def createStringObject_def obj_string_def)
  have "catAppendOnlyExpireAtCommand junk shared now buf cmd key seconds = catAppendOnlyGenericCommand junk buf ?argv"
    using assms(2) ob by (cases cmd) (simp_all add: catAppendOnlyExpireAtCommand_def expire_time_def Let_def)
  then show ?thesis using catAppend_ok [OF assms(3), of ?argv junk] assms(4) unfolding e by simp
qed

lemma feed_text:
  assumes "shared_ok shared" "arity_ok cmd argv" "sds_is buf t f" "length argv < 2 ^ 32"
    "length t + length (log_bytes (propagated now cmd db argv db)) + SDS_MAX_PREALLOC < 2 ^ 32"
  shows "\<exists>buf' f'. (if cmd = expireCommand \<or> cmd = pexpireCommand \<or> cmd = expireatCommand then do {
       key \<leftarrow> rd argv 1;
       seconds \<leftarrow> rd argv 2;
       catAppendOnlyExpireAtCommand junk shared now buf cmd key seconds
     } else if cmd = setexCommand \<or> cmd = psetexCommand then do {
       key \<leftarrow> rd argv 1;
       val \<leftarrow> rd argv 3;
       buf \<leftarrow> catAppendOnlyGenericCommand junk buf [createStringObject (bytes_of ''SET''), key, val];
       seconds \<leftarrow> rd argv 2;
       catAppendOnlyExpireAtCommand junk shared now buf cmd key seconds
     } else catAppendOnlyGenericCommand junk buf argv) = Some buf' \<and>
     sds_is buf' (t @ log_bytes (propagated now cmd db argv db)) f'"
proof -
  consider "cmd = otherCommand" | "cmd = setexCommand \<or> cmd = psetexCommand"
    | "cmd = expireCommand \<or> cmd = pexpireCommand \<or> cmd = expireatCommand" by (cases cmd) auto
  then show ?thesis
  proof cases
    case 1
    then show ?thesis using catAppend_ok [OF assms(3), of argv junk] assms(4,5) by (simp add: propagated_def)
  next
    case 2
    have r: "rd argv 1 = Some (argv ! 1)" "rd argv 2 = Some (argv ! 2)" "rd argv 3 = Some (argv ! 3)"
      using assms(2) 2 by (auto simp: arity_ok_def rd_def)
    let ?set = "[createStringObject (bytes_of ''SET''), argv ! 1, argv ! 3]"
    have p: "propagated now cmd db argv db = [map obj_string ?set, expire_command now cmd (argv ! 1) (argv ! 2)]"
      using 2 by (auto simp: propagated_def createStringObject_def obj_string_def)
    have "length t + length (command_bytes (map obj_string ?set)) + SDS_MAX_PREALLOC < 2 ^ 32" "length ?set < 2 ^ 32" using assms(5) unfolding p by simp_all
    then obtain b1 f1 where b1: "catAppendOnlyGenericCommand junk buf ?set = Some b1" "sds_is b1 (t @ command_bytes (map obj_string ?set)) f1"
      using catAppend_ok [OF assms(3)] by blast
    have "cmd \<noteq> otherCommand" "length (t @ command_bytes (map obj_string ?set)) + length (command_bytes (expire_command now cmd (argv ! 1) (argv ! 2))) + SDS_MAX_PREALLOC < 2 ^ 32"
      using 2 assms(5) unfolding p by auto
    from catExpireAt_ok [OF assms(1) this(1) b1(2) this(2), of junk] show ?thesis using 2 r b1(1) unfolding p by auto
  next
    case 3
    have r: "rd argv 1 = Some (argv ! 1)" "rd argv 2 = Some (argv ! 2)" using assms(2) 3 by (auto simp: arity_ok_def rd_def)
    have p: "propagated now cmd db argv db = [expire_command now cmd (argv ! 1) (argv ! 2)]" using 3 by (auto simp: propagated_def)
    have "cmd \<noteq> otherCommand" using 3 by auto
    from catExpireAt_ok [OF assms(1) this assms(3), of now "argv ! 1" "argv ! 2" junk] show ?thesis using 3 r assms(5) unfolding p by auto
  qed
qed

text \<open>\<open>feedAppendOnlyFile\<close> appends these commands to the buffer when the file is on, and to the buffer of a rewrite
  when a child is running.\<close>

lemma feed_ok:
  assumes "shared_ok shared" "arity_ok cmd argv" "length argv < 2 ^ 32" "aof_ok sv t" "rw_ok (aof_rewrite_buf_blocks sv)"
    and ps: "ps = propagated now cmd dictid argv (aof_selected_db sv)"
    and room: "length t + length (log_bytes ps) + SDS_MAX_PREALLOC < 2 ^ 31"
  shows "\<exists>sv'. feedAppendOnlyFile junk shared now cmd dictid argv sv = Some sv' \<and>
    aof_ok sv' (if aof_state sv = REDIS_AOF_ON then t @ log_bytes ps else t) \<and> rw_ok (aof_rewrite_buf_blocks sv') \<and>
    rw_stream (aof_rewrite_buf_blocks sv') = rw_stream (aof_rewrite_buf_blocks sv) @ (if aof_child_pid sv \<noteq> - 1 then log_bytes ps else []) \<and>
    (aof_child_pid sv = - 1 \<longrightarrow> aof_rewrite_buf_blocks sv' = aof_rewrite_buf_blocks sv) \<and>
    aof_selected_db sv' = dictid \<and> aof_file sv' = aof_file sv \<and> aof_synced sv' = aof_synced sv \<and>
    aof_frame sv (sv'\<lparr>aof_rewrite_buf_blocks := aof_rewrite_buf_blocks sv\<rparr>)"
proof -
  define sel where "sel = (if dictid \<noteq> aof_selected_db sv then command_bytes (select_command dictid) else [])"
  have lb: "log_bytes ps = sel @ log_bytes (propagated now cmd dictid argv dictid)" by (simp add: ps propagated_def sel_def)
  obtain e where e: "sdsempty junk = Some e" "sds_is e [] 0" using sdsempty_is by blast
  define sv1 where "sv1 = sv\<lparr>aof_selected_db := dictid\<rparr>"
  have z: "0 \<notin> set (command_bytes (select_command dictid))"
    using sdec_nonzero by (auto simp: select_text [symmetric])
  obtain b1 f1 where b1: "(if dictid \<noteq> aof_selected_db sv then do {
         let seldb = sdec dictid;
         buf \<leftarrow> sdscatvprintf junk e 26
           (bytes_of ''*2'' @ [13, 10] @ bytes_of ''$6'' @ [13, 10] @ bytes_of ''SELECT'' @ [13, 10] @
            bytes_of ''$'' @ sdec (int (length seldb)) @ [13, 10] @ seldb @ [13, 10]);
         Some (buf, sv\<lparr>aof_selected_db := dictid\<rparr>)
       } else Some (e, sv)) = Some (b1, sv1)" "sds_is b1 sel f1"
  proof (cases "dictid \<noteq> aof_selected_db sv")
    case True
    obtain b f where "sdscatvprintf junk e 26 (command_bytes (select_command dictid)) = Some b" "sds_is b sel f"
      using sdscatvprintf_is [OF e(2) z, of junk 26] room True unfolding lb by (auto simp: sel_def)
    with True that show ?thesis unfolding Let_def select_text by (simp add: sv1_def)
  next
    case False
    with e(2) that show ?thesis by (simp add: sv1_def sel_def)
  qed
  obtain b2 f2 where b2: "(if cmd = expireCommand \<or> cmd = pexpireCommand \<or> cmd = expireatCommand then do {
       key \<leftarrow> rd argv 1;
       seconds \<leftarrow> rd argv 2;
       catAppendOnlyExpireAtCommand junk shared now b1 cmd key seconds
     } else if cmd = setexCommand \<or> cmd = psetexCommand then do {
       key \<leftarrow> rd argv 1;
       val \<leftarrow> rd argv 3;
       buf \<leftarrow> catAppendOnlyGenericCommand junk b1 [createStringObject (bytes_of ''SET''), key, val];
       seconds \<leftarrow> rd argv 2;
       catAppendOnlyExpireAtCommand junk shared now buf cmd key seconds
     } else catAppendOnlyGenericCommand junk b1 argv) = Some b2" "sds_is b2 (log_bytes ps) f2"
    using feed_text [OF assms(1,2) b1(2) assms(3), of now dictid junk] room unfolding lb by auto
  note bm = sds_is_take [OF b2(2)] sds_isD(3) [OF b2(2)]
  define on where "on = (aof_state sv1 = REDIS_AOF_ON)"
  obtain q f where q: "sds_is (aof_buf sv) t f" using assms(4) by (auto simp: aof_ok_def)
  obtain sv2 where sv2: "(if aof_state sv1 = REDIS_AOF_ON then do {
         aofbuf \<leftarrow> sdscatlen junk (aof_buf sv1) (sds_buf b2) (sdslen b2);
         Some (sv1\<lparr>aof_buf := aofbuf\<rparr>)
       } else Some sv1) = Some sv2" "aof_ok sv2 (if on then t @ log_bytes ps else t)" "\<exists>b. sv2 = sv1\<lparr>aof_buf := b\<rparr>"
  proof (cases on)
    case True
    obtain b f' where "sdscatlen junk (aof_buf sv) (sds_buf b2) (sdslen b2) = Some b" "sds_is b (t @ log_bytes ps) f'"
      using sdscatlen_is [OF q, of "sdslen b2" "sds_buf b2" junk] bm room by auto
    with True assms(4) room show ?thesis by (intro that [of "sv1\<lparr>aof_buf := b\<rparr>"]) (auto simp: on_def sv1_def aof_ok_def)
  next
    case False
    have "\<exists>b. sv1 = sv1\<lparr>aof_buf := b\<rparr>" by (rule exI [of _ "aof_buf sv1"]) simp
    moreover have "aof_ok sv1 t" using assms(4) by (simp add: sv1_def aof_ok_def)
    ultimately show ?thesis using False by (intro that [of sv1]) (simp_all add: on_def)
  qed
  obtain bs where bs: "rw_append_loop junk (aof_rewrite_buf_blocks sv) (sds_buf b2) (sdslen b2) = Some bs" "rw_ok bs"
      "rw_stream bs = rw_stream (aof_rewrite_buf_blocks sv) @ log_bytes ps"
    using rw_append_ok [OF assms(5), of "sdslen b2" "sds_buf b2" junk] bm by auto
  define sv3 where "sv3 = (if aof_child_pid sv2 \<noteq> - 1 then sv2\<lparr>aof_rewrite_buf_blocks := bs\<rparr> else sv2)"
  have f: "feedAppendOnlyFile junk shared now cmd dictid argv sv = Some sv3"
    unfolding feedAppendOnlyFile_def e(1) bind.simps b1(1) prod.case b2(1) sv2(1)
    using sv2(3) bs(1) by (auto simp: aofRewriteBufferAppend_def sv3_def sv1_def)
  moreover have "aof_ok sv3 (if on then t @ log_bytes ps else t)" using sv2(2) by (auto simp: sv3_def aof_ok_def)
  ultimately show ?thesis using sv2(3) bs(2,3) assms(5) by (auto simp: sv3_def sv1_def on_def aof_frame_def)
qed

section \<open>Reading commands from the file\<close>

lemma dec_hd: "0 < n \<Longrightarrow> 49 \<le> hd (dec n)"
proof (induction n rule: dec.induct)
  case (1 n)
  show ?case
  proof (cases "n < 10")
    case True
    then have "n \<in> {1, 2, 3, 4, 5, 6, 7, 8, 9}" using 1(2) by auto
    then show ?thesis by (auto simp: dec_small)
  next
    case False
    then show ?thesis using 1 by (simp add: dec_step)
  qed
qed

lemma strtoll_value:
  assumes "ds \<noteq> []" "list_all isdigit ds" "int (undec 0 ds) < 2 ^ 63" "\<not> isdigit z"
  shows "fst (strtoll (ds @ z # r)) = int (undec 0 ds)"
proof -
  obtain c cs where ds: "ds = c # cs" using assms(1) by (cases ds) auto
  then have "isdigit c" using assms(2) by simp
  then have c: "\<not> isspace c" "c \<noteq> 45" "c \<noteq> 43" by (auto simp: isspace_def) (auto simp: word_le_nat_alt)
  have "takeWhile isdigit (ds @ z # r) = ds" using assms(2,4) by (subst takeWhile_append2) (auto simp: list_all_iff)
  then show ?thesis using c assms(3) unfolding ds by (simp add: strtoll_def Let_def)
qed

lemma bulk_count_dec: "bulk_count b (int n) = b # dec n @ [13, 10]"
  by (simp add: bulk_count_def sdec_def)

text \<open>The number in a header, and in a header that is cut off: a number that is not larger and not 0 unless it was.\<close>

lemma header_value: "n < 2 ^ 63 \<Longrightarrow> fst (strtoll (dec n @ 13 # r)) = int n"
  using strtoll_value [of "dec n" 13 r] dec_isdigit by (simp add: undec_dec)

lemma log_header_cut:
  assumes "0 < j" "j < length (bulk_count b (int n))" "n < 2 ^ 63"
  shows "\<exists>x v. take j (bulk_count b (int n)) = b # x \<and> fst (strtoll (x @ [0])) = int v \<and> v \<le> n \<and> (x \<noteq> [] \<and> 0 < n \<longrightarrow> 0 < v) \<and>
    10 \<notin> set x \<and> 0 \<notin> set x"
proof -
  have dig: "list_all isdigit (dec n)" by (rule dec_isdigit)
  define x where "x = take (j - 1) (dec n @ [13 :: byte])"
  obtain k where k: "j = Suc k" "k \<le> length (dec n @ [13 :: byte])" using assms(1,2) by (cases j) (auto simp: bulk_count_dec)
  have "take k ((dec n @ [13 :: byte]) @ [10]) = take k (dec n @ [13])" using k(2) by (subst take_append) simp
  then have t: "take j (bulk_count b (int n)) = b # x" by (simp add: k(1) bulk_count_dec x_def)
  have "10 \<notin> set (dec n @ [13])" "0 \<notin> set (dec n @ [13])" using dig by (auto simp: list_all_iff)
  then have s: "10 \<notin> set x" "0 \<notin> set x" unfolding x_def by (meson in_set_takeD)+
  show ?thesis
  proof (cases "j - 1 \<le> length (dec n)")
    case True
    define ds where "ds = take (j - 1) (dec n)"
    have x: "x = ds" using True by (simp add: x_def ds_def)
    have "dec n = ds @ drop (j - 1) (dec n)" by (simp add: ds_def)
    then have le: "undec 0 ds \<le> n" by (metis undec_dec undec_ge undec_simps(3))
    show ?thesis
    proof (cases "ds = []")
      case True
      then show ?thesis using t s x by (intro exI [of _ x] exI [of _ 0]) (simp add: strtoll_def Let_def isspace_def)
    next
      case False
      have dd: "list_all isdigit ds" using dig by (auto simp: ds_def list_all_iff dest: in_set_takeD)
      have "fst (strtoll (ds @ [0])) = int (undec 0 ds)" using strtoll_value [OF False dd, of 0 "[]"] le assms(3) by simp
      moreover have "0 < n \<Longrightarrow> 0 < undec 0 ds"
        using dec_undec [OF False dd] dec_hd [of n] False by (metis hd_take ds_def gr0I take_eq_Nil)
      ultimately show ?thesis using t s x le by (intro exI [of _ x] exI [of _ "undec 0 ds"]) simp
    qed
  next
    case False
    then have "x = dec n @ [13]" by (simp add: x_def)
    then show ?thesis using t s header_value [OF assms(3), of "[0]"] by (intro exI [of _ x] exI [of _ n]) simp
  qed
qed

lemma length_header: "n < 2 ^ 63 \<Longrightarrow> length (bulk_count b (int n)) \<le> 23"
  using length_bulk_count(2) [of b "of_nat n"] sint_of_nat_u64 [of n] by simp

lemma takeWhile_tail_10: "10 \<notin> set h \<Longrightarrow> takeWhile (\<lambda>b. b \<noteq> (10 :: byte)) (h @ 10 # r) = h"
  by (subst takeWhile_append2) auto

lemma fgets_header:
  assumes "drop pos data = bulk_count b (int n) @ r" "n < 2 ^ 63" "b \<noteq> 10"
  shows "fgets 128 data pos = (Some (bulk_count b (int n)), pos + length (bulk_count b (int n)), False)"
proof -
  have l: "length (bulk_count b (int n)) \<le> 127" using length_header [OF assms(2), of b] by simp
  define l' where "l' = take 127 (drop pos data)"
  have a: "l' = (b # dec n @ [13]) @ 10 # take (127 - length (bulk_count b (int n))) r"
    using l by (simp add: l'_def assms(1)) (simp add: bulk_count_dec)
  have n: "10 \<notin> set (b # dec n @ [13])" using dec_isdigit [of n] assms(3) by (auto simp: list_all_iff)
  have "takeWhile (\<lambda>b. b \<noteq> 10) l' = b # dec n @ [13]" unfolding a by (rule takeWhile_tail_10 [OF n])
  moreover have "10 \<in> set l'" unfolding a by simp
  ultimately show ?thesis by (simp add: fgets_def Let_def l'_def [symmetric] bulk_count_dec)
qed

lemma fgets_last:
  assumes "drop pos data = h" "length h < 127" "10 \<notin> set h"
  shows "fgets 128 data pos = (if h = [] then None else Some h, pos + length h, True)"
proof -
  have w: "takeWhile (\<lambda>b. b \<noteq> 10) h = h" using assms(3) by (subst takeWhile_eq_all_conv) auto
  have t: "take (128 - 1) (drop pos data) = h" using assms(1,2) by simp
  show ?thesis unfolding fgets_def Let_def t w using assms(2,3) by simp
qed

lemma sds_filled:
  assumes "length t < 2 ^ 32"
  shows "\<exists>s b. sdsnewlen junk None (length t) = Some s \<and> memwrite (sds_buf s) 0 t = Some b \<and> sds_is (s\<lparr>sds_buf := b\<rparr>) t 0"
proof -
  obtain s where s: "sdsnewlen junk None (length t) = Some s" "sds_is s (replicate (length t) 0) 0" using sdsnewlen_zero [OF assms] by blast
  obtain r where "s = \<lparr>sds_len = of_nat (length (replicate (length t) (0 :: byte))), sds_free = of_nat 0, sds_buf = replicate (length t) 0 @ 0 # r\<rparr>" "length r = 0"
    using sds_is_cases [OF s(2)] by blast
  then have "s = \<lparr>sds_len = of_nat (length t), sds_free = 0, sds_buf = replicate (length t) 0 @ [0]\<rparr>" by simp
  moreover have "sds_is \<lparr>sds_len = of_nat (length t), sds_free = 0, sds_buf = t @ [0]\<rparr> t 0" using assms by (intro sds_isI) simp_all
  ultimately show ?thesis using s(1) by (simp add: memwrite_def)
qed

lemma fread_at: "drop pos data = t @ r \<Longrightarrow> n = length t \<Longrightarrow> pos \<le> length data \<Longrightarrow> fread data pos n = Some (t, pos + n)"
proof -
  assume a: "drop pos data = t @ r" "n = length t" "pos \<le> length data"
  have "length data - pos = length t + length r" using arg_cong [OF a(1), of length] by simp
  then show ?thesis using a by (simp add: fread_def)
qed

lemma fread_short: "length (drop pos data) < n \<Longrightarrow> fread data pos n = None"
  by (auto simp: fread_def)

lemma drop_length: "drop pos data = x @ y \<Longrightarrow> x \<noteq> [] \<Longrightarrow> pos + length x \<le> length data"
proof -
  assume a: "drop pos data = x @ y" "x \<noteq> []"
  have "length data - pos = length x + length y" using arg_cong [OF a(1), of length] by simp
  then show ?thesis using a(2) by (cases x) auto
qed

lemma unat_nat_u64: "n < 2 ^ 63 \<Longrightarrow> unat (of_nat n :: u64) = n"
  by (simp add: unsigned_of_nat take_bit_nat_eq_self)

lemma drop_more: "drop pos data = x @ y \<Longrightarrow> drop (pos + length x) data = y"
  by (metis add.commute append_eq_conv_conj drop_drop)

text \<open>One argument of a command, and all of them.\<close>

lemma load_arg:
  assumes "drop pos data = bulk_string a @ r" "length a \<le> 512 * 1024 * 1024"
  shows "\<exists>s. sds_str s = a \<and> load_args junk data pos (Suc n) argv = load_args junk data (pos + length (bulk_string a)) n (argv @ [s])"
proof -
  let ?h = "bulk_count (ch CHR ''$'') (int (length a))"
  have d: "drop pos data = ?h @ a @ [13, 10] @ r" using assms(1) by (simp add: bulk_string_def)
  have l: "length a < 2 ^ 32" "length a < 2 ^ 63" using assms(2) by simp_all
  have nl: "ch CHR ''$'' \<noteq> 10" by simp
  note f = fgets_header [OF d l(2) nl]
  have d1: "drop (pos + length ?h) data = a @ [13, 10] @ r" using drop_more [OF d] .
  have d2: "drop (pos + length ?h + length a) data = [13, 10] @ r" using drop_more [OF d1] .
  have le: "pos + length ?h \<le> length data" "pos + length ?h + length a \<le> length data"
    using drop_length [OF d] drop_length [of pos data "?h @ a" "[13, 10] @ r"] d by (simp_all add: bulk_count_dec)
  have v: "unat (word_of_int (fst (strtoll (drop 1 (?h @ [0])))) :: u64) = length a"
    using header_value [OF l(2), of "[10, 0]"] l(2) by (simp add: bulk_count_dec unat_nat_u64)
  obtain s b where s: "sdsnewlen junk None (length a) = Some s" "memwrite (sds_buf s) 0 a = Some b" "sds_is (s\<lparr>sds_buf := b\<rparr>) a 0"
    using sds_filled [OF l(1)] by blast
  have r: "(if length a \<noteq> 0 then fread data (pos + length ?h) (length a) else Some ([], pos + length ?h)) = Some (a, pos + length ?h + length a)"
    using fread_at [OF d1 refl le(1)] by auto
  have r2: "fread data (pos + length ?h + length a) 2 = Some ([13, 10], pos + length ?h + length a + 2)"
    using fread_at [OF d2 _ le(2), of 2] by simp
  have b0: "rd (?h @ [0]) 0 = Some (ch CHR ''$'')" by (simp add: rd_def bulk_count_dec)
  have "load_args junk data pos (Suc n) argv = load_args junk data (pos + length ?h + length a + 2) n (argv @ [s\<lparr>sds_buf := b\<rparr>])"
    unfolding load_args.simps f prod.case option.case Let_def b0 bind.simps v s(1) r s(2) r2 by simp
  then show ?thesis using sds_isD(2) [OF s(3)] by (intro exI [of _ "s\<lparr>sds_buf := b\<rparr>"]) (simp add: bulk_string_def add.assoc)
qed

lemma load_args_all:
  assumes "drop pos data = concat (map bulk_string as) @ r" "list_all (\<lambda>a. length a \<le> 512 * 1024 * 1024) as"
  shows "\<exists>ss. map sds_str ss = as \<and>
    load_args junk data pos (length as) argv = Some (Step_Command (argv @ ss) (pos + length (concat (map bulk_string as))))"
  using assms
proof (induction as arbitrary: pos argv)
  case (Cons a as)
  have d: "drop pos data = bulk_string a @ concat (map bulk_string as) @ r" using Cons.prems(1) by simp
  obtain s where s: "sds_str s = a" "load_args junk data pos (Suc (length as)) argv = load_args junk data (pos + length (bulk_string a)) (length as) (argv @ [s])"
    using load_arg [OF d, of junk "length as" argv] Cons.prems(2) by auto
  obtain ss where "map sds_str ss = as" "load_args junk data (pos + length (bulk_string a)) (length as) (argv @ [s]) =
      Some (Step_Command ((argv @ [s]) @ ss) (pos + length (bulk_string a) + length (concat (map bulk_string as))))"
    using Cons.IH [OF drop_more [OF d], of "argv @ [s]"] Cons.prems(2) by auto
  then show ?case using s by (intro exI [of _ "s # ss"]) (simp add: add.assoc)
qed simp

text \<open>A file that ends in front of the end of an argument.\<close>

lemma load_arg_cut:
  assumes "drop pos data = take j (bulk_string a)" "j < length (bulk_string a)" "length a \<le> 512 * 1024 * 1024"
  shows "load_args junk data pos (Suc n) argv = Some (Step_ReadErr True)"
proof -
  let ?h = "bulk_count (ch CHR ''$'') (int (length a))"
  have l: "length a < 2 ^ 32" "length a < 2 ^ 63" using assms(3) by simp_all
  have lh: "length ?h < 127" using length_header [OF l(2), of "ch CHR ''$''"] by simp
  consider "j = 0" | "0 < j" "j < length ?h" | "length ?h \<le> j" by linarith
  then show ?thesis
  proof cases
    case 1
    then show ?thesis using fgets_last [of pos data "[]"] assms(1) by simp
  next
    case 2
    obtain x v where x: "take j ?h = ch CHR ''$'' # x" "fst (strtoll (x @ [0])) = int v" "v \<le> length a" "10 \<notin> set x"
      using log_header_cut [OF 2 l(2)] by blast
    have d: "drop pos data = ch CHR ''$'' # x" using assms(1) 2(2) x(1) by (simp add: bulk_string_def)
    have "length (ch CHR ''$'' # x) = j" using x(1) 2(2) by (metis length_take min.absorb2 less_imp_le)
    then have f: "fgets 128 data pos = (Some (ch CHR ''$'' # x), pos + length (ch CHR ''$'' # x), True)"
      using fgets_last [OF d] 2(2) lh x(4) by simp
    have e: "length (drop (pos + length (ch CHR ''$'' # x)) data) = 0" using arg_cong [OF d, of length] by simp
    have v: "unat (word_of_int (fst (strtoll (drop 1 ((ch CHR ''$'' # x) @ [0])))) :: u64) = v"
      using x(2,3) l(2) by (simp add: unat_nat_u64)
    obtain s where s: "sdsnewlen junk None v = Some s" using sdsnewlen_zero [of v junk] x(3) l(1) by auto
    have b0: "rd ((ch CHR ''$'' # x) @ [0]) 0 = Some (ch CHR ''$'')" by (simp add: rd_def)
    have r: "0 < v \<Longrightarrow> fread data (pos + length (ch CHR ''$'' # x)) v = None" "fread data (pos + length (ch CHR ''$'' # x)) 2 = None"
      using e by (auto intro: fread_short)
    show ?thesis
      unfolding load_args.simps f prod.case option.case Let_def b0 bind.simps v s using r by (simp add: memwrite_def)
  next
    case 3
    define t where "t = take (j - length ?h) (a @ [13, 10])"
    have d: "drop pos data = ?h @ t" using assms(1) 3 by (simp add: bulk_string_def t_def)
    have nl: "ch CHR ''$'' \<noteq> 10" by simp
  note f = fgets_header [OF d l(2) nl]
    have d1: "drop (pos + length ?h) data = t" using drop_more [OF d] .
    have lt: "length t < length a + 2" using assms(2) 3 by (simp add: t_def bulk_string_def)
    have v: "unat (word_of_int (fst (strtoll (drop 1 (?h @ [0])))) :: u64) = length a"
      using header_value [OF l(2), of "[10, 0]"] l(2) by (simp add: bulk_count_dec unat_nat_u64)
    obtain s b where s: "sdsnewlen junk None (length a) = Some s" "memwrite (sds_buf s) 0 a = Some b" using sds_filled [OF l(1)] by blast
    have b0: "rd (?h @ [0]) 0 = Some (ch CHR ''$'')" by (simp add: rd_def bulk_count_dec)
    show ?thesis
    proof (cases "length t < length a")
      case True
      then have "fread data (pos + length ?h) (length a) = None" using d1 by (intro fread_short) simp
      with True show ?thesis unfolding load_args.simps f prod.case option.case Let_def b0 bind.simps v s(1) by auto
    next
      case False
      then have t: "t = a @ drop (length a) t" using lt by (simp add: t_def)
      have le: "pos + length ?h \<le> length data" using drop_length [OF d] by (simp add: bulk_count_dec)
      have r: "(if length a \<noteq> 0 then fread data (pos + length ?h) (length a) else Some ([], pos + length ?h)) = Some (a, pos + length ?h + length a)"
        using fread_at [OF trans [OF d1 t] refl le] by auto
      have "length (drop (pos + length ?h + length a) data) < 2" using arg_cong [OF d1, of length] lt by simp
      then have r2: "fread data (pos + length ?h + length a) 2 = None" by (rule fread_short)
      show ?thesis unfolding load_args.simps f prod.case option.case Let_def b0 bind.simps v s(1) r s(2) r2 by simp
    qed
  qed
qed

lemma load_args_cut:
  assumes "drop pos data = take j (concat (map bulk_string as))" "j < length (concat (map bulk_string as))"
    "list_all (\<lambda>a. length a \<le> 512 * 1024 * 1024) as"
  shows "load_args junk data pos (length as) argv = Some (Step_ReadErr True)"
  using assms
proof (induction as arbitrary: pos j argv)
  case (Cons a as)
  have la: "length a \<le> 512 * 1024 * 1024" using Cons.prems(3) by simp
  show ?case
  proof (cases "j < length (bulk_string a)")
    case True
    then show ?thesis using load_arg_cut [of pos data j a junk "length as" argv] Cons.prems(1) la by simp
  next
    case False
    let ?r = "take (j - length (bulk_string a)) (concat (map bulk_string as))"
    have d: "drop pos data = bulk_string a @ ?r" using Cons.prems(1) False by simp
    obtain s where "load_args junk data pos (Suc (length as)) argv = load_args junk data (pos + length (bulk_string a)) (length as) (argv @ [s])"
      using load_arg [OF d la] by blast
    then show ?thesis using Cons.IH [OF drop_more [OF d], of "argv @ [s]"] Cons.prems(2,3) False by simp
  qed
qed simp

lemma command_okD:
  assumes "command_ok args"
  shows "0 < length args" "length args \<le> 1024 * 1024" "list_all (\<lambda>a. length a \<le> 512 * 1024 * 1024) args" "length args < 2 ^ 63" "length args < 2 ^ 31"
  using assms by (auto simp: command_ok_def list_all_iff)

lemma load_command_all:
  assumes "drop pos data = command_bytes args @ r" "command_ok args"
  shows "\<exists>ss. map sds_str ss = args \<and> load_command junk data pos = Some (Step_Command ss (pos + length (command_bytes args)))"
proof -
  note ok = command_okD [OF assms(2)]
  let ?h = "bulk_count (ch CHR ''*'') (int (length args))"
  have d: "drop pos data = ?h @ concat (map bulk_string args) @ r" using assms(1) by (simp add: command_bytes_def)
  have nl: "ch CHR ''*'' \<noteq> 10" by simp
  note f = fgets_header [OF d ok(4) nl]
  obtain ss where ss: "map sds_str ss = args" "load_args junk data (pos + length ?h) (length args) [] =
      Some (Step_Command ([] @ ss) (pos + length ?h + length (concat (map bulk_string args))))"
    using load_args_all [OF drop_more [OF d] ok(3)] by blast
  have b: "rd (?h @ [0]) 0 = Some (ch CHR ''*'')" "rd (?h @ [0]) 1 = Some (hd (dec (length args)))"
    using dec_nonempty [of "length args"] by (cases "dec (length args)"; simp add: rd_def bulk_count_dec)+
  have nz: "hd (dec (length args)) \<noteq> 0" using dec_hd [OF ok(1)] by auto
  have v: "sint (word_of_int (fst (strtoll (drop 1 (?h @ [0])))) :: u32) = int (length args)"
    using header_value [OF ok(4), of "[10, 0]"] sint_of_nat_u32 [OF ok(5)] by (simp add: bulk_count_dec)
  have "load_command junk data pos = load_args junk data (pos + length ?h) (length args) []"
    unfolding load_command_def f prod.case option.case Let_def b bind.simps v using nz ok(1) by simp
  then show ?thesis using ss by (auto simp: command_bytes_def add.assoc)
qed

lemma load_command_eof: "drop pos data = [] \<Longrightarrow> load_command junk data pos = Some Step_EOF"
  using fgets_last [of pos data "[]"] by (simp add: load_command_def)

lemma load_command_cut:
  assumes "drop pos data = take j (command_bytes args)" "0 < j" "j < length (command_bytes args)" "command_ok args"
  shows "load_command junk data pos = Some (Step_ReadErr True)"
proof -
  note ok = command_okD [OF assms(4)]
  let ?h = "bulk_count (ch CHR ''*'') (int (length args))"
  have nl: "ch CHR ''*'' \<noteq> 10" by simp
  show ?thesis
  proof (cases "j < length ?h")
    case True
    obtain x v where x: "take j ?h = ch CHR ''*'' # x" "fst (strtoll (x @ [0])) = int v" "v \<le> length args" "x \<noteq> [] \<longrightarrow> 0 < v" "10 \<notin> set x" "0 \<notin> set x"
      using log_header_cut [OF assms(2) True ok(4)] ok(1) by blast
    have d: "drop pos data = ch CHR ''*'' # x" using assms(1) True x(1) by (simp add: command_bytes_def)
    have "length (ch CHR ''*'' # x) = j" using x(1) True by (metis length_take min.absorb2 less_imp_le)
    then have f: "fgets 128 data pos = (Some (ch CHR ''*'' # x), pos + length (ch CHR ''*'' # x), True)"
      using fgets_last [OF d] True length_header [OF ok(4), of "ch CHR ''*''"] x(5) by simp
    have e: "drop (pos + length (ch CHR ''*'' # x)) data = []" using arg_cong [OF d, of length] by simp
    have v: "sint (word_of_int (fst (strtoll (drop 1 ((ch CHR ''*'' # x) @ [0])))) :: u32) = int v"
      using x(2,3) ok(5) sint_of_nat_u32 [of v] by simp
    have b0: "rd ((ch CHR ''*'' # x) @ [0]) 0 = Some (ch CHR ''*'')" by (simp add: rd_def)
    show ?thesis
    proof (cases x)
      case Nil
      then have b1: "rd ((ch CHR ''*'' # x) @ [0]) 1 = Some 0" by (simp add: rd_def)
      show ?thesis unfolding load_command_def f prod.case option.case Let_def b0 b1 bind.simps by simp
    next
      case (Cons y ys)
      then have b1: "rd ((ch CHR ''*'' # x) @ [0]) 1 = Some y" "y \<noteq> 0" using x(6) by (auto simp: rd_def)
      obtain u where u: "v = Suc u" using x(4) Cons by (cases v) auto
      have "load_args junk data (pos + length (ch CHR ''*'' # x)) (Suc u) [] = Some (Step_ReadErr True)"
        using fgets_last [OF e] by simp
      then show ?thesis unfolding load_command_def f prod.case option.case Let_def b0 b1(1) bind.simps v using b1(2) by (simp add: u nat_add_distrib)
    qed
  next
    case False
    let ?r = "take (j - length ?h) (concat (map bulk_string args))"
    have d: "drop pos data = ?h @ ?r" using assms(1) False by (simp add: command_bytes_def)
    note f = fgets_header [OF d ok(4) nl]
    have b: "rd (?h @ [0]) 0 = Some (ch CHR ''*'')" "rd (?h @ [0]) 1 = Some (hd (dec (length args)))"
      using dec_nonempty [of "length args"] by (cases "dec (length args)"; simp add: rd_def bulk_count_dec)+
    have nz: "hd (dec (length args)) \<noteq> 0" using dec_hd [OF ok(1)] by auto
    have v: "sint (word_of_int (fst (strtoll (drop 1 (?h @ [0])))) :: u32) = int (length args)"
      using header_value [OF ok(4), of "[10, 0]"] sint_of_nat_u32 [OF ok(5)] by (simp add: bulk_count_dec)
    have "load_args junk data (pos + length ?h) (length args) [] = Some (Step_ReadErr True)"
      using assms(3) False by (intro load_args_cut [OF drop_more [OF d] _ ok(3)]) (simp add: command_bytes_def)
    then show ?thesis unfolding load_command_def f prod.case option.case Let_def b bind.simps v using nz ok(1) by simp
  qed
qed

section \<open>Loading\<close>

text \<open>How many of the commands are complete in the first \<open>k\<close> bytes of their text.\<close>

fun complete :: "byte list list list \<Rightarrow> nat \<Rightarrow> nat" where
  "complete [] k = 0"
| "complete (c # cs) k = (if length (command_bytes c) \<le> k then Suc (complete cs (k - length (command_bytes c))) else 0)"

text \<open>A client that has nothing to be sent and is not blocked; commands that exist, do not answer the fake client and do
  not block it, and have the effect \<open>exec\<close>.\<close>

definition idle :: "'a queryClient_scheme \<Rightarrow> bool" where
  "idle c \<longleftrightarrow> c_bufpos c = 0 \<and> c_reply c = [] \<and> REDIS_BLOCKED \<notin> c_flags c"

definition replays ::
    "(byte list \<Rightarrow> bool) \<Rightarrow> ('a queryClient_scheme \<Rightarrow> 'a queryClient_scheme) \<Rightarrow> ('a \<Rightarrow> byte list list \<Rightarrow> 'a) \<Rightarrow> bool" where
  "replays lookup run_proc exec \<longleftrightarrow>
     (\<forall>c. c_argv c \<noteq> [] \<and> idle c \<longrightarrow> lookup (sds_str (hd (c_argv c))) \<and> idle (run_proc c) \<and>
        queryClient.more (run_proc c) = exec (queryClient.more c) (map sds_str (c_argv c)))"

lemma load_loop_ok:
  fixes c :: "'a queryClient_scheme"
  assumes "replays lookup run_proc exec" "list_all command_ok cs" "drop pos data = take k (log_bytes cs)" "k \<le> length (log_bytes cs)" "idle c"
    "truncated \<longrightarrow> valid = pos"
  shows "\<exists>c'. load_loop lookup run_proc junk data truncated c pos valid =
      Some (c', if truncated then pos + length (log_bytes (take (complete cs k) cs)) else valid,
        if k = length (log_bytes (take (complete cs k) cs)) then End_EOF else End_ReadErr True) \<and>
    queryClient.more c' = foldl exec (queryClient.more c) (take (complete cs k) cs)"
  using assms(2-6)
proof (induction cs arbitrary: pos k c valid)
  case Nil
  then show ?case by (subst load_loop.simps) (simp add: load_command_eof)
next
  case (Cons args cs)
  have ok: "command_ok args" "list_all command_ok cs" using Cons.prems(1) by simp_all
  show ?case
  proof (cases "length (command_bytes args) \<le> k")
    case True
    define k' where "k' = k - length (command_bytes args)"
    have d: "drop pos data = command_bytes args @ take k' (log_bytes cs)" using Cons.prems(2) True by (simp add: k'_def)
    obtain ss where ss: "map sds_str ss = args" "load_command junk data pos = Some (Step_Command ss (pos + length (command_bytes args)))"
      using load_command_all [OF d ok(1)] by blast
    define p where "p = pos + length (command_bytes args)"
    have ne: "ss \<noteq> []" using ss(1) command_okD(1) [OF ok(1)] by auto
    then have r: "rd ss 0 = Some (hd ss)" by (cases ss) (simp_all add: rd_def)
    define c1 where "c1 = run_proc (c\<lparr>c_argv := ss\<rparr>)"
    have "idle (c\<lparr>c_argv := ss\<rparr>)" using Cons.prems(4) by (simp add: idle_def)
    then have c1: "lookup (sds_str (hd ss))" "idle c1" "queryClient.more c1 = exec (queryClient.more c) args"
      using assms(1) [unfolded replays_def, THEN spec, of "c\<lparr>c_argv := ss\<rparr>"] ne ss(1) by (simp_all add: c1_def)
    have i: "idle (freeFakeClientArgv c1)" "queryClient.more (freeFakeClientArgv c1) = exec (queryClient.more c) args"
      using c1(2,3) by (simp_all add: idle_def freeFakeClientArgv_def)
    have l: "load_loop lookup run_proc junk data truncated c pos valid =
        load_loop lookup run_proc junk data truncated (freeFakeClientArgv c1) p (if truncated then p else valid)"
      using ss(2) r c1(1,2) by (subst load_loop.simps) (simp add: Let_def c1_def [symmetric] idle_def p_def)
    have "k' \<le> length (log_bytes cs)" using Cons.prems(3) True by (simp add: k'_def)
    from Cons.IH [OF ok(2) drop_more [OF d] this i(1), of "if truncated then p else valid"] show ?thesis
      unfolding l p_def [symmetric] using True i(2) by (auto simp: k'_def p_def)
  next
    case False
    then have d: "drop pos data = take k (command_bytes args)" using Cons.prems(2) by simp
    show ?thesis
    proof (cases "k = 0")
      case True
      then show ?thesis using False d Cons.prems(5) by (subst load_loop.simps) (simp add: load_command_eof)
    next
      case k: False
      then show ?thesis using False load_command_cut [OF d _ _ ok(1)] Cons.prems(5) by (subst load_loop.simps) simp
    qed
  qed
qed

lemma length_complete: "length (log_bytes (take (complete cs k) cs)) \<le> k"
proof (induction cs arbitrary: k)
  case (Cons c cs)
  show ?case
  proof (cases "length (command_bytes c) \<le> k")
    case True
    then show ?thesis using add_le_mono [OF le_refl [of "length (command_bytes c)"] Cons.IH [of "k - length (command_bytes c)"]] by simp
  qed simp
qed simp

lemma take_complete: "take (length (log_bytes (take (complete cs k) cs))) (log_bytes cs) = log_bytes (take (complete cs k) cs)"
  by (metis append_take_drop_id concat_append map_append append_eq_conv_conj)

text \<open>Loading a file that is cut off anywhere runs the complete commands and cuts the rest off the file, or, when
  \<open>aof-load-truncated\<close> is off, ends the server without touching the file.\<close>

lemma load_ok:
  fixes c0 :: "'a queryClient_scheme"
  assumes "replays lookup run_proc exec" "list_all command_ok cs" "aof_file sv = take k (log_bytes cs)" "k \<le> length (log_bytes cs)" "0 < k"
  shows "aof_load_truncated sv \<Longrightarrow> \<exists>sv' c'. loadAppendOnlyFile lookup run_proc junk True True True c0 sv = Some (Load_OK sv' c') \<and>
      queryClient.more c' = foldl exec (queryClient.more c0) (take (complete cs k) cs) \<and>
      aof_file sv' = log_bytes (take (complete cs k) cs) \<and> aof_state sv' = aof_state sv \<and>
      (aof_fd sv \<noteq> - 1 \<longrightarrow> aof_current_size sv' = length (aof_file sv'))"
    "\<not> aof_load_truncated sv \<Longrightarrow> k \<noteq> length (log_bytes (take (complete cs k) cs)) \<Longrightarrow>
      loadAppendOnlyFile lookup run_proc junk True True True c0 sv = Some (Load_Exit (sv\<lparr>aof_state := REDIS_AOF_OFF\<rparr>))"
proof -
  let ?n = "length (log_bytes (take (complete cs k) cs))"
  obtain q where q: "sdsempty junk = Some q" using sdsempty_is by blast
  obtain c where c: "createFakeClient junk c0 = Some c" "idle c" "queryClient.more c = queryClient.more c0"
    using q by (simp add: createFakeClient_def idle_def)
  have d: "drop 0 (aof_file sv) = take k (log_bytes cs)" using assms(3) by simp
  obtain c' where l: "load_loop lookup run_proc junk (aof_file sv) (aof_load_truncated sv) c 0 0 =
      Some (c', if aof_load_truncated sv then ?n else 0, if k = ?n then End_EOF else End_ReadErr True)"
      "queryClient.more c' = foldl exec (queryClient.more c0) (take (complete cs k) cs)"
    using load_loop_ok [OF assms(1,2) d assms(4) c(2), of "aof_load_truncated sv" 0 junk] c(3) by auto
  have ne: "length (aof_file sv) \<noteq> 0" using assms(3-5) by simp
  have t: "ftruncate (aof_file sv) ?n = log_bytes (take (complete cs k) cs)" "k = ?n \<Longrightarrow> aof_file sv = log_bytes (take (complete cs k) cs)"
    using length_complete [of cs k] take_complete [of cs k] assms(3,4) by (simp_all add: ftruncate_def min_def)
  show "\<exists>sv' c'. loadAppendOnlyFile lookup run_proc junk True True True c0 sv = Some (Load_OK sv' c') \<and>
      queryClient.more c' = foldl exec (queryClient.more c0) (take (complete cs k) cs) \<and>
      aof_file sv' = log_bytes (take (complete cs k) cs) \<and> aof_state sv' = aof_state sv \<and>
      (aof_fd sv \<noteq> - 1 \<longrightarrow> aof_current_size sv' = length (aof_file sv'))" if "aof_load_truncated sv"
    using that ne c(1) l t
    by (cases "k = ?n"; cases "REDIS_MULTI \<in> c_flags c'")
      (auto simp: loadAppendOnlyFile_def Let_def uxeof_def loaded_ok_def aofUpdateCurrentSize_def)
  show "loadAppendOnlyFile lookup run_proc junk True True True c0 sv = Some (Load_Exit (sv\<lparr>aof_state := REDIS_AOF_OFF\<rparr>))"
    if "\<not> aof_load_truncated sv" "k \<noteq> ?n"
    using that ne c(1) l by (simp add: loadAppendOnlyFile_def Let_def uxeof_def)
qed

lemma complete_all: "complete cs (length (log_bytes cs)) = length cs"
  by (induction cs) auto

section \<open>The file of a running server\<close>

text \<open>What happens to the file while the server runs: \<open>hist\<close> is the list of the commands given to the file, \<open>fk\<close> its value at
  the last fork. A child that ends without an error has written commands that give the data set at the fork;
  \<open>data\<close> takes the data set out of a state and leaves out the selected database.\<close>

inductive aof_run ::
    "('a \<Rightarrow> byte list list \<Rightarrow> 'a) \<Rightarrow> ('a \<Rightarrow> 'd) \<Rightarrow> 'a \<Rightarrow> aofServer \<Rightarrow> byte list list list \<Rightarrow> byte list list list \<Rightarrow> bool"
  for exec data x where
  start: "aof_file sv = log_bytes cs \<Longrightarrow> list_all command_ok cs \<Longrightarrow> aof_ok sv [] \<Longrightarrow> aof_state sv = REDIS_AOF_ON \<Longrightarrow> aof_fd sv \<noteq> - 1 \<Longrightarrow>
    aof_child_pid sv = - 1 \<Longrightarrow> aof_rewrite_buf_blocks sv = [] \<Longrightarrow> aof_selected_db sv = - 1 \<Longrightarrow> aof_run exec data x sv cs fk"
| feed: "aof_run exec data x sv hist fk \<Longrightarrow> shared_ok shared \<Longrightarrow> arity_ok cmd argv \<Longrightarrow> length argv < 2 ^ 32 \<Longrightarrow> 0 \<le> dictid \<Longrightarrow>
    ps = propagated now cmd dictid argv (aof_selected_db sv) \<Longrightarrow> list_all command_ok ps \<Longrightarrow>
    sdslen (aof_buf sv) + length (log_bytes ps) + SDS_MAX_PREALLOC < 2 ^ 31 \<Longrightarrow>
    feedAppendOnlyFile junk shared now cmd dictid argv sv = Some sv' \<Longrightarrow> aof_run exec data x sv' (hist @ ps) fk"
| flush: "aof_run exec data x sv hist fk \<Longrightarrow> - 1 \<le> nwritten \<Longrightarrow> nwritten \<le> int (sdslen (aof_buf sv)) \<Longrightarrow>
    flushAppendOnlyFile junk unixtime pending nwritten errno trunc_ok fsync_ok force sv = Some (Continue sv') \<Longrightarrow> aof_run exec data x sv' hist fk"
| fork: "aof_run exec data x sv hist fk \<Longrightarrow> rewriteAppendOnlyFileBackground childpid sv = (sv', True) \<Longrightarrow> aof_run exec data x sv' hist hist"
| rewritten: "aof_run exec data x sv hist fk \<Longrightarrow> aof_child_pid sv \<noteq> - 1 \<Longrightarrow>
    bysignal = 0 \<and> exitcode = 0 \<longrightarrow> (\<exists>cs. tmp = log_bytes cs \<and> list_all command_ok cs \<and> data (foldl exec x cs) = data (foldl exec x fk)) \<Longrightarrow>
    backgroundRewriteDoneHandler junk tmp newfd w renamed openfd fsync_ok exitcode bysignal sv = Some sv' \<Longrightarrow> aof_run exec data x sv' hist fk'"

text \<open>After a \<open>SELECT\<close> the state depends on the data set only.\<close>

definition select_law :: "('a \<Rightarrow> byte list list \<Rightarrow> 'a) \<Rightarrow> ('a \<Rightarrow> 'd) \<Rightarrow> bool" where
  "select_law exec data \<longleftrightarrow> (\<forall>s t db. data s = data t \<longrightarrow> exec s (select_command db) = exec t (select_command db))"

text \<open>The invariant: file and buffer are the text of commands that give the data set of the history, and the same state unless
  the next command is preceded by a \<open>SELECT\<close>; the buffer of a rewrite is the text of the commands since the fork.\<close>

definition since_fork :: "aofServer \<Rightarrow> byte list list list \<Rightarrow> byte list list list \<Rightarrow> bool" where
  "since_fork sv hist fk \<longleftrightarrow> (\<exists>ds. hist = fk @ ds \<and> rw_stream (aof_rewrite_buf_blocks sv) = log_bytes ds \<and> list_all command_ok ds \<and>
     (if ds = [] then aof_selected_db sv = - 1 else \<exists>db. hd ds = select_command db))"

definition aof_inv :: "('a \<Rightarrow> byte list list \<Rightarrow> 'a) \<Rightarrow> ('a \<Rightarrow> 'd) \<Rightarrow> 'a \<Rightarrow> aofServer \<Rightarrow> byte list list list \<Rightarrow> byte list list list \<Rightarrow> bool" where
  "aof_inv exec data x sv hist fk \<longleftrightarrow> (\<exists>cs t. aof_ok sv t \<and> list_all command_ok cs \<and> aof_file sv @ t = log_bytes cs \<and>
     data (foldl exec x cs) = data (foldl exec x hist) \<and> (aof_selected_db sv \<noteq> - 1 \<longrightarrow> foldl exec x cs = foldl exec x hist)) \<and>
     aof_state sv = REDIS_AOF_ON \<and> aof_fd sv \<noteq> - 1 \<and> rw_ok (aof_rewrite_buf_blocks sv) \<and>
     (if aof_child_pid sv = - 1 then aof_rewrite_buf_blocks sv = [] else since_fork sv hist fk)"

lemma propagated_select: "sel \<noteq> dictid \<Longrightarrow> \<exists>ps. propagated now cmd dictid argv sel = select_command dictid # ps"
  by (simp add: propagated_def)

lemma foldl_select:
  assumes "select_law exec data" "data s = data t" "ps \<noteq> []" "hd ps = select_command db"
  shows "foldl exec s ps = foldl exec t ps"
proof -
  have "exec s (select_command db) = exec t (select_command db)" using assms(1,2) unfolding select_law_def by blast
  then show ?thesis using assms(3,4) by (cases ps) simp_all
qed

lemma aof_inv_feed:
  assumes "select_law exec data" "aof_inv exec data x sv hist fk" "shared_ok shared" "arity_ok cmd argv" "length argv < 2 ^ 32" "0 \<le> dictid"
    and ps: "ps = propagated now cmd dictid argv (aof_selected_db sv)"
    and "list_all command_ok ps" "sdslen (aof_buf sv) + length (log_bytes ps) + SDS_MAX_PREALLOC < 2 ^ 31"
    "feedAppendOnlyFile junk shared now cmd dictid argv sv = Some sv'"
  shows "aof_inv exec data x sv' (hist @ ps) fk"
proof -
  obtain cs t where i: "aof_ok sv t" "list_all command_ok cs" "aof_file sv @ t = log_bytes cs" "data (foldl exec x cs) = data (foldl exec x hist)"
      "aof_selected_db sv \<noteq> - 1 \<longrightarrow> foldl exec x cs = foldl exec x hist" "aof_state sv = REDIS_AOF_ON" "aof_fd sv \<noteq> - 1" "rw_ok (aof_rewrite_buf_blocks sv)"
      "if aof_child_pid sv = - 1 then aof_rewrite_buf_blocks sv = [] else since_fork sv hist fk"
    using assms(2) unfolding aof_inv_def by blast
  have "sdslen (aof_buf sv) = length t" using i(1) sds_isD(3) by (auto simp: aof_ok_def)
  then have f: "aof_ok sv' (t @ log_bytes ps)" "rw_ok (aof_rewrite_buf_blocks sv')"
      "rw_stream (aof_rewrite_buf_blocks sv') = rw_stream (aof_rewrite_buf_blocks sv) @ (if aof_child_pid sv \<noteq> - 1 then log_bytes ps else [])"
      "aof_selected_db sv' = dictid" "aof_file sv' = aof_file sv" "aof_frame sv (sv'\<lparr>aof_rewrite_buf_blocks := aof_rewrite_buf_blocks sv\<rparr>)"
      "aof_child_pid sv = - 1 \<longrightarrow> aof_rewrite_buf_blocks sv' = aof_rewrite_buf_blocks sv"
    using feed_ok [OF assms(3-5) i(1,8) ps, of junk] assms(9,10) i(6) by auto
  have fr: "aof_state sv' = aof_state sv" "aof_fd sv' = aof_fd sv" "aof_child_pid sv' = aof_child_pid sv" using f(6) by (simp_all add: aof_frame_def)
  have e: "foldl exec x (cs @ ps) = foldl exec x (hist @ ps)"
  proof (cases "aof_selected_db sv = - 1")
    case True
    then obtain qs where "ps = select_command dictid # qs" using propagated_select [of "aof_selected_db sv" dictid now cmd argv] assms(6) ps by auto
    then show ?thesis using foldl_select [OF assms(1) i(4), of ps dictid] by simp
  qed (use i(5) in simp)
  have bl: "aof_child_pid sv = - 1 \<Longrightarrow> aof_rewrite_buf_blocks sv' = []" using f(7) i(9) by simp
  have "since_fork sv' (hist @ ps) fk" if child: "aof_child_pid sv \<noteq> - 1"
  proof -
    obtain ds where ds: "hist = fk @ ds" "rw_stream (aof_rewrite_buf_blocks sv) = log_bytes ds" "list_all command_ok ds"
        "if ds = [] then aof_selected_db sv = - 1 else \<exists>db. hd ds = select_command db"
      using i(9) child by (auto simp: since_fork_def)
    have "ps \<noteq> []" by (auto simp: ps propagated_def)
    moreover have "ds = [] \<Longrightarrow> hd ps = select_command dictid"
      using ds(4) propagated_select [of "aof_selected_db sv" dictid now cmd argv] assms(6) ps by auto
    ultimately show ?thesis using ds f(3) assms(8) child unfolding since_fork_def
      by (intro exI [of _ "ds @ ps"]) (cases "ds = []"; auto)
  qed
  then show ?thesis
    using i f(1,2,5) e fr bl assms(8) unfolding aof_inv_def by (intro conjI exI [of _ "cs @ ps"] exI [of _ "t @ log_bytes ps"]) auto
qed

lemma aof_inv_flush:
  assumes "aof_inv exec data x sv hist fk" "- 1 \<le> nwritten" "nwritten \<le> int (sdslen (aof_buf sv))"
    "flushAppendOnlyFile junk unixtime pending nwritten errno trunc_ok fsync_ok force sv = Some (Continue sv')"
  shows "aof_inv exec data x sv' hist fk"
proof -
  obtain cs t where i: "aof_ok sv t" "list_all command_ok cs" "aof_file sv @ t = log_bytes cs" "data (foldl exec x cs) = data (foldl exec x hist)"
      "aof_selected_db sv \<noteq> - 1 \<longrightarrow> foldl exec x cs = foldl exec x hist"
    using assms(1) unfolding aof_inv_def by blast
  have "sdslen (aof_buf sv) = length t" using i(1) sds_isD(3) by (auto simp: aof_ok_def)
  then obtain k where "moved sv t k sv'" using flush_ok [OF i(1) assms(2), of junk unixtime pending errno trunc_ok fsync_ok force] assms(3,4) by auto
  then have m: "aof_ok sv' (drop k t)" "aof_file sv' @ drop k t = aof_file sv @ t" "aof_frame sv sv'" "aof_selected_db sv' = aof_selected_db sv"
    by (simp_all add: moved_def)
  have "since_fork sv' hist fk = since_fork sv hist fk" using m(3,4) by (simp add: since_fork_def aof_frame_def)
  moreover have "aof_state sv = REDIS_AOF_ON" "aof_fd sv \<noteq> - 1" "rw_ok (aof_rewrite_buf_blocks sv)"
      "if aof_child_pid sv = - 1 then aof_rewrite_buf_blocks sv = [] else since_fork sv hist fk"
    using assms(1) unfolding aof_inv_def by blast+
  ultimately show ?thesis using i m(1,2,4) m(3) [unfolded aof_frame_def] unfolding aof_inv_def
    by (intro conjI exI [of _ cs] exI [of _ "drop k t"]) simp_all
qed

lemma switch_file_ok:
  assumes "switch_file junk fsync_ok openfd newfd fl sv = Some sv1" "aof_fd sv \<noteq> - 1" "newfd \<noteq> - 1" "aof_state sv = REDIS_AOF_ON" "sdsempty junk = Some q"
  shows "aof_file sv1 = fl" "aof_buf sv1 = q" "aof_selected_db sv1 = - 1" "aof_fd sv1 = newfd" "aof_state sv1 = REDIS_AOF_ON"
    "aof_current_size sv1 = length fl" "aof_synced sv1 \<le> length fl"
proof -
  define sv2 where "sv2 = sv\<lparr>aof_file := fl, aof_synced := 0, aof_fd := newfd\<rparr>"
  define sv3 where "sv3 = (if aof_fsync sv2 = AOF_FSYNC_ALWAYS then aof_do_fsync fsync_ok sv2
    else if aof_fsync sv2 = AOF_FSYNC_EVERYSEC then aof_background_fsync sv2 else sv2)"
  have sv3: "aof_file sv3 = fl" "aof_fd sv3 = newfd" "aof_state sv3 = REDIS_AOF_ON" "aof_synced sv3 \<le> length fl"
    using assms(4) by (auto simp: sv3_def sv2_def aof_do_fsync_def aof_background_fsync_def)
  have "switch_file junk fsync_ok openfd newfd fl sv =
      Some (sv3\<lparr>aof_selected_db := - 1, aof_current_size := length (aof_file sv3), aof_rewrite_base_size := length (aof_file sv3), aof_buf := q,
        aof_lastbgrewrite_status := True, aof_closing := aof_closing sv3 @ [aof_fd sv]\<rparr>)"
    unfolding switch_file_def Let_def if_not_P [OF assms(2)] if_P [OF assms(2)] sv2_def [symmetric] sv3_def [symmetric] assms(5) bind.simps
    using sv3 assms(2,3) by (simp add: aofUpdateCurrentSize_def)
  then show "aof_file sv1 = fl" "aof_buf sv1 = q" "aof_selected_db sv1 = - 1" "aof_fd sv1 = newfd" "aof_state sv1 = REDIS_AOF_ON"
    "aof_current_size sv1 = length fl" "aof_synced sv1 \<le> length fl" using assms(1) sv3 by auto
qed

lemma aof_inv_rewritten:
  assumes "select_law exec data" "aof_inv exec data x sv hist fk" "aof_child_pid sv \<noteq> - 1"
    "bysignal = 0 \<and> exitcode = 0 \<longrightarrow> (\<exists>cs. tmp = log_bytes cs \<and> list_all command_ok cs \<and> data (foldl exec x cs) = data (foldl exec x fk))"
    "backgroundRewriteDoneHandler junk tmp newfd w renamed openfd fsync_ok exitcode bysignal sv = Some sv'"
  shows "aof_inv exec data x sv' hist fk'"
proof -
  obtain sv1 where sv1: "sv' = rewrite_cleanup sv1"
    "(if bysignal = 0 \<and> exitcode = 0 then
          if newfd = - 1 then Some sv
          else do {
            (file, n) \<leftarrow> aofRewriteBufferWrite w tmp sv;
            if n = - 1 \<or> \<not> renamed then Some sv else switch_file junk fsync_ok openfd newfd file sv
          }
        else Some (sv\<lparr>aof_lastbgrewrite_status := False\<rparr>)) = Some sv1"
    using assms(5) unfolding backgroundRewriteDoneHandler_def by (elim bind_eq_Some_conv [THEN iffD1, elim_format] exE conjE) blast
  have i: "aof_state sv = REDIS_AOF_ON" "aof_fd sv \<noteq> - 1" "rw_ok (aof_rewrite_buf_blocks sv)" "since_fork sv hist fk"
    using assms(2,3) by (auto simp: aof_inv_def)
  have clean: "aof_inv exec data x (rewrite_cleanup s) hist fk'"
    if "\<exists>cs t. aof_ok s t \<and> list_all command_ok cs \<and> aof_file s @ t = log_bytes cs \<and>
     data (foldl exec x cs) = data (foldl exec x hist) \<and> (aof_selected_db s \<noteq> - 1 \<longrightarrow> foldl exec x cs = foldl exec x hist)"
      "aof_state s = REDIS_AOF_ON" "aof_fd s \<noteq> - 1" for s
    using that unfolding aof_inv_def by (simp add: rewrite_cleanup_def aofRewriteBufferReset_def rw_ok_def aof_ok_def Let_def)
  have same: "aof_inv exec data x (rewrite_cleanup sv) hist fk'" "aof_inv exec data x (rewrite_cleanup (sv\<lparr>aof_lastbgrewrite_status := False\<rparr>)) hist fk'"
    using assms(2) by (intro clean; simp add: aof_inv_def aof_ok_def)+
  obtain fl n where w: "aofRewriteBufferWrite w tmp sv = Some (fl, n)" "n \<noteq> - 1 \<Longrightarrow> fl = tmp @ rw_stream (aof_rewrite_buf_blocks sv)"
    using rw_write_ok [of "aof_rewrite_buf_blocks sv" 0 w 0 tmp] i(3) by (auto simp: rw_ok_def aofRewriteBufferWrite_def)
  show ?thesis
  proof (cases "bysignal = 0 \<and> exitcode = 0 \<and> newfd \<noteq> - 1 \<and> n \<noteq> - 1 \<and> renamed")
    case False
    then consider "\<not> (bysignal = 0 \<and> exitcode = 0)" | "bysignal = 0 \<and> exitcode = 0" "newfd = - 1"
      | "bysignal = 0 \<and> exitcode = 0" "newfd \<noteq> - 1" "n = - 1 \<or> \<not> renamed" by blast
    then have "sv1 = sv \<or> sv1 = sv\<lparr>aof_lastbgrewrite_status := False\<rparr>"
    proof cases
      case 1
      then show ?thesis using sv1(2) [unfolded if_not_P [OF 1(1)] option.inject] by blast
    next
      case 2
      then show ?thesis using sv1(2) [unfolded if_P [OF 2(1)] if_P [OF 2(2)] option.inject] by blast
    next
      case 3
      then show ?thesis using sv1(2) [unfolded if_P [OF 3(1)] if_not_P [OF 3(2)] w(1) bind.simps prod.case if_P [OF 3(3)] option.inject] by blast
    qed
    then show ?thesis using same sv1(1) by auto
  next
    case True
    obtain cs where cs: "tmp = log_bytes cs" "list_all command_ok cs" "data (foldl exec x cs) = data (foldl exec x fk)" using assms(4) True by blast
    obtain ds where ds: "hist = fk @ ds" "rw_stream (aof_rewrite_buf_blocks sv) = log_bytes ds" "list_all command_ok ds"
        "if ds = [] then aof_selected_db sv = - 1 else \<exists>db. hd ds = select_command db"
      using i(4) by (auto simp: since_fork_def)
    have e: "data (foldl exec x (cs @ ds)) = data (foldl exec x hist)"
      using foldl_select [OF assms(1) cs(3), of ds] cs(3) ds(1,4) by (cases "ds = []") auto
    obtain q where q: "sdsempty junk = Some q" "sds_is q [] 0" using sdsempty_is by blast
    have s: "switch_file junk fsync_ok openfd newfd fl sv = Some sv1" using sv1(2) w(1) True by simp
    note f = switch_file_ok [OF s i(2) _ i(1) q(1)]
    have "aof_ok sv1 []" using f True q(2) by (auto simp: aof_ok_def)
    moreover have "list_all command_ok (cs @ ds)" "aof_file sv1 @ [] = log_bytes (cs @ ds)" using f(1) True w(2) cs(1,2) ds(2,3) by simp_all
    ultimately have "\<exists>cs t. aof_ok sv1 t \<and> list_all command_ok cs \<and> aof_file sv1 @ t = log_bytes cs \<and>
       data (foldl exec x cs) = data (foldl exec x hist) \<and> (aof_selected_db sv1 \<noteq> - 1 \<longrightarrow> foldl exec x cs = foldl exec x hist)"
      using f(3) True e by (intro exI [of _ "cs @ ds"] exI [of _ "[] :: byte list"] conjI) simp_all
    then show ?thesis unfolding sv1(1) by (rule clean) (use f(4,5) True in simp_all)
  qed
qed

lemma aof_run_inv:
  assumes "select_law exec data" "aof_run exec data x sv hist fk"
  shows "aof_inv exec data x sv hist fk"
  using assms(2)
proof induction
  case (start sv cs fk)
  then show ?case unfolding aof_inv_def by (intro conjI exI [of _ cs] exI [of _ "[]"]) (auto simp: rw_ok_def)
next
  case (feed sv hist fk shared cmd argv dictid ps now junk sv')
  show ?case by (rule aof_inv_feed [OF assms(1) feed.IH feed.hyps(2-9)])
next
  case (flush sv hist fk nwritten junk unixtime pending errno trunc_ok fsync_ok force sv')
  show ?case by (rule aof_inv_flush [OF flush.IH flush.hyps(2-4)])
next
  case (fork sv hist fk childpid sv')
  have c: "aof_child_pid sv = - 1" "sv' = sv\<lparr>aof_rewrite_scheduled := False, aof_child_pid := childpid, aof_selected_db := - 1\<rparr>"
    using fork.hyps(2) by (auto simp: rewriteAppendOnlyFileBackground_def split: if_splits)
  obtain cs t where "aof_ok sv t" "list_all command_ok cs" "aof_file sv @ t = log_bytes cs" "data (foldl exec x cs) = data (foldl exec x hist)"
      "aof_state sv = REDIS_AOF_ON" "aof_fd sv \<noteq> - 1" "aof_rewrite_buf_blocks sv = []"
    using fork.IH c(1) unfolding aof_inv_def by auto
  then show ?case unfolding aof_inv_def c(2)
    by (intro conjI exI [of _ cs] exI [of _ t]) (simp_all add: aof_ok_def since_fork_def rw_ok_def)
next
  case (rewritten sv hist fk bysignal exitcode tmp junk newfd w renamed openfd fsync_ok sv' fk')
  show ?case by (rule aof_inv_rewritten [OF assms(1) rewritten.IH rewritten.hyps(2-4)])
qed

section \<open>Properties\<close>

text \<open>A server that has just been started with an empty file, and the buffer \<open>q\<close>.\<close>

definition new_aof :: "aof_policy \<Rightarrow> sds \<Rightarrow> aofServer" where
  "new_aof policy q = \<lparr>aof_state = REDIS_AOF_ON, aof_fsync = policy, aof_no_fsync_on_rewrite = False, aof_rewrite_base_size = 0,
     aof_current_size = 0, aof_rewrite_scheduled = False, aof_child_pid = - 1, rdb_child_pid = - 1, aof_rewrite_buf_blocks = [], aof_buf = q,
     aof_fd = 7, aof_selected_db = - 1, aof_flush_postponed_start = 0, aof_last_fsync = 0, aof_lastbgrewrite_status = True,
     aof_delayed_fsync = 0, aof_last_write_status = True, aof_last_write_errno = 0, aof_load_truncated = True, last_write_error_log = 0,
     aof_file = [], aof_synced = 0, aof_fsync_jobs = 0, aof_closing = []\<rparr>"

lemma new_aof_ok: "sds_is q t f \<Longrightarrow> length t < 2 ^ 31 \<Longrightarrow> aof_ok (new_aof policy q) t"
  by (auto simp: aof_ok_def new_aof_def)

lemma new_aof_syncs: "syncs_now (new_aof AOF_FSYNC_ALWAYS q)"
  by (simp add: syncs_now_def new_aof_def)

text \<open>C10: flushing moves bytes from the front of the buffer to the end of the file, without losing or repeating one, whatever the
  results of \<open>write\<close> and \<open>ftruncate\<close>, and keeps the size of the file known. With the policy \<open>always\<close> the server either ends, with
  a part of the buffer written, or goes on with everything on the disk, if \<open>fsync\<close> succeeds and is not
  suppressed during a rewrite.\<close>

theorem aof_flush:
  assumes "aof_ok sv t" "- 1 \<le> nwritten" "nwritten \<le> int (length t)"
  shows "\<exists>r. flushAppendOnlyFile junk unixtime pending nwritten errno trunc_ok fsync_ok force sv = Some r \<and>
    (case r of
       Continue sv' \<Rightarrow> \<exists>k. aof_file sv' = aof_file sv @ take k t \<and> aof_ok sv' (drop k t) \<and> aof_synced sv \<le> aof_synced sv' \<and>
         (syncs_now sv \<and> fsync_ok \<and> t \<noteq> [] \<longrightarrow> drop k t = [] \<and> aof_synced sv' = length (aof_file sv'))
     | Exit sv' \<Rightarrow> aof_fsync sv = AOF_FSYNC_ALWAYS \<and> (\<exists>k. aof_file sv' = aof_file sv @ take k t))"
proof -
  obtain r where r: "flushAppendOnlyFile junk unixtime pending nwritten errno trunc_ok fsync_ok force sv = Some r"
    "case r of Continue sv' \<Rightarrow> \<exists>k. moved sv t k sv' \<and> (syncs_now sv \<and> fsync_ok \<and> t \<noteq> [] \<longrightarrow> length t \<le> k \<and> aof_synced sv' = length (aof_file sv'))
     | Exit sv' \<Rightarrow> aof_fsync sv = AOF_FSYNC_ALWAYS \<and> (\<exists>k. aof_file sv' = aof_file sv @ take k t)"
    using flush_ok [OF assms] by blast
  show ?thesis
  proof (cases r)
    case (Continue sv')
    then obtain k where "moved sv t k sv'" "syncs_now sv \<and> fsync_ok \<and> t \<noteq> [] \<longrightarrow> length t \<le> k \<and> aof_synced sv' = length (aof_file sv')"
      using r(2) by auto
    then show ?thesis using r(1) Continue by (intro exI [of _ r] conjI) (auto simp: moved_def)
  next
    case (Exit sv')
    then show ?thesis using r by auto
  qed
qed

text \<open>With the policy \<open>everysec\<close>, a short write that cannot be undone leaves the rest in the buffer.\<close>

theorem aof_flush_witness:
  "\<exists>q r. sdsnewlen (\<lambda>i. 170) (Some [42, 49]) 2 = Some q \<and>
     flushAppendOnlyFile (\<lambda>i. 170) 100 False 1 28 False True False (new_aof AOF_FSYNC_EVERYSEC q) = Some (Continue r) \<and>
     (\<exists>k. aof_file r = take k [42, 49] \<and> aof_ok r (drop k [42, 49]))"
proof -
  obtain q where q: "sdsnewlen (\<lambda>i. 170) (Some [42, 49]) 2 = Some q" "sds_is q [42, 49] 0"
    using sdsnewlen_is [of 2 "[42, 49]" "\<lambda>i. 170"] by auto
  let ?sv = "new_aof AOF_FSYNC_EVERYSEC q"
  have sv: "aof_fsync ?sv = AOF_FSYNC_EVERYSEC" "aof_file ?sv = []" by (simp_all add: new_aof_def)
  have "aof_ok ?sv [42, 49]" using q(2) by (rule new_aof_ok) simp
  from aof_flush [OF this, of 1 "\<lambda>i. 170" 100 False 28 False True False] obtain r where
    r: "flushAppendOnlyFile (\<lambda>i. 170) 100 False 1 28 False True False ?sv = Some r"
      "case r of
         Continue sv' \<Rightarrow> \<exists>k. aof_file sv' = aof_file ?sv @ take k [42, 49] \<and> aof_ok sv' (drop k [42, 49]) \<and> aof_synced ?sv \<le> aof_synced sv' \<and>
           (syncs_now ?sv \<and> True \<and> [42, 49 :: byte] \<noteq> [] \<longrightarrow> drop k [42, 49 :: byte] = [] \<and> aof_synced sv' = length (aof_file sv'))
       | Exit sv' \<Rightarrow> aof_fsync ?sv = AOF_FSYNC_ALWAYS \<and> (\<exists>k. aof_file sv' = aof_file ?sv @ take k [42, 49])" by auto
  show ?thesis
  proof (cases r)
    case (Continue sv')
    then show ?thesis using q(1) r sv(2) by auto
  next
    case (Exit sv')
    then show ?thesis using r(2) sv(1) by simp
  qed
qed

text \<open>The result of \<open>fsync\<close> is not looked at: with the policy \<open>always\<close> the server goes on as if the data were on the disk.\<close>

lemma fsync_ignored:
  assumes "aof_ok sv t" "t \<noteq> []" "aof_fsync sv = AOF_FSYNC_ALWAYS"
  shows "\<exists>sv'. flushAppendOnlyFile junk unixtime pending (int (length t)) errno trunc_ok False force sv = Some (Continue sv') \<and>
    aof_last_write_status sv' \<and> aof_synced sv' = aof_synced sv \<and> aof_file sv' = aof_file sv @ t"
proof -
  obtain f where b: "sds_is (aof_buf sv) t f" "length t < 2 ^ 31" using assms(1) by (auto simp: aof_ok_def)
  have sl: "sdslen (aof_buf sv) = length t" "sint (sds_len (aof_buf sv)) = int (length t)" using sds_isD(3) [OF b(1)] sds_is_sint [OF b] by simp_all
  obtain q where "(if length t + sdsavail (aof_buf sv) < 4000 then sdsclear (aof_buf sv) else sdsempty junk) = Some q"
    using sdsclear_is [OF b(1)] sdsempty_is [of junk] by (cases "length t + sdsavail (aof_buf sv) < 4000") auto
  then show ?thesis using assms(2,3) sds_is_mem [OF b(1)] sl
    by (simp add: flushAppendOnlyFile_def Let_def flush_fsync_def aof_do_fsync_def)
qed

text \<open>A server that cannot turn the file on because a child is rewriting it keeps the descriptor that it has closed, and takes
  the file for turned on when the child ends: the descriptor is closed a second time.\<close>

lemma start_stale_fd:
  assumes "aof_state sv = REDIS_AOF_OFF" "aof_child_pid sv \<noteq> - 1" "fd \<noteq> - 1" "newfd \<noteq> - 1" "aof_rewrite_buf_blocks sv = []"
  shows "\<exists>sv1 sv2. startAppendOnly unixtime fd childpid sv = Some (sv1, False) \<and>
    backgroundRewriteDoneHandler junk tmp newfd w True openfd fsync_ok 0 0 sv1 = Some sv2 \<and>
    aof_fd sv1 = fd \<and> aof_state sv2 = REDIS_AOF_OFF \<and> aof_fd sv2 = newfd \<and> aof_closing sv2 = aof_closing sv @ [fd]"
proof -
  define sv1 where "sv1 = sv\<lparr>aof_last_fsync := unixtime, aof_fd := fd\<rparr>"
  obtain q where q: "sdsempty junk = Some q" using sdsempty_is by blast
  have "startAppendOnly unixtime fd childpid sv = Some (sv1, False)"
    using assms(1-3) by (simp add: startAppendOnly_def rewriteAppendOnlyFileBackground_def sv1_def)
  moreover have "aofRewriteBufferWrite w tmp sv1 = Some (tmp, 0)" using assms(5) by (simp add: aofRewriteBufferWrite_def sv1_def)
  moreover have "\<exists>sv2. switch_file junk fsync_ok openfd newfd tmp sv1 = Some sv2 \<and>
      aof_state sv2 = REDIS_AOF_OFF \<and> aof_fd sv2 = newfd \<and> aof_closing sv2 = aof_closing sv @ [fd]"
    using assms(1,3) q by (cases "aof_fsync sv")
      (simp_all add: switch_file_def Let_def sv1_def aofUpdateCurrentSize_def aof_do_fsync_def aof_background_fsync_def)
  ultimately show ?thesis using assms(3,4)
    by (auto simp: backgroundRewriteDoneHandler_def rewrite_cleanup_def aofRewriteBufferReset_def Let_def sv1_def)
qed

text \<open>C39: the blocks of the buffer of a rewrite are a stream of bytes: appending adds the bytes at its end, inside the blocks; the
  size is the number of its bytes; and writing puts exactly the stream at the end of a file or reports an error.\<close>

theorem aof_rewrite_buffer:
  assumes "rw_ok (aof_rewrite_buf_blocks sv)" "len \<le> length s"
  shows "\<exists>sv'. aofRewriteBufferAppend junk s len sv = Some sv' \<and> rw_ok (aof_rewrite_buf_blocks sv') \<and>
    rw_stream (aof_rewrite_buf_blocks sv') = rw_stream (aof_rewrite_buf_blocks sv) @ take len s \<and>
    aofRewriteBufferSize sv' = length (rw_stream (aof_rewrite_buf_blocks sv')) \<and>
    (\<exists>out' r. aofRewriteBufferWrite w out sv' = Some (out', r) \<and>
       (r \<noteq> - 1 \<longrightarrow> out' = out @ rw_stream (aof_rewrite_buf_blocks sv') \<and> r = int (length (rw_stream (aof_rewrite_buf_blocks sv')))))"
proof -
  obtain bs where bs: "rw_append_loop junk (aof_rewrite_buf_blocks sv) s len = Some bs" "rw_ok bs"
      "rw_stream bs = rw_stream (aof_rewrite_buf_blocks sv) @ take len s"
    using rw_append_ok [OF assms] by blast
  let ?sv = "sv\<lparr>aof_rewrite_buf_blocks := bs\<rparr>"
  have "aofRewriteBufferSize ?sv = length (rw_stream bs)" using rw_size [of ?sv] bs(2) by simp
  moreover have "\<exists>out' r. aofRewriteBufferWrite w out ?sv = Some (out', r) \<and> (r \<noteq> - 1 \<longrightarrow> out' = out @ rw_stream bs \<and> r = int (length (rw_stream bs)))"
    using rw_write_ok [of bs 0 w 0 out] bs(2) by (auto simp: rw_ok_def aofRewriteBufferWrite_def)
  ultimately show ?thesis using bs by (auto simp: aofRewriteBufferAppend_def)
qed

theorem aof_rewrite_buffer_witness:
  "\<exists>q sv'. sdsempty (\<lambda>i. 170) = Some q \<and> aofRewriteBufferAppend (\<lambda>i. 170) [42, 49, 13, 10] 4 (new_aof AOF_FSYNC_ALWAYS q) = Some sv' \<and>
    aofRewriteBufferSize sv' = 4"
proof -
  obtain q where q: "sdsempty (\<lambda>i. 170) = Some q" using sdsempty_is by blast
  have b: "aof_rewrite_buf_blocks (new_aof AOF_FSYNC_ALWAYS q) = []" by (simp add: new_aof_def)
  then have "rw_ok (aof_rewrite_buf_blocks (new_aof AOF_FSYNC_ALWAYS q))" by (simp add: rw_ok_def)
  from aof_rewrite_buffer [OF this, of 4 "[42, 49, 13, 10]" "\<lambda>i. 170" "\<lambda>i. 0" "[]"] show ?thesis using q b by auto
qed

text \<open>C38: a command given to the file is added to the buffer, and to the buffer of a rewrite if a child is running, in the form of
  commands that mean the same at any later time: after a \<open>SELECT\<close> if the last command was for another database, and with a
  relative expire made absolute, \<open>SETEX\<close> as \<open>SET\<close> and \<open>PEXPIREAT\<close>. Nothing is written to the file itself.\<close>

theorem aof_feed:
  assumes "shared_ok shared" "arity_ok cmd argv" "length argv < 2 ^ 32" "aof_ok sv t" "rw_ok (aof_rewrite_buf_blocks sv)"
    "length t + length (log_bytes (propagated now cmd dictid argv (aof_selected_db sv))) + SDS_MAX_PREALLOC < 2 ^ 31"
  shows "\<exists>sv' ps. feedAppendOnlyFile junk shared now cmd dictid argv sv = Some sv' \<and> ps = propagated now cmd dictid argv (aof_selected_db sv) \<and>
    aof_ok sv' (if aof_state sv = REDIS_AOF_ON then t @ log_bytes ps else t) \<and>
    rw_stream (aof_rewrite_buf_blocks sv') = rw_stream (aof_rewrite_buf_blocks sv) @ (if aof_child_pid sv \<noteq> - 1 then log_bytes ps else []) \<and>
    aof_selected_db sv' = dictid \<and> aof_file sv' = aof_file sv"
  using feed_ok [OF assms(1-5) refl assms(6), of junk] by blast

text \<open>\<open>SETEX n 10 v\<close> in database 0, 5000 milliseconds after the epoch.\<close>

theorem aof_feed_witness:
  "\<exists>q sv'. sdsempty (\<lambda>i. 170) = Some q \<and>
     feedAppendOnlyFile (\<lambda>i. 170) (\<lambda>i. \<lparr>o_ptr = REDIS_ENCODING_INT (word_of_int i), o_refcount = 1\<rparr>) 5000 setexCommand 0
       [createStringObject (bytes_of ''SETEX''), createStringObject (bytes_of ''n''), createStringObject (bytes_of ''10''), createStringObject (bytes_of ''v'')]
       (new_aof AOF_FSYNC_ALWAYS q) = Some sv' \<and>
     aof_ok sv' (log_bytes [[bytes_of ''SELECT'', bytes_of ''0''], [bytes_of ''SET'', bytes_of ''n'', bytes_of ''v''],
       [bytes_of ''PEXPIREAT'', bytes_of ''n'', bytes_of ''15000'']])"
proof -
  let ?shared = "\<lambda>i. \<lparr>o_ptr = REDIS_ENCODING_INT (word_of_int i), o_refcount = 1\<rparr> :: robj"
  let ?argv = "[createStringObject (bytes_of ''SETEX''), createStringObject (bytes_of ''n''), createStringObject (bytes_of ''10''), createStringObject (bytes_of ''v'')]"
  let ?cs = "[[bytes_of ''SELECT'', bytes_of ''0''], [bytes_of ''SET'', bytes_of ''n'', bytes_of ''v''], [bytes_of ''PEXPIREAT'', bytes_of ''n'', bytes_of ''15000'']]"
  obtain q where q: "sdsempty (\<lambda>i. 170) = Some q" "sds_is q [] 0" using sdsempty_is by blast
  let ?sv = "new_aof AOF_FSYNC_ALWAYS q"
  have sv: "aof_selected_db ?sv = - 1" "aof_state ?sv = REDIS_AOF_ON" "rw_ok (aof_rewrite_buf_blocks ?sv)" by (simp_all add: new_aof_def rw_ok_def)
  have st: "fst (strtoll (bytes_of ''10'' @ [0])) = 10" by code_simp
  have d: "sdec 0 = bytes_of ''0''" "sdec 15000 = bytes_of ''15000''" "sdec 1 = [49]" "sdec 2 = [50]" "sdec 3 = [51]" "sdec 5 = [53]" "sdec 6 = [54]" "sdec 9 = [57]"
    by (simp_all add: sdec_def dec.simps)
  have p: "propagated 5000 setexCommand 0 ?argv (aof_selected_db ?sv) = ?cs"
    using st by (simp add: propagated_def sv select_command_def expire_command_def expire_time_def obj_string_def createStringObject_def d)
  have "length (log_bytes ?cs) + SDS_MAX_PREALLOC < 2 ^ 31" by (simp add: command_bytes_def bulk_string_def bulk_count_def d)
  moreover have "shared_ok ?shared" "arity_ok setexCommand ?argv" "length ?argv < 2 ^ 32" by (simp_all add: shared_ok_def arity_ok_def)
  moreover have "aof_ok ?sv []" using q(2) by (rule new_aof_ok) simp
  ultimately show ?thesis using aof_feed [of ?shared setexCommand ?argv ?sv "[]" 5000 0 "\<lambda>i. 170"] q(1) sv(2,3) unfolding p by auto
qed
end
