(* ===== verification/Spec2Isabelle.thy ===== *)
theory Spec2Isabelle
  imports Util Intset Dict_Props Sds_Split Rdb Aof_Props
begin

text \<open>
  A verification of the core of the Redis server, version 2.8.24, under \<open>src/redis-2.8.24/src\<close>.

  \<^bold>\<open>The program.\<close> A client sends commands over a socket. \<open>networking.c\<close> reads them into a query buffer,
  parses them, hands the arguments to the dispatcher, and queues and sends the replies. The data are
  objects (\<open>object.c\<close>) in dictionaries (\<open>dict.c\<close>) and in compact encodings (\<open>intset.c\<close>); strings are sds
  strings (\<open>sds.c\<close>), numbers are converted by \<open>util.c\<close>. Values are dumped by \<open>rdb.c\<close> and \<open>migrate.c\<close>
  over a stream (\<open>rio.c\<close>), compressed (\<open>lzf_c.c\<close>, \<open>lzf_d.c\<close>) and checksummed (\<open>crc64.c\<close>). Every
  command that changes data is appended to a file (\<open>aof.c\<close>) in the form the parser of requests reads; at a
  restart the file is loaded and its commands are run again, and a child process rewrites it from time to time.

  \<^bold>\<open>Conventions.\<close> A C function is one definition with the name of the source; a static function \<open>_f\<close> is
  \<open>p_f\<close>; a loop is a recursive function \<open>f_loop\<close>; a long body is cut into one definition for each step.
  A struct is a record whose fields carry a prefix. Buffers are lists of bytes and every access is
  checked (\<open>Redis_Base\<close>), so that a result \<open>Some\<close> includes that the code stays inside its memory and
  that no assertion fails. Integers are words of their width where the code can overflow; a counter of
  allocated objects or a \<open>size_t\<close> bounded by a buffer is a natural. The content of fresh memory is an
  argument (\<open>junk\<close>), and every theorem holds for all of it. Allocation does not fail. Loops are total
  functions with a measure, except \<open>processInputBuffer\<close>, which calls an arbitrary dispatcher and is a
  \<open>partial_function\<close>: its theorems state that it returns. There is no fuel. Bounds such as \<open>2 ^ 31\<close> on
  a length are the range in which the 32-bit fields of the code do not overflow.

  \<^bold>\<open>The theories.\<close>

  \<^item> \<open>Redis_Base\<close>, \<open>Clib\<close>: machine types, checked buffer accesses, the C library functions the sources use.

  \<^item> \<open>Util\<close> (\<open>util.c\<close>): \<open>ll2string\<close>, \<open>string2ll\<close> and \<open>string2l\<close> against the canonical decimal spelling
    \<open>sdec\<close>: parsing accepts exactly it, printing and parsing are inverse.

  \<^item> \<open>Intset\<close> (\<open>intset.c\<close>): the sorted array on its byte layout with its three encodings. Insertion and
    removal implement the operations of a set of integers and keep the layout.

  \<^item> \<open>Dict\<close>, \<open>Dict_Iter\<close>, \<open>Dict_Scan\<close>, \<open>Dict_Props\<close> (\<open>dict.c\<close>): the two tables, incremental rehashing,
    iterators, random entries and SCAN. The locale \<open>dictType_contract\<close> is what a \<open>dictType\<close> promises
    (equal keys have equal hashes, comparison is an equivalence); the lemmas are proved in it once and
    the types of \<open>redis.c\<close> are its interpretations in \<open>Object\<close>. The operations implement those of a
    map, rehashing keeps every entry and ends, iteration returns every entry once, and SCAN returns
    every entry that stays while no table shrinks; with shrinking it can miss one.

  \<^item> \<open>Object\<close> (\<open>object.c\<close>, \<open>redis.c\<close>): string objects in their two encodings, comparison, conversion,
    and the key functions of the dictionary types. No operation depends on the encoding.

  \<^item> \<open>Sds\<close>, \<open>Sds_Split\<close> (\<open>sds.c\<close>): the header fields, the buffer and all string operations. \<open>sds_is s t f\<close>
    says that \<open>s\<close> holds the bytes \<open>t\<close> and has \<open>f\<close> bytes of free room; every operation is shown to give
    the string its description promises. Quoting and parsing, splitting and joining are inverse.

  \<^item> \<open>Crc64\<close>, \<open>Lzf\<close>, \<open>Rio\<close>, \<open>Rdb\<close>: the checksum equals the division by its polynomial; decompression
    inverts compression for any first content of the hash table, and is safe on any input; chunked
    transfers equal whole ones; a saved string is loaded again from any of its encodings, no proper
    prefix is accepted, and a DUMP payload is accepted by RESTORE unless a byte is changed.

  \<^item> \<open>Reply\<close>, \<open>Reply_Props\<close> (\<open>networking.c\<close>, output): the static buffer and the list of reply objects of a
    client. \<open>out_stream\<close> is the abstract stream of bytes: each reply function appends its bytes of the
    protocol (\<open>replies\<close>), deferred lengths are filled in at their place, and \<open>sendReplyToClient\<close> sends
    a prefix, for any results of \<open>write\<close>.

  \<^item> \<open>Query\<close>, \<open>Query_Props\<close> (\<open>networking.c\<close>, input): the parsers and the input loop. The
    inductive relation \<open>receives\<close> is the arrival of a stream in pieces of any size; the commands that are
    run are those that were sent. Malformed requests are refused with their error.

  \<^item> \<open>Aof\<close>, \<open>Aof_Props\<close> (\<open>aof.c\<close>): the append-only file. The state is the record \<open>aofServer\<close>, the file and
    what of it is on the disk included. Feeding appends the text of commands that mean the same at any
    later time, flushing moves bytes from the buffer to the file for any results of the system calls, the
    blocks of a rewrite are a stream. The inductive relation \<open>aof_run\<close> is a server that feeds, flushes,
    forks and ends rewrites in any order, and \<open>aof_inv\<close> is its invariant: file and buffer hold commands that
    give the data set of the history.

  \<^item> This theory: the composition of the writer of commands with the parser of requests, and the restart of
    a server from any part of its file that has reached the disk.

  \<^bold>\<open>Parameters.\<close> The results of the system calls \<open>read\<close> and \<open>write\<close> and of the event library, the size the
  allocator reports (\<open>zsize\<close>), the random numbers, the hash seed, and the dispatcher \<open>processCommand\<close>
  with the effect \<open>exec\<close> of a command on the rest of the state (\<open>dispatches\<close> says that it runs the command
  it is given and leaves the connection open).

  \<^bold>\<open>Not modelled.\<close> The event loop, sockets, files, threads, forks, signals and the clock are system calls.
  Functions on doubles (sorted-set scores, \<open>d2string\<close>, \<open>addReplyDouble\<close>, HyperLogLog estimates) depend on
  the printing and rounding of the C library. The commands themselves (\<open>t_*.c\<close>, \<open>db.c\<close>), replication,
  Sentinel, scripting, configuration and the command-line tools are built on these parts and are not
  translated. Releasing memory and logging have no result. The other programs of the repository
  (LevelDB, memcached, pcrecpp, weighttp) are separate code bases without a connection to Redis.
\<close>

section \<open>Commands from one server to another\<close>

text \<open>C40: commands written for the append-only file are read by the parser of requests as they were: the text that
  \<open>catAppendOnlyGenericCommand\<close> writes for them, whatever the encoding of the arguments, can be read by a
  new client in any pieces, and a client that has read all of it has run exactly these commands with exactly
  these arguments, in order.\<close>

theorem command_propagation:
  fixes c :: "'a queryClient_scheme"
  assumes "dispatches processCommand exec" "list_all command_ok (map (map obj_string) cmds)"
    "length (concat (map command_bytes (map (map obj_string) cmds))) + SDS_MAX_PREALLOC < 2 ^ 32"
    "createClient junk0 server listen cid cl outb inb x fd = Some (Some c)" "REDIS_MAX_QUERYBUF_LEN \<le> maxlen"
  shows "\<exists>aof. Option.bind (sdsempty junk) (\<lambda>dst. cat_commands junk dst cmds) = Some aof \<and>
    (\<exists>c'. receives processCommand junk zsize server ae maxlen c (sds_str aof) c' []) \<and>
    (\<forall>c'. receives processCommand junk zsize server ae maxlen c (sds_str aof) c' [] \<longrightarrow>
       queryClient.more c' = foldl exec x (map (map obj_string) cmds))"
proof -
  let ?cs = "map (map obj_string) cmds"
  obtain dst where dst: "sdsempty junk = Some dst" "sds_is dst [] 0" using sdsempty_is by blast
  obtain aof f where aof: "cat_commands junk dst cmds = Some aof" "sds_is aof (concat (map command_bytes ?cs)) f"
    using cat_commands_ok [OF dst(2) _ assms(2), of junk] assms(3) by auto
  note rest = createClient_ok(1) [OF assms(4), of ?cs]
  have "queryClient.more c' = foldl exec x ?cs"
    if r: "receives processCommand junk zsize server ae maxlen c (concat (map command_bytes ?cs)) c' []" for c'
  proof -
    obtain m where m: "m \<le> length ?cs" "queryClient.more c' = foldl exec x (take m ?cs)" "resting c' [] (drop m ?cs)"
      using receives_resting [OF r assms(1,2) rest assms(5)] createClient_ok(2) [OF assms(4)] by auto
    then show ?thesis using resting_end [OF m(3)] by simp
  qed
  then show ?thesis
    using dst(1) aof(1) sds_isD(2) [OF aof(2)] receives_completes [OF assms(1,2) rest assms(5) receives.start] by auto
qed

text \<open>\<open>SET n 12\<close>, its last argument an integer, and \<open>GET n\<close>.\<close>

theorem command_propagation_witness:
  "\<exists>c aof c'. createClient (\<lambda>i. 170) some_server True 1 [] 0 0 ([] :: byte list list list) 5 = Some (Some c) \<and>
     Option.bind (sdsempty (\<lambda>i. 170)) (\<lambda>dst. cat_commands (\<lambda>i. 170) dst
       [[createStringObject [83, 69, 84], createStringObject [110], \<lparr>o_ptr = REDIS_ENCODING_INT 12, o_refcount = 1\<rparr>],
        [createStringObject [71, 69, 84], createStringObject [110]]]) = Some aof \<and>
     receives log_command (\<lambda>i. 170) (\<lambda>n. n) some_server (\<lambda>c. True) (1024 * 1024 * 1024) c (sds_str aof) c' [] \<and>
     queryClient.more c' = [[[83, 69, 84], [110], [49, 50]], [[71, 69, 84], [110]]]"
proof -
  let ?cmds = "[[createStringObject [83, 69, 84], createStringObject [110], \<lparr>o_ptr = REDIS_ENCODING_INT 12, o_refcount = 1\<rparr>],
    [createStringObject [71, 69, 84], createStringObject [110]]]"
  obtain q where "sdsempty (\<lambda>i. 170) = Some q" using sdsempty_is by blast
  then obtain c where c: "createClient (\<lambda>i. 170) some_server True 1 [] 0 0 ([] :: byte list list list) 5 = Some (Some c)"
    by (simp add: createClient_def)
  have d: "sdec 12 = [49, 50]" "sdec 3 = [51]" "sdec 2 = [50]" "sdec 1 = [49]" by (simp_all add: sdec_def dec.simps)
  have s: "map (map obj_string) ?cmds = [[[83, 69, 84], [110], [49, 50]], [[71, 69, 84], [110]]]"
    by (simp add: obj_string_def createStringObject_def d)
  have ok: "list_all command_ok (map (map obj_string) ?cmds)" unfolding s by (simp add: command_ok_def)
  have l: "length (concat (map command_bytes (map (map obj_string) ?cmds))) + SDS_MAX_PREALLOC < 2 ^ 32"
    unfolding s by (simp add: command_bytes_def bulk_string_def bulk_count_def d)
  have m: "REDIS_MAX_QUERYBUF_LEN \<le> 1024 * 1024 * 1024" by simp
  from command_propagation [OF log_command_dispatches ok l c m, where junk = "\<lambda>i. 170" and zsize = "\<lambda>n. n" and ae = "\<lambda>c. True"]
  show ?thesis using c unfolding s by auto
qed

section \<open>Restarting from the append-only file\<close>


text \<open>Commands that are logged with the database they are for.\<close>

definition db_log :: "byte list \<times> (byte list \<times> byte list list) list \<Rightarrow> byte list list \<Rightarrow> byte list \<times> (byte list \<times> byte list list) list" where
  "db_log s args = (if args ! 0 = bytes_of ''SELECT'' then (args ! 1, snd s) else (fst s, snd s @ [(fst s, args)]))"

definition db_log_command ::
    "(byte list \<times> (byte list \<times> byte list list) list) queryClient_scheme \<Rightarrow> (byte list \<times> (byte list \<times> byte list list) list) queryClient_scheme" where
  "db_log_command c = queryClient.more_update (\<lambda>s. db_log s (map sds_str (c_argv c))) c"

lemma db_log_laws: "select_law db_log snd" "replays (\<lambda>name. True) db_log_command db_log"
  by (simp_all add: select_law_def db_log_def select_command_def replays_def db_log_command_def idle_def)

lemma moved_all:
  assumes "moved sv t k sv'" "aof_file sv' = aof_file sv @ t"
  shows "aof_ok sv' []" "aof_load_truncated sv' = aof_load_truncated sv"
proof -
  have "take k t = t" using assms by (simp add: moved_def)
  then have "drop k t = []" by (metis drop_eq_Nil length_take min.cobounded2)
  then show "aof_ok sv' []" "aof_load_truncated sv' = aof_load_truncated sv" using assms(1) by (simp_all add: moved_def aof_frame_def)
qed


end
